(* ===== verification/Prelude.thy ===== *)
theory Prelude
  imports Main "HOL-Library.Word" "HOL-Library.Char_ord" "HOL-Library.List_Lexorder"
begin

text \<open>
  Shared vocabulary of the development: the machine types of the C++ sources, the
  model of \<^verbatim>\<open>std::map\<close> as an ordered association list, the parts of the
  \<^verbatim>\<open>iostream\<close> library the sources use to print and read text (the Paxos log,
  the view strings of the config module, the directory files of YFS), and the generic
  lemmas on lists, options and words that the component theories rely on.

  The sources are compiled for a 32-bit target (\<^verbatim>\<open>marshall\<close> has no overload for
  a 64-bit \<^verbatim>\<open>size_t\<close>), so \<^verbatim>\<open>unsigned\<close> and \<^verbatim>\<open>size_t\<close> are 32-bit words.
\<close>

subsection \<open>Machine types\<close>

type_synonym byte = "8 word"
type_synonym u16 = "16 word"
type_synonym u32 = "32 word"
type_synonym u64 = "64 word"

text \<open>A failed \<^verbatim>\<open>VERIFY\<close> aborts the process; undefined behaviour and the exit at a
  breakpoint are error values, too.\<close>

datatype failure = Verify_failed | Undefined_behaviour | Process_exit

type_synonym 'a res = "failure + 'a"

definition res_bind :: "'a res \<Rightarrow> ('a \<Rightarrow> 'b res) \<Rightarrow> 'b res" where
  "res_bind r f = (case r of Inl e \<Rightarrow> Inl e | Inr x \<Rightarrow> f x)"

lemma res_bind_simps [simp]: "res_bind (Inl e) f = Inl e" "res_bind (Inr x) f = f x"
  by (simp_all add: res_bind_def)

lemma res_bind_Inr: "res_bind r f = Inr y \<longleftrightarrow> (\<exists>x. r = Inr x \<and> f x = Inr y)"
  by (cases r) simp_all

text \<open>The outcome of \<^verbatim>\<open>handle::safebind\<close> and \<^verbatim>\<open>rpcc::call\<close> at one node:
  no connection, or the status and the result of the call.\<close>

datatype 'r outcome = Unbound | Returned int 'r

named_theorems smap_simps \<open>lookups and updates of ordered association lists\<close>
named_theorems text_simps \<open>printing and reading of text\<close>
named_theorems handler_defs \<open>the request handlers of a component, unfolded\<close>

subsection \<open>\<^verbatim>\<open>std::map\<close> as an ordered association list\<close>

type_synonym ('k, 'v) smap = "('k \<times> 'v) list"

fun smap_set :: "'k::linorder \<Rightarrow> 'v \<Rightarrow> ('k, 'v) smap \<Rightarrow> ('k, 'v) smap" where
  "smap_set k v [] = [(k, v)]"
| "smap_set k v ((k', v') # m) =
     (if k < k' then (k, v) # (k', v') # m
      else if k = k' then (k, v) # m
      else (k', v') # smap_set k v m)"

definition smap_del :: "'k \<Rightarrow> ('k, 'v) smap \<Rightarrow> ('k, 'v) smap" where
  "smap_del k m = filter (\<lambda>e. fst e \<noteq> k) m"

definition smap_has :: "'k \<Rightarrow> ('k, 'v) smap \<Rightarrow> bool" where
  "smap_has k m \<longleftrightarrow> map_of m k \<noteq> None"

text \<open>\<^verbatim>\<open>m[k]\<close> as an rvalue: a missing key is inserted with a default value.\<close>

definition smap_index :: "'v \<Rightarrow> 'k::linorder \<Rightarrow> ('k, 'v) smap \<Rightarrow> 'v \<times> ('k, 'v) smap" where
  "smap_index d k m = (case map_of m k of Some v \<Rightarrow> (v, m) | None \<Rightarrow> (d, smap_set k d m))"

text \<open>The value \<^verbatim>\<open>m[k]\<close> reads, when the insertion of the default is of no interest.\<close>

definition smap_val :: "'v \<Rightarrow> 'k \<Rightarrow> ('k, 'v) smap \<Rightarrow> 'v" where
  "smap_val d k m = (case map_of m k of Some v \<Rightarrow> v | None \<Rightarrow> d)"

definition smap_ok :: "('k::linorder, 'v) smap \<Rightarrow> bool" where
  "smap_ok m \<longleftrightarrow> sorted_wrt (<) (map fst m)"

lemma map_of_smap_set [simp]: "map_of (smap_set k v m) = (map_of m)(k \<mapsto> v)"
  by (induction m) (auto simp: fun_eq_iff)

lemma map_of_smap_del [simp]: "map_of (smap_del k m) = (map_of m)(k := None)"
  by (induction m) (auto simp: smap_del_def fun_eq_iff)

lemma map_of_smap_index [simp]:
  "map_of (snd (smap_index d k m)) = (map_of m)(k \<mapsto> smap_val d k m)"
  by (auto simp: smap_index_def smap_val_def fun_eq_iff split: option.splits)

lemma fst_smap_index [simp]: "fst (smap_index d k m) = smap_val d k m"
  by (auto simp: smap_index_def smap_val_def split: option.splits)

lemma smap_val_set [simp]:
  "smap_val d k (smap_set k' v m) = (if k = k' then v else smap_val d k m)"
  by (auto simp: smap_val_def)

lemma smap_val_index [simp]:
  "smap_val d k (snd (smap_index d k' m)) = smap_val d k m"
  by (auto simp: smap_index_def smap_val_def split: option.splits)

lemma smap_has_set [simp]: "smap_has k (smap_set k' v m) \<longleftrightarrow> k = k' \<or> smap_has k m"
  by (auto simp: smap_has_def)

lemma smap_has_del [simp]: "smap_has k (smap_del k' m) \<longleftrightarrow> k \<noteq> k' \<and> smap_has k m"
  by (auto simp: smap_has_def)

lemma smap_set_twice [simp]: "smap_set k v (smap_set k w m) = smap_set k v m"
  by (induction k w m rule: smap_set.induct) auto

lemma set_keys_smap_set: "fst ` set (smap_set k v m) = insert k (fst ` set m)"
  by (induction k v m rule: smap_set.induct) (simp_all add: insert_commute)

lemma smap_ok_Nil [simp]: "smap_ok []"
  by (simp add: smap_ok_def)

lemma smap_ok_Cons [simp]:
  "smap_ok ((k, v) # m) \<longleftrightarrow> (\<forall>k' \<in> fst ` set m. k < k') \<and> smap_ok m"
  by (auto simp: smap_ok_def)

lemma smap_ok_set [intro]: "smap_ok m \<Longrightarrow> smap_ok (smap_set k v m)"
proof (induction m)
  case (Cons e m)
  then show ?case
    by (cases e) (auto simp: set_keys_smap_set dest: less_trans)
qed simp

lemma smap_ok_del [intro]: "smap_ok m \<Longrightarrow> smap_ok (smap_del k m)"
  by (induction m) (auto simp: smap_del_def)

lemma smap_ok_index [intro]: "smap_ok m \<Longrightarrow> smap_ok (snd (smap_index d k m))"
  by (auto simp: smap_index_def split: option.splits)

text \<open>Filling an empty map in key order rebuilds it: what unmarshalling relies on.\<close>

lemma smap_set_last:
  "\<forall>k' \<in> fst ` set m. k' < k \<Longrightarrow> smap_set k v m = m @ [(k, v)]"
  by (induction m) (auto simp: less_not_sym)

lemma smap_rebuild:
  assumes "smap_ok (m @ m')"
  shows "fold (\<lambda>(k, v). smap_set k v) m' m = m @ m'"
  using assms
proof (induction m' arbitrary: m)
  case (Cons e m')
  obtain k v where e: "e = (k, v)" by (cases e)
  have "\<forall>k' \<in> fst ` set m. k' < k"
    using Cons.prems e by (auto simp: smap_ok_def sorted_wrt_append)
  then have "smap_set k v m = m @ [(k, v)]" by (rule smap_set_last)
  then show ?case using Cons.IH [of "m @ [(k, v)]"] Cons.prems e by simp
qed simp

lemma smap_ok_distinct: "smap_ok m \<Longrightarrow> distinct (map fst m)"
  by (auto simp: smap_ok_def strict_sorted_iff)

text \<open>The keys of a map.\<close>

definition smap_keys :: "('k, 'v) smap \<Rightarrow> 'k set" where
  "smap_keys m = fst ` set m"

lemma smap_keys_Nil [simp]: "smap_keys [] = {}"
  by (simp add: smap_keys_def)

lemma smap_keys_set [simp]: "smap_keys (smap_set k v m) = insert k (smap_keys m)"
  by (simp add: smap_keys_def set_keys_smap_set)

lemma smap_keys_del [simp]: "smap_keys (smap_del k m) = smap_keys m - {k}"
  by (auto simp: smap_keys_def smap_del_def)

lemma smap_has_keys: "smap_has k m \<longleftrightarrow> k \<in> smap_keys m"
  by (simp add: smap_has_def smap_keys_def map_of_eq_None_iff)

lemma map_of_keys: "map_of m k = Some v \<Longrightarrow> k \<in> smap_keys m"
  using smap_has_keys [of k m] by (simp add: smap_has_def)

lemma smap_keys_map [simp]: "smap_keys (map (\<lambda>(k, v). (k, f k v)) m) = smap_keys m"
  by (force simp: smap_keys_def)

end
