(* ===== verification/Text_IO.thy ===== *)
theory Text_IO
  imports Prelude
begin

text \<open>
  The formatted input and output the sources use: \<^verbatim>\<open>ost << n\<close> of an unsigned
  number, \<^verbatim>\<open>ist >> word\<close>, \<^verbatim>\<open>ist >> number\<close>, \<^verbatim>\<open>ist.get()\<close> and
  \<^verbatim>\<open>getline\<close>. A stream is the text that is left and the flag that no operation has
  failed; after a failure every operation leaves its target unchanged.
\<close>

subsection \<open>Characters and decimal numbers\<close>

abbreviation newline :: char where "newline \<equiv> CHR 0x0A"
abbreviation space :: char where "space \<equiv> CHR 0x20"

definition is_space :: "char \<Rightarrow> bool" where
  "is_space c \<longleftrightarrow> c = space \<or> (9 \<le> (of_char c :: nat) \<and> (of_char c :: nat) \<le> 13)"

definition is_digit :: "char \<Rightarrow> bool" where
  "is_digit c \<longleftrightarrow> 48 \<le> (of_char c :: nat) \<and> (of_char c :: nat) \<le> 57"

definition digit :: "nat \<Rightarrow> char" where
  "digit d = char_of (48 + d)"

definition digit_val :: "char \<Rightarrow> nat" where
  "digit_val c = of_char c - 48"

fun show_nat :: "nat \<Rightarrow> string" where
  "show_nat n = (if n < 10 then [digit n] else show_nat (n div 10) @ [digit (n mod 10)])"

declare show_nat.simps [simp del]

definition digits_val :: "string \<Rightarrow> nat" where
  "digits_val ds = foldl (\<lambda>n c. 10 * n + digit_val c) 0 ds"

lemma is_digit_digit [simp]: "d < 10 \<Longrightarrow> is_digit (digit d)"
  by (simp add: is_digit_def digit_def)

lemma digit_val_digit [simp]: "d < 10 \<Longrightarrow> digit_val (digit d) = d"
  by (simp add: digit_val_def digit_def)

lemma digit_not_space: "is_digit c \<Longrightarrow> \<not> is_space c"
  by (auto simp: is_digit_def is_space_def)

lemma space_not_digit [simp]: "\<not> is_digit space"
  by (simp add: is_digit_def)

lemma is_space_space [simp]: "is_space space"
  by (simp add: is_space_def)

lemma is_space_newline [simp]: "is_space newline"
  by (simp add: is_space_def)

lemma show_nat_digits: "c \<in> set (show_nat n) \<Longrightarrow> is_digit c"
proof (induction n rule: show_nat.induct)
  case (1 n)
  then show ?case
    by (cases "n < 10") (auto simp: show_nat.simps [of n])
qed

lemma show_nat_nonempty [simp]: "show_nat n \<noteq> []"
  by (simp add: show_nat.simps [of n])

lemma digits_val_show_nat [simp]: "digits_val (show_nat n) = n"
proof (induction n rule: show_nat.induct)
  case (1 n)
  show ?case
  proof (cases "n < 10")
    case True
    then show ?thesis by (simp add: show_nat.simps [of n] digits_val_def)
  next
    case False
    have "digits_val (show_nat n) = 10 * digits_val (show_nat (n div 10)) + n mod 10"
      using False by (subst show_nat.simps) (simp add: digits_val_def)
    with 1 False show ?thesis by simp
  qed
qed

subsection \<open>Input streams\<close>

record istream =
  st_rest :: string
  st_ok :: bool

definition istream_of :: "string \<Rightarrow> istream" where
  "istream_of s = \<lparr>st_rest = s, st_ok = True\<rparr>"

definition istream_fail :: "string \<Rightarrow> istream" where
  "istream_fail s = \<lparr>st_rest = s, st_ok = False\<rparr>"

text \<open>\<^verbatim>\<open>ist >> word\<close>\<close>

definition extract_word :: "string \<Rightarrow> istream \<Rightarrow> string \<times> istream" where
  "extract_word old s =
     (if \<not> st_ok s then (old, s)
      else let r = dropWhile is_space (st_rest s) in
        if r = [] then (old, istream_fail [])
        else (takeWhile (\<lambda>c. \<not> is_space c) r, istream_of (dropWhile (\<lambda>c. \<not> is_space c) r)))"

text \<open>\<^verbatim>\<open>ist >> n\<close> for an unsigned \<^verbatim>\<open>n\<close>: an optional sign, then decimal digits.\<close>

definition extract_uint :: "'w::len word \<Rightarrow> istream \<Rightarrow> 'w word \<times> istream" where
  "extract_uint old s =
     (if \<not> st_ok s then (old, s)
      else let r = dropWhile is_space (st_rest s) in
        if r = [] then (old, istream_fail [])
        else let neg = (hd r = CHR ''-'');
                 r1 = (if hd r = CHR ''-'' \<or> hd r = CHR ''+'' then tl r else r);
                 n = digits_val (takeWhile is_digit r1);
                 r2 = dropWhile is_digit r1
        in if takeWhile is_digit r1 = [] then (0, istream_fail r2)
           else if n \<ge> 2 ^ LENGTH('w) then (- 1, istream_fail r2)
           else (if neg then - of_nat n else of_nat n, istream_of r2))"

text \<open>\<^verbatim>\<open>ist.get()\<close> with the character thrown away\<close>

definition stream_get :: "istream \<Rightarrow> istream" where
  "stream_get s =
     (if \<not> st_ok s then s
      else case st_rest s of [] \<Rightarrow> istream_fail [] | c # cs \<Rightarrow> istream_of cs)"

text \<open>\<^verbatim>\<open>getline(ist, v)\<close>\<close>

definition stream_getline :: "string \<Rightarrow> istream \<Rightarrow> string \<times> istream" where
  "stream_getline old s =
     (if \<not> st_ok s then (old, s)
      else if st_rest s = [] then ([], istream_fail [])
      else (takeWhile (\<lambda>c. c \<noteq> newline) (st_rest s),
            istream_of (drop 1 (dropWhile (\<lambda>c. c \<noteq> newline) (st_rest s)))))"

lemma istream_sel [simp]:
  "st_rest (istream_of s) = s" "st_ok (istream_of s)"
  "st_rest (istream_fail s) = s" "\<not> st_ok (istream_fail s)"
  by (simp_all add: istream_of_def istream_fail_def)

text \<open>A word is what \<^verbatim>\<open>>>\<close> reads back: not empty and with no white space in it.\<close>

definition is_word :: "string \<Rightarrow> bool" where
  "is_word w \<longleftrightarrow> w \<noteq> [] \<and> (\<forall>c \<in> set w. \<not> is_space c)"

lemma dropWhile_is_space_word [simp]: "is_word w \<Longrightarrow> dropWhile is_space (w @ t) = w @ t"
  by (cases w) (auto simp: is_word_def)

lemma takeWhile_word: "is_word w \<Longrightarrow> t = [] \<or> is_space (hd t) \<Longrightarrow>
  takeWhile (\<lambda>c. \<not> is_space c) (w @ t) = w \<and> dropWhile (\<lambda>c. \<not> is_space c) (w @ t) = t"
  by (cases t) (auto simp: is_word_def takeWhile_append dropWhile_append)

lemma extract_word_space [text_simps]:
  "is_space c \<Longrightarrow> extract_word old (istream_of (c # s)) = extract_word old (istream_of s)"
  by (simp add: extract_word_def)

lemma extract_word_append [text_simps]:
  "is_word w \<Longrightarrow> t = [] \<or> is_space (hd t) \<Longrightarrow>
   extract_word old (istream_of (w @ t)) = (w, istream_of t)"
  using takeWhile_word [of w t] by (auto simp: extract_word_def Let_def is_word_def)

lemma extract_word_end [text_simps]: "extract_word old (istream_of []) = (old, istream_fail [])"
  by (simp add: extract_word_def)

lemma is_word_show_nat [simp]: "is_word (show_nat n)"
  by (auto simp: is_word_def dest: show_nat_digits digit_not_space)

lemma hd_show_nat: "is_digit (hd (show_nat n))"
  by (auto intro!: show_nat_digits [of _ n])

lemma takeWhile_show_nat:
  "t = [] \<or> \<not> is_digit (hd t) \<Longrightarrow>
   takeWhile is_digit (show_nat n @ t) = show_nat n \<and> dropWhile is_digit (show_nat n @ t) = t"
  by (cases t) (auto simp: takeWhile_append dropWhile_append dest: show_nat_digits)

lemma extract_uint_space [text_simps]:
  "is_space c \<Longrightarrow> extract_uint old (istream_of (c # s)) = extract_uint old (istream_of s)"
  by (simp add: extract_uint_def)

lemma extract_uint_show [text_simps]:
  fixes w :: "'w::len word"
  assumes "t = [] \<or> \<not> is_digit (hd t)"
  shows "extract_uint old (istream_of (show_nat (unat w) @ t)) = (w, istream_of t)"
proof -
  have "hd (show_nat (unat w) @ t) \<noteq> CHR ''-'' \<and> hd (show_nat (unat w) @ t) \<noteq> CHR ''+''"
    using hd_show_nat [of "unat w"] by (auto simp: is_digit_def)
  moreover have "\<not> 2 ^ LENGTH('w) \<le> unat w" by (simp add: not_le)
  ultimately show ?thesis
    using takeWhile_show_nat [OF assms, of "unat w"]
    by (simp add: extract_uint_def Let_def)
qed

lemma stream_get_Cons [text_simps]: "stream_get (istream_of (c # s)) = istream_of s"
  by (simp add: stream_get_def)

lemma stream_getline_line [text_simps]:
  "newline \<notin> set v \<Longrightarrow> stream_getline old (istream_of (v @ newline # s)) = (v, istream_of s)"
  by (auto simp: stream_getline_def takeWhile_append dropWhile_append)

subsection \<open>The words of a text\<close>

text \<open>What a loop of the form \<^verbatim>\<open>while (ist >> word)\<close> reads.\<close>

function words :: "string \<Rightarrow> string list" where
  "words s = (let r = dropWhile is_space s
     in if r = [] then [] else takeWhile (\<lambda>c. \<not> is_space c) r # words (dropWhile (\<lambda>c. \<not> is_space c) r))"
  by pat_completeness auto

termination
proof (relation "measure length")
  fix s r
  assume r: "r = dropWhile is_space s" "r \<noteq> []"
  then have "\<not> is_space (hd r)" by (simp add: hd_dropWhile)
  then have "length (dropWhile (\<lambda>c. \<not> is_space c) r) < length r"
    using r(2) by (cases r) (auto simp: less_Suc_eq_le length_dropWhile_le)
  also have "length r \<le> length s" by (simp add: r(1) length_dropWhile_le)
  finally show "(dropWhile (\<lambda>c. \<not> is_space c) r, s) \<in> measure length" by simp
qed simp

declare words.simps [simp del]

lemma words_Nil [simp, text_simps]: "words [] = []"
  by (simp add: words.simps)

lemma words_space [text_simps]: "is_space c \<Longrightarrow> words (c # s) = words s"
  by (subst (1 2) words.simps) simp

lemma words_word [text_simps]: "is_word w \<Longrightarrow> t = [] \<or> is_space (hd t) \<Longrightarrow> words (w @ t) = w # words t"
  using takeWhile_word [of w t] by (subst words.simps) (simp add: is_word_def)

lemma words_single [text_simps]: "is_word w \<Longrightarrow> words w = [w]"
  using words_word [of w "[]"] by simp

lemma words_append: "is_space c \<Longrightarrow> words (s @ c # t) = words s @ words t"
proof (induction s rule: words.induct)
  case (1 s)
  show ?case
  proof (cases "dropWhile is_space s")
    case Nil
    then have "dropWhile is_space (s @ c # t) = dropWhile is_space (c # t)"
      by (simp add: dropWhile_append)
    then have "words (s @ c # t) = words (c # t)" by (subst (1 2) words.simps) simp
    then show ?thesis using Nil 1(2) by (simp add: words.simps [of s] words_space)
  next
    case (Cons x xs)
    let ?r = "dropWhile is_space s" and ?p = "\<lambda>c. \<not> is_space c"
    obtain y where "y \<in> set s" "\<not> is_space y" using Cons by (metis dropWhile_eq_Nil_conv list.distinct(1))
    then have r: "dropWhile is_space (s @ c # t) = ?r @ c # t" by (rule dropWhile_append1)
    have "takeWhile ?p (?r @ c # t) = takeWhile ?p ?r \<and> dropWhile ?p (?r @ c # t) = dropWhile ?p ?r @ c # t"
      using 1(2) by (auto simp: takeWhile_append dropWhile_append takeWhile_eq_all_conv [THEN iffD2])
    then show ?thesis
      using 1(1) [OF refl] 1(2) Cons r by (subst (1 2) words.simps) (simp add: Let_def)
  qed
qed

text \<open>One round of such a loop\<close>

lemma extract_word_words:
  "words s = [] \<and> extract_word old (istream_of s) = (old, istream_fail []) \<or>
   (\<exists>w t. words s = w # words t \<and> extract_word old (istream_of s) = (w, istream_of t) \<and> is_word w)"
proof (cases "dropWhile is_space s")
  case Nil
  then show ?thesis by (simp add: extract_word_def words.simps [of s])
next
  case (Cons c r)
  have "\<not> is_space c" using Cons hd_dropWhile [of is_space s] by simp
  then have "is_word (takeWhile (\<lambda>c. \<not> is_space c) (c # r))"
    by (auto simp: is_word_def dest: set_takeWhileD)
  then show ?thesis using Cons by (auto simp: extract_word_def words.simps [of s])
qed

lemma extract_word_shrinks:
  "extract_word old s = (w, s') \<Longrightarrow> st_ok s' \<Longrightarrow> length (st_rest s') < length (st_rest s)"
proof -
  assume e: "extract_word old s = (w, s')" "st_ok s'"
  define r where "r = dropWhile is_space (st_rest s)"
  have r: "r \<noteq> []" "st_rest s' = dropWhile (\<lambda>c. \<not> is_space c) r"
    using e by (auto simp: extract_word_def r_def Let_def split: if_splits)
  have "\<not> is_space (hd r)" using r(1) hd_dropWhile unfolding r_def by blast
  then have "length (st_rest s') < length r"
    using r length_dropWhile_le [of "\<lambda>c. \<not> is_space c" "tl r"] by (cases r) auto
  also have "length r \<le> length (st_rest s)" by (simp add: r_def length_dropWhile_le)
  finally show ?thesis .
qed

end
