(* ===== verification/Marshall.thy ===== *)
theory Marshall
  imports Prelude
begin

unbundle bit_operations_syntax

text \<open>
  The wire format of the RPC library: the classes \<^verbatim>\<open>marshall\<close> and
  \<^verbatim>\<open>unmarshall\<close> (\<^verbatim>\<open>rpc/marshall.h\<close>, \<^verbatim>\<open>rpc/rpc.cc\<close>).
  A marshalling buffer is a list of cells; a cell is \<open>None\<close> while nothing has been
  written to it, as memory that \<^verbatim>\<open>malloc\<close> or \<^verbatim>\<open>realloc\<close> returns.
  The locale \<open>codec\<close> is the contract of a pair of operators
  \<^verbatim>\<open><<\<close> and \<^verbatim>\<open>>>\<close>; it is interpreted for every type the program sends.
\<close>

subsection \<open>Buffers\<close>

type_synonym cell = "byte option"

definition DEFAULT_RPC_SZ :: nat where
  "DEFAULT_RPC_SZ = 1024"

text \<open>\<^verbatim>\<open>static_max<sizeof(req_header), sizeof(reply_header)>::value + sizeof(rpc_sz_t)\<close>\<close>

definition RPC_HEADER_SZ :: nat where
  "RPC_HEADER_SZ = max 20 8 + 4"

record marshall =
  m_buf :: "cell list"
  m_capa :: nat
  m_ind :: nat

definition marshall_new :: marshall where
  "marshall_new = \<lparr>m_buf = replicate DEFAULT_RPC_SZ None, m_capa = DEFAULT_RPC_SZ,
     m_ind = RPC_HEADER_SZ\<rparr>"

definition m_realloc :: "nat \<Rightarrow> marshall \<Rightarrow> marshall" where
  "m_realloc n m = m\<lparr>m_capa := n,
     m_buf := take n (m_buf m) @ replicate (n - length (m_buf m)) None\<rparr>"

definition memcpy :: "nat \<Rightarrow> 'a list \<Rightarrow> 'a list \<Rightarrow> 'a list" where
  "memcpy i p buf = take i buf @ p @ drop (i + length p) buf"

definition m_rawbyte :: "byte \<Rightarrow> marshall \<Rightarrow> marshall" where
  "m_rawbyte x m =
     (let m1 = (if m_ind m \<ge> m_capa m then m_realloc (m_capa m * 2) m else m)
      in m1\<lparr>m_buf := memcpy (m_ind m) [Some x] (m_buf m1), m_ind := m_ind m + 1\<rparr>)"

definition m_rawbytes :: "byte list \<Rightarrow> marshall \<Rightarrow> marshall" where
  "m_rawbytes p m =
     (let n = length p;
          m1 = (if m_ind m + n > m_capa m
                then m_realloc (if m_capa m > n then 2 * m_capa m else m_capa m + n) m
                else m)
      in m1\<lparr>m_buf := memcpy (m_ind m) (map Some p) (m_buf m1), m_ind := m_ind m + n\<rparr>)"

text \<open>
  The invariant of a marshalling buffer. A write outside the buffer would change the length
  of the list, so \<open>length (m_buf m) = m_capa m\<close> says that every write stayed inside.
\<close>

definition m_ok :: "marshall \<Rightarrow> bool" where
  "m_ok m \<longleftrightarrow> length (m_buf m) = m_capa m \<and> RPC_HEADER_SZ \<le> m_ind m \<and> m_ind m \<le> m_capa m
     \<and> DEFAULT_RPC_SZ \<le> m_capa m \<and> m_capa m \<le> max DEFAULT_RPC_SZ (2 * m_ind m)
     \<and> (\<forall>c \<in> set (drop RPC_HEADER_SZ (take (m_ind m) (m_buf m))). c \<noteq> None)"

text \<open>The bytes \<^verbatim>\<open>get_content()\<close> returns: those after the header.\<close>

definition m_content :: "marshall \<Rightarrow> byte list" where
  "m_content m = map the (drop RPC_HEADER_SZ (take (m_ind m) (m_buf m)))"

lemma length_memcpy: "i + length p \<le> length buf \<Longrightarrow> length (memcpy i p buf) = length buf"
  by (simp add: memcpy_def)

lemma take_memcpy: "i + length p \<le> length buf \<Longrightarrow>
    take (i + length p) (memcpy i p buf) = take i buf @ p"
  by (simp add: memcpy_def)

lemma m_ok_new [simp, intro]: "m_ok marshall_new"
  by (simp add: m_ok_def marshall_new_def DEFAULT_RPC_SZ_def RPC_HEADER_SZ_def)

lemma m_content_new [simp]: "m_content marshall_new = []"
  by (simp add: m_content_def marshall_new_def DEFAULT_RPC_SZ_def RPC_HEADER_SZ_def)

text \<open>The write both raw operations perform, once the buffer is large enough.\<close>

definition m_append :: "nat \<Rightarrow> byte list \<Rightarrow> marshall \<Rightarrow> marshall" where
  "m_append capa p m =
     (let m1 = (if capa = m_capa m then m else m_realloc capa m)
      in m1\<lparr>m_buf := memcpy (m_ind m) (map Some p) (m_buf m1), m_ind := m_ind m + length p\<rparr>)"

lemma m_append_ok:
  assumes "m_ok m" "m_ind m + length p \<le> capa" "m_capa m \<le> capa"
    "capa \<le> max DEFAULT_RPC_SZ (2 * (m_ind m + length p))"
  shows "m_ok (m_append capa p m)"
    and "m_content (m_append capa p m) = m_content m @ p"
    and "take RPC_HEADER_SZ (m_buf (m_append capa p m)) = take RPC_HEADER_SZ (m_buf m)"
proof -
  define buf where "buf = take capa (m_buf m) @ replicate (capa - length (m_buf m)) None"
  have len: "length (m_buf m) = m_capa m" "m_ind m \<le> m_capa m" "RPC_HEADER_SZ \<le> m_ind m"
    using assms(1) by (auto simp: m_ok_def)
  have buf: "length buf = capa" "take (m_ind m) buf = take (m_ind m) (m_buf m)"
    using assms(3) len by (auto simp: buf_def)
  have bufm: "m_buf (m_append capa p m) = memcpy (m_ind m) (map Some p) buf"
    using len by (auto simp: m_append_def buf_def m_realloc_def)
  have sel: "m_ind (m_append capa p m) = m_ind m + length p" "m_capa (m_append capa p m) = capa"
    by (auto simp: m_append_def m_realloc_def Let_def)
  have tk: "take (m_ind m + length p) (m_buf (m_append capa p m))
      = take (m_ind m) (m_buf m) @ map Some p"
    using assms(2) buf len by (simp add: bufm memcpy_def)
  show "m_content (m_append capa p m) = m_content m @ p"
    using len by (simp add: m_content_def sel tk comp_def)
  have "length (m_buf (m_append capa p m)) = capa"
    using assms(2) buf by (simp add: bufm length_memcpy)
  then show "m_ok (m_append capa p m)"
    using assms len by (auto simp: m_ok_def sel tk)
  show "take RPC_HEADER_SZ (m_buf (m_append capa p m)) = take RPC_HEADER_SZ (m_buf m)"
    using len buf by (simp add: bufm memcpy_def)
qed

lemma m_rawbyte_append:
  assumes "m_ok m"
  shows "m_rawbyte x m = m_append (if m_ind m \<ge> m_capa m then m_capa m * 2 else m_capa m) [x] m"
proof -
  have "m_capa m \<noteq> m_capa m * 2"
    using assms by (auto simp: m_ok_def DEFAULT_RPC_SZ_def)
  then show ?thesis by (simp add: m_rawbyte_def m_append_def Let_def)
qed

lemma m_rawbytes_append:
  assumes "m_ok m"
  shows "m_rawbytes p m = m_append (if m_ind m + length p > m_capa m
           then if m_capa m > length p then 2 * m_capa m else m_capa m + length p
           else m_capa m) p m"
  using assms by (auto simp: m_rawbytes_def m_append_def m_ok_def DEFAULT_RPC_SZ_def Let_def)

lemma m_rawbyte_ok [simp]:
  assumes "m_ok m"
  shows "m_ok (m_rawbyte x m)" "m_content (m_rawbyte x m) = m_content m @ [x]"
    "take RPC_HEADER_SZ (m_buf (m_rawbyte x m)) = take RPC_HEADER_SZ (m_buf m)"
proof -
  let ?c = "if m_ind m \<ge> m_capa m then m_capa m * 2 else m_capa m"
  have "m_ind m + length [x] \<le> ?c" "m_capa m \<le> ?c"
    "?c \<le> max DEFAULT_RPC_SZ (2 * (m_ind m + length [x]))"
    using assms by (auto simp: m_ok_def DEFAULT_RPC_SZ_def RPC_HEADER_SZ_def)
  note * = m_append_ok [OF assms this]
  show "m_ok (m_rawbyte x m)" "m_content (m_rawbyte x m) = m_content m @ [x]"
    "take RPC_HEADER_SZ (m_buf (m_rawbyte x m)) = take RPC_HEADER_SZ (m_buf m)"
    using * by (simp_all only: m_rawbyte_append [OF assms])
qed

lemma m_rawbytes_ok [simp]:
  assumes "m_ok m"
  shows "m_ok (m_rawbytes p m)" "m_content (m_rawbytes p m) = m_content m @ p"
    "take RPC_HEADER_SZ (m_buf (m_rawbytes p m)) = take RPC_HEADER_SZ (m_buf m)"
proof -
  let ?c = "if m_ind m + length p > m_capa m
           then if m_capa m > length p then 2 * m_capa m else m_capa m + length p
           else m_capa m"
  have "m_ind m + length p \<le> ?c" "m_capa m \<le> ?c"
    "?c \<le> max DEFAULT_RPC_SZ (2 * (m_ind m + length p))"
    using assms by (auto simp: m_ok_def DEFAULT_RPC_SZ_def RPC_HEADER_SZ_def)
  note * = m_append_ok [OF assms this]
  show "m_ok (m_rawbytes p m)" "m_content (m_rawbytes p m) = m_content m @ p"
    "take RPC_HEADER_SZ (m_buf (m_rawbytes p m)) = take RPC_HEADER_SZ (m_buf m)"
    using * by (simp_all only: m_rawbytes_append [OF assms])
qed

subsection \<open>Marshalling operators\<close>

definition byte_of_char :: "char \<Rightarrow> byte" where
  "byte_of_char c = of_nat (of_char c)"

definition char_of_byte :: "byte \<Rightarrow> char" where
  "char_of_byte b = char_of (unat b)"

definition m_str :: "marshall \<Rightarrow> string" where
  "m_str m = map char_of_byte (m_content m)"

definition put_bool :: "bool \<Rightarrow> marshall \<Rightarrow> marshall" where
  "put_bool x m = m_rawbyte (if x then 1 else 0) m"

definition put_uchar :: "byte \<Rightarrow> marshall \<Rightarrow> marshall" where
  "put_uchar x m = m_rawbyte x m"

definition put_ushort :: "u16 \<Rightarrow> marshall \<Rightarrow> marshall" where
  "put_ushort x m = m_rawbyte (ucast (x AND 0xff)) (m_rawbyte (ucast (drop_bit 8 x AND 0xff)) m)"

definition put_uint :: "u32 \<Rightarrow> marshall \<Rightarrow> marshall" where
  "put_uint x m =
     (let m1 = m_rawbyte (ucast (drop_bit 24 x AND 0xff)) m;
          m2 = m_rawbyte (ucast (drop_bit 16 x AND 0xff)) m1;
          m3 = m_rawbyte (ucast (drop_bit 8 x AND 0xff)) m2
      in m_rawbyte (ucast (x AND 0xff)) m3)"

text \<open>The signed types are sent as the unsigned types of the same width.\<close>

definition put_char :: "char \<Rightarrow> marshall \<Rightarrow> marshall" where
  "put_char x m = put_uchar (byte_of_char x) m"

definition put_short :: "int \<Rightarrow> marshall \<Rightarrow> marshall" where
  "put_short x m = put_ushort (word_of_int x) m"

definition put_int :: "int \<Rightarrow> marshall \<Rightarrow> marshall" where
  "put_int x m = put_uint (word_of_int x) m"

definition put_ull :: "u64 \<Rightarrow> marshall \<Rightarrow> marshall" where
  "put_ull x m = put_uint (ucast x) (put_uint (ucast (drop_bit 32 x)) m)"

definition put_string :: "string \<Rightarrow> marshall \<Rightarrow> marshall" where
  "put_string s m = m_rawbytes (map byte_of_char s) (put_uint (of_nat (length s)) m)"

definition put_vector :: "('a \<Rightarrow> marshall \<Rightarrow> marshall) \<Rightarrow> 'a list \<Rightarrow> marshall \<Rightarrow> marshall" where
  "put_vector put v m = fold put v (put_uint (of_nat (length v)) m)"

definition put_map :: "('k \<Rightarrow> marshall \<Rightarrow> marshall) \<Rightarrow> ('v \<Rightarrow> marshall \<Rightarrow> marshall)
    \<Rightarrow> ('k, 'v) smap \<Rightarrow> marshall \<Rightarrow> marshall" where
  "put_map putk putv d m =
     fold (\<lambda>(k, v) m. putv v (putk k m)) d (put_uint (of_nat (length d)) m)"

text \<open>\<^verbatim>\<open>marshall::pack\<close> of an \<^verbatim>\<open>int\<close>: the same four bytes.\<close>

definition m_pack :: "u32 \<Rightarrow> marshall \<Rightarrow> marshall" where
  "m_pack x m =
     (let m1 = m_rawbyte (ucast (drop_bit 24 x AND 0xff)) m;
          m2 = m_rawbyte (ucast (drop_bit 16 x AND 0xff)) m1;
          m3 = m_rawbyte (ucast (drop_bit 8 x AND 0xff)) m2
      in m_rawbyte (ucast (x AND 0xff)) m3)"

subsection \<open>Unmarshalling\<close>

text \<open>
  \<open>u_ub\<close> records that memory outside the buffer was read: the bounds check of
  \<^verbatim>\<open>rawbytes\<close> is done in 32-bit unsigned arithmetic and can wrap around.
\<close>

record unmarshall =
  u_buf :: "cell list"
  u_sz :: nat
  u_ind :: nat
  u_ok :: bool
  u_ub :: bool

definition unmarshall_buf :: "cell list \<Rightarrow> unmarshall" where
  "unmarshall_buf b = \<lparr>u_buf = b, u_sz = length b, u_ind = 0, u_ok = True, u_ub = False\<rparr>"

definition take_content :: "string \<Rightarrow> unmarshall" where
  "take_content s = \<lparr>u_buf = replicate RPC_HEADER_SZ None @ map (Some \<circ> byte_of_char) s,
     u_sz = length s + RPC_HEADER_SZ, u_ind = RPC_HEADER_SZ, u_ok = True, u_ub = False\<rparr>"

definition okdone :: "unmarshall \<Rightarrow> bool" where
  "okdone u \<longleftrightarrow> u_ok u \<and> u_ind u = u_sz u"

text \<open>\<^verbatim>\<open>char c = 0; ... return c;\<close> sign-extends the byte to an \<^verbatim>\<open>unsigned int\<close>.\<close>

definition u_rawbyte :: "unmarshall \<Rightarrow> u32 \<times> unmarshall" where
  "u_rawbyte u =
     (if u_ind u \<ge> u_sz u then (0, u\<lparr>u_ok := False\<rparr>)
      else (scast (the (u_buf u ! u_ind u)), u\<lparr>u_ind := u_ind u + 1\<rparr>))"

definition u_rawbytes :: "string \<Rightarrow> u32 \<Rightarrow> unmarshall \<Rightarrow> string \<times> unmarshall" where
  "u_rawbytes ss n u =
     (if of_nat (u_ind u) + n > of_nat (u_sz u) then (ss, u\<lparr>u_ok := False\<rparr>)
      else if u_ind u + unat n > u_sz u then (ss, u\<lparr>u_ub := True\<rparr>)
      else (map (char_of_byte \<circ> the) (take (unat n) (drop (u_ind u) (u_buf u))),
            u\<lparr>u_ind := u_ind u + unat n\<rparr>))"

definition get_bool :: "unmarshall \<Rightarrow> bool \<times> unmarshall" where
  "get_bool u = (let (b, u) = u_rawbyte u in (b \<noteq> 0, u))"

definition get_uchar :: "unmarshall \<Rightarrow> byte \<times> unmarshall" where
  "get_uchar u = (let (b, u) = u_rawbyte u in (ucast b, u))"

definition get_ushort :: "unmarshall \<Rightarrow> u16 \<times> unmarshall" where
  "get_ushort u =
     (let (b1, u) = u_rawbyte u; (b0, u) = u_rawbyte u
      in (ucast (push_bit 8 (b1 AND 0xff)) OR ucast (b0 AND 0xff), u))"

definition get_uint :: "unmarshall \<Rightarrow> u32 \<times> unmarshall" where
  "get_uint u =
     (let (b3, u) = u_rawbyte u; (b2, u) = u_rawbyte u;
          (b1, u) = u_rawbyte u; (b0, u) = u_rawbyte u
      in (((push_bit 24 (b3 AND 0xff) OR push_bit 16 (b2 AND 0xff))
            OR push_bit 8 (b1 AND 0xff)) OR (b0 AND 0xff), u))"

definition get_char :: "unmarshall \<Rightarrow> char \<times> unmarshall" where
  "get_char u = (let (b, u) = u_rawbyte u in (char_of_byte (ucast b), u))"

definition get_short :: "unmarshall \<Rightarrow> int \<times> unmarshall" where
  "get_short u =
     (let (b1, u) = u_rawbyte u; (b0, u) = u_rawbyte u
      in (sint (ucast (push_bit 8 (b1 AND 0xff)) OR ucast (b0 AND 0xff) :: u16), u))"

definition get_int :: "unmarshall \<Rightarrow> int \<times> unmarshall" where
  "get_int u =
     (let (b3, u) = u_rawbyte u; (b2, u) = u_rawbyte u;
          (b1, u) = u_rawbyte u; (b0, u) = u_rawbyte u
      in (sint (((push_bit 24 (b3 AND 0xff) OR push_bit 16 (b2 AND 0xff))
            OR push_bit 8 (b1 AND 0xff)) OR (b0 AND 0xff)), u))"

definition get_ull :: "unmarshall \<Rightarrow> u64 \<times> unmarshall" where
  "get_ull u = (let (h, u) = get_uint u; (l, u) = get_uint u
      in (ucast l OR push_bit 32 (ucast h), u))"

definition get_string :: "unmarshall \<Rightarrow> string \<times> unmarshall" where
  "get_string u = (let (sz, u) = get_uint u in if u_ok u then u_rawbytes [] sz u else ([], u))"

fun get_elems :: "nat \<Rightarrow> (unmarshall \<Rightarrow> 'a \<times> unmarshall) \<Rightarrow> unmarshall \<Rightarrow> 'a list \<times> unmarshall" where
  "get_elems 0 get u = ([], u)"
| "get_elems (Suc n) get u =
     (let (z, u) = get u; (zs, u) = get_elems n get u in (z # zs, u))"

definition get_vector :: "(unmarshall \<Rightarrow> 'a \<times> unmarshall) \<Rightarrow> unmarshall \<Rightarrow> 'a list \<times> unmarshall" where
  "get_vector get u = (let (n, u) = get_uint u in get_elems (unat n) get u)"

fun get_entries :: "nat \<Rightarrow> (unmarshall \<Rightarrow> 'k::linorder \<times> unmarshall) \<Rightarrow>
    (unmarshall \<Rightarrow> 'v \<times> unmarshall) \<Rightarrow> ('k, 'v) smap \<Rightarrow> unmarshall \<Rightarrow> ('k, 'v) smap \<times> unmarshall" where
  "get_entries 0 getk getv d u = (d, u)"
| "get_entries (Suc n) getk getv d u =
     (let (a, u) = getk u; (b, u) = getv u in get_entries n getk getv (smap_set a b d) u)"

definition get_map :: "(unmarshall \<Rightarrow> 'k::linorder \<times> unmarshall) \<Rightarrow>
    (unmarshall \<Rightarrow> 'v \<times> unmarshall) \<Rightarrow> unmarshall \<Rightarrow> ('k, 'v) smap \<times> unmarshall" where
  "get_map getk getv u = (let (n, u) = get_uint u in get_entries (unat n) getk getv [] u)"

definition u_unpack :: "unmarshall \<Rightarrow> u32 \<times> unmarshall" where
  "u_unpack u =
     (let (b3, u) = u_rawbyte u; (b2, u) = u_rawbyte u;
          (b1, u) = u_rawbyte u; (b0, u) = u_rawbyte u
      in (((push_bit 24 (b3 AND 0xff) OR push_bit 16 (b2 AND 0xff))
            OR push_bit 8 (b1 AND 0xff)) OR (b0 AND 0xff), u))"

end
