(* ===== verification/Codec.thy ===== *)
theory Codec
  imports Marshall
begin

unbundle bit_operations_syntax

text \<open>
  The contract of a marshalled type. \<open>enc x\<close> is the byte string the operator
  \<^verbatim>\<open><<\<close> appends; \<open>fits x\<close> bounds the sizes that are sent as 32-bit counts.
  The lemmas of the locale lift the contract to \<^verbatim>\<open>std::vector\<close> and
  \<^verbatim>\<open>std::map\<close> once and for all; the interpretations at the end are the
  operators of \<^verbatim>\<open>rpc/rpc.cc\<close>.
\<close>

named_theorems codec_simps \<open>what the marshalling operators write and read\<close>

subsection \<open>Bytes of words\<close>

lemma and_ff: "x AND 0xff = take_bit 8 (x :: 'a::len word)"
  by (simp add: take_bit_eq_mask mask_eq_exp_minus_1)

lemma take_bit_scast_byte: "take_bit 8 (scast (b :: byte) :: u32) = ucast b"
proof (rule bit_word_eqI, goal_cases)
  case (1 n)
  consider "n < 7" | "n = 7" | "8 \<le> n" by fastforce
  then show ?case by cases (auto simp: bit_simps dest: bit_imp_le_length)
qed

lemma uint_of_bytes:
  fixes x :: u32
  shows "((push_bit 24 (ucast (ucast (take_bit 8 (drop_bit 24 x)) :: byte))
     OR push_bit 16 (ucast (ucast (take_bit 8 (drop_bit 16 x)) :: byte)))
     OR push_bit 8 (ucast (ucast (take_bit 8 (drop_bit 8 x)) :: byte)))
     OR ucast (ucast (take_bit 8 x) :: byte) = x"
proof (rule bit_word_eqI, goal_cases)
  case (1 n)
  then consider "n < 8" | "8 \<le> n" "n < 16" | "16 \<le> n" "n < 24" | "24 \<le> n" "n < 32"
    by fastforce
  then show ?case by cases (auto simp: bit_simps)
qed

lemma ushort_of_bytes:
  fixes x :: u16
  shows "ucast (push_bit 8 (ucast (ucast (take_bit 8 (drop_bit 8 x)) :: byte) :: u32))
     OR ucast (ucast (ucast (take_bit 8 x) :: byte) :: u32) = x"
  by (rule bit_word_eqI) (auto simp: bit_simps)

lemma ull_of_words:
  fixes x :: u64
  shows "ucast (ucast x :: u32) OR push_bit 32 (ucast (ucast (drop_bit 32 x) :: u32)) = x"
  by (rule bit_word_eqI) (auto simp: bit_simps)

lemma ucast_scast_byte: "ucast (scast (b :: byte) :: u32) = b"
proof (rule bit_word_eqI, goal_cases)
  case (1 n)
  then consider "n < 7" | "n = 7" by fastforce
  then show ?case by cases (auto simp: bit_simps)
qed

lemma unat_of_nat_u32: "n < 2 ^ 32 \<Longrightarrow> unat (of_nat n :: u32) = n"
  by (simp add: unat_of_nat take_bit_nat_eq_self)

lemma char_of_byte_of_char [simp]: "char_of_byte (byte_of_char c) = c"
  by (simp add: char_of_byte_def byte_of_char_def unat_of_nat)

lemma byte_of_char_of_byte [simp]: "byte_of_char (char_of_byte b) = b"
proof -
  have "unat b < 2 ^ LENGTH(8)" by (rule unsigned_less)
  then show ?thesis by (simp add: char_of_byte_def byte_of_char_def)
qed

subsection \<open>A reader in the middle of its buffer\<close>

text \<open>\<open>ustate pre bs\<close>: the cells \<open>pre\<close> have been read, the bytes \<open>bs\<close> are still to be read.\<close>

definition ustate :: "cell list \<Rightarrow> byte list \<Rightarrow> unmarshall" where
  "ustate pre bs = \<lparr>u_buf = pre @ map Some bs, u_sz = length pre + length bs,
     u_ind = length pre, u_ok = True, u_ub = False\<rparr>"

lemma u_ok_ustate [simp]: "u_ok (ustate pre bs)" "\<not> u_ub (ustate pre bs)"
  by (simp_all add: ustate_def)

lemma okdone_ustate [simp]: "okdone (ustate pre bs) \<longleftrightarrow> bs = []"
  by (simp add: okdone_def ustate_def)

lemma take_content_ustate:
  "take_content s = ustate (replicate RPC_HEADER_SZ None) (map byte_of_char s)"
  by (simp add: take_content_def ustate_def)

lemma take_content_m_str:
  "take_content (m_str m) = ustate (replicate RPC_HEADER_SZ None) (m_content m)"
  by (simp add: take_content_ustate m_str_def comp_def)

lemma u_rawbyte_ustate [simp]:
  "u_rawbyte (ustate pre (b # bs)) = (scast b, ustate (pre @ [Some b]) bs)"
  by (simp add: u_rawbyte_def ustate_def nth_append)

lemma u_rawbytes_ustate:
  assumes "length pre + length p + length bs < 2 ^ 32"
  shows "u_rawbytes ss (of_nat (length p)) (ustate pre (p @ bs))
     = (map char_of_byte p, ustate (pre @ map Some p) bs)"
proof -
  have n: "unat (of_nat (length p) :: u32) = length p"
    using assms by (intro unat_of_nat_u32) simp
  have "unat (of_nat (length pre + length p) :: u32) = length pre + length p"
    using assms by (intro unat_of_nat_u32) simp
  moreover have "unat (of_nat (length pre + (length p + length bs)) :: u32)
      = length pre + (length p + length bs)"
    using assms by (intro unat_of_nat_u32) simp
  ultimately have "\<not> (of_nat (length pre + (length p + length bs)) :: u32)
      < of_nat (length pre + length p)"
    unfolding word_less_nat_alt by linarith
  then show ?thesis by (simp add: u_rawbytes_def ustate_def n comp_def)
qed

subsection \<open>The contract\<close>

locale codec =
  fixes put :: "'a \<Rightarrow> marshall \<Rightarrow> marshall"
    and get :: "unmarshall \<Rightarrow> 'a \<times> unmarshall"
    and enc :: "'a \<Rightarrow> byte list"
    and fits :: "'a \<Rightarrow> bool"
  assumes put_ok: "m_ok m \<Longrightarrow> m_ok (put x m)"
    and put_content: "m_ok m \<Longrightarrow> m_content (put x m) = m_content m @ enc x"
    and put_header: "m_ok m \<Longrightarrow>
      take RPC_HEADER_SZ (m_buf (put x m)) = take RPC_HEADER_SZ (m_buf m)"
    and get_enc: "fits x \<Longrightarrow> length pre + length (enc x) + length bs < 2 ^ 32 \<Longrightarrow>
      get (ustate pre (enc x @ bs)) = (x, ustate (pre @ map Some (enc x)) bs)"
begin

lemma get_enc_last:
  "fits x \<Longrightarrow> length pre + length (enc x) < 2 ^ 32 \<Longrightarrow>
   get (ustate pre (enc x)) = (x, ustate (pre @ map Some (enc x)) [])"
  using get_enc [of x pre "[]"] by simp

text \<open>Reading back the content of a buffer that holds just one value\<close>

lemma roundtrip:
  assumes "m_ok m" "m_content m = []" "fits x" "length (enc x) < 2 ^ 32 - RPC_HEADER_SZ"
  shows "fst (get (take_content (m_str (put x m)))) = x"
    and "okdone (snd (get (take_content (m_str (put x m)))))"
  using assms get_enc_last [of x "replicate RPC_HEADER_SZ None"]
  by (simp_all add: take_content_m_str put_content)

lemma fold_put:
  assumes "m_ok m"
  shows "m_ok (fold put xs m)" "m_content (fold put xs m) = m_content m @ concat (map enc xs)"
    "take RPC_HEADER_SZ (m_buf (fold put xs m)) = take RPC_HEADER_SZ (m_buf m)"
  using assms by (induction xs arbitrary: m) (simp_all add: put_ok put_content put_header)

lemma get_elems_enc:
  assumes "list_all fits xs" "length pre + length (concat (map enc xs)) + length bs < 2 ^ 32"
  shows "get_elems (length xs) get (ustate pre (concat (map enc xs) @ bs))
     = (xs, ustate (pre @ map Some (concat (map enc xs))) bs)"
  using assms
proof (induction xs arbitrary: pre)
  case (Cons x xs)
  have "get (ustate pre (enc x @ concat (map enc xs) @ bs))
      = (x, ustate (pre @ map Some (enc x)) (concat (map enc xs) @ bs))"
    using Cons.prems by (intro get_enc) auto
  moreover have "get_elems (length xs) get
      (ustate (pre @ map Some (enc x)) (concat (map enc xs) @ bs))
      = (xs, ustate ((pre @ map Some (enc x)) @ map Some (concat (map enc xs))) bs)"
    using Cons.prems by (intro Cons.IH) auto
  ultimately show ?case by simp
qed simp

end

subsection \<open>Integers, booleans and strings\<close>

definition enc_uint :: "u32 \<Rightarrow> byte list" where
  "enc_uint x = [ucast (take_bit 8 (drop_bit 24 x)), ucast (take_bit 8 (drop_bit 16 x)),
     ucast (take_bit 8 (drop_bit 8 x)), ucast (take_bit 8 x)]"

definition enc_bool :: "bool \<Rightarrow> byte list" where
  "enc_bool b = [if b then 1 else 0]"

definition enc_ushort :: "u16 \<Rightarrow> byte list" where
  "enc_ushort x = [ucast (take_bit 8 (drop_bit 8 x)), ucast (take_bit 8 x)]"

definition enc_ull :: "u64 \<Rightarrow> byte list" where
  "enc_ull x = enc_uint (ucast (drop_bit 32 x)) @ enc_uint (ucast x)"

definition enc_string :: "string \<Rightarrow> byte list" where
  "enc_string s = enc_uint (of_nat (length s)) @ map byte_of_char s"

lemma length_enc_uint [simp]: "length (enc_uint x) = 4"
  by (simp add: enc_uint_def)

interpretation c_bool: codec put_bool get_bool enc_bool "\<lambda>_. True"
  by unfold_locales
    (auto simp: put_bool_def get_bool_def enc_bool_def)

interpretation c_uchar: codec put_uchar get_uchar "\<lambda>b. [b]" "\<lambda>_. True"
  by unfold_locales
    (auto simp: put_uchar_def get_uchar_def ucast_scast_byte)

interpretation c_ushort: codec put_ushort get_ushort enc_ushort "\<lambda>_. True"
  by unfold_locales
    (simp_all add: put_ushort_def get_ushort_def enc_ushort_def and_ff take_bit_scast_byte
      ushort_of_bytes)

interpretation c_uint: codec put_uint get_uint enc_uint "\<lambda>_. True"
  by unfold_locales
    (simp_all add: put_uint_def get_uint_def enc_uint_def and_ff take_bit_scast_byte
      uint_of_bytes Let_def)

text \<open>The signed types\<close>

definition fits_short :: "int \<Rightarrow> bool" where
  "fits_short x \<longleftrightarrow> - (2 ^ 15) \<le> x \<and> x < 2 ^ 15"

definition fits_int :: "int \<Rightarrow> bool" where
  "fits_int x \<longleftrightarrow> - (2 ^ 31) \<le> x \<and> x < 2 ^ 31"

lemma get_short_ushort: "get_short u = (let (x, u) = get_ushort u in (sint x, u))"
  by (simp add: get_short_def get_ushort_def Let_def split: prod.splits)

lemma get_int_uint: "get_int u = (let (x, u) = get_uint u in (sint x, u))"
  by (simp add: get_int_def get_uint_def Let_def split: prod.splits)

lemma sint_of_short: "fits_short x \<Longrightarrow> sint (word_of_int x :: u16) = x"
  by (simp add: fits_short_def sint_sbintrunc' signed_take_bit_int_eq_self)

lemma sint_of_int: "fits_int x \<Longrightarrow> sint (word_of_int x :: u32) = x"
  by (simp add: fits_int_def sint_sbintrunc' signed_take_bit_int_eq_self)

interpretation c_char: codec put_char get_char "\<lambda>c. [byte_of_char c]" "\<lambda>_. True"
  by unfold_locales
    (simp_all add: put_char_def get_char_def put_uchar_def ucast_scast_byte)

interpretation c_short: codec put_short get_short "\<lambda>x. enc_ushort (word_of_int x)" fits_short
  by unfold_locales
    (simp_all add: put_short_def get_short_ushort c_ushort.put_ok c_ushort.put_content
      c_ushort.put_header c_ushort.get_enc sint_of_short)

interpretation c_int: codec put_int get_int "\<lambda>x. enc_uint (word_of_int x)" fits_int
  by unfold_locales
    (simp_all add: put_int_def get_int_uint c_uint.put_ok c_uint.put_content
      c_uint.put_header c_uint.get_enc sint_of_int)

lemma length_enc_ull [simp]: "length (enc_ull x) = 8"
  by (simp add: enc_ull_def)

interpretation c_ull: codec put_ull get_ull enc_ull "\<lambda>_. True"
  by unfold_locales
    (simp_all add: put_ull_def get_ull_def enc_ull_def c_uint.put_ok c_uint.put_content
      c_uint.put_header c_uint.get_enc ull_of_words)

interpretation c_string: codec put_string get_string enc_string "\<lambda>_. True"
proof unfold_locales
  fix x :: string and pre :: "cell list" and bs :: "byte list"
  assume "length pre + length (enc_string x) + length bs < 2 ^ 32"
  then show "get_string (ustate pre (enc_string x @ bs))
      = (x, ustate (pre @ map Some (enc_string x)) bs)"
    using u_rawbytes_ustate [of "pre @ map Some (enc_uint (of_nat (length x)))"
        "map byte_of_char x" bs "[]"]
    by (simp add: get_string_def enc_string_def c_uint.get_enc comp_def)
qed (simp_all add: put_string_def enc_string_def c_uint.put_ok c_uint.put_content
      c_uint.put_header)

lemmas codec_base [codec_simps] =
  c_bool.put_ok c_bool.put_content c_bool.put_header
  c_uint.put_ok c_uint.put_content c_uint.put_header
  c_ull.put_ok c_ull.put_content c_ull.put_header
  c_string.put_ok c_string.put_content c_string.put_header
  c_int.put_ok c_int.put_content c_int.put_header
  c_bool.get_enc c_uint.get_enc c_int.get_enc c_ull.get_enc c_string.get_enc

subsection \<open>Vectors and maps\<close>

definition enc_vector :: "('a \<Rightarrow> byte list) \<Rightarrow> 'a list \<Rightarrow> byte list" where
  "enc_vector enc v = enc_uint (of_nat (length v)) @ concat (map enc v)"

definition enc_map :: "('k \<Rightarrow> byte list) \<Rightarrow> ('v \<Rightarrow> byte list) \<Rightarrow> ('k, 'v) smap \<Rightarrow> byte list" where
  "enc_map enck encv d = enc_uint (of_nat (length d)) @ concat (map (\<lambda>(k, v). enck k @ encv v) d)"

context codec
begin

lemma codec_vector:
  "codec (put_vector put) (get_vector get) (enc_vector enc)
     (\<lambda>v. length v < 2 ^ 32 \<and> list_all fits v)"
proof unfold_locales
  fix v and pre :: "cell list" and bs :: "byte list"
  assume v: "length v < 2 ^ 32 \<and> list_all fits v"
    and sz: "length pre + length (enc_vector enc v) + length bs < 2 ^ 32"
  have "get_elems (length v) get
      (ustate (pre @ map Some (enc_uint (of_nat (length v)))) (concat (map enc v) @ bs))
      = (v, ustate ((pre @ map Some (enc_uint (of_nat (length v)))) @
          map Some (concat (map enc v))) bs)"
    using v sz by (intro get_elems_enc) (auto simp: enc_vector_def)
  then show "get_vector get (ustate pre (enc_vector enc v @ bs))
      = (v, ustate (pre @ map Some (enc_vector enc v)) bs)"
    using v sz by (simp add: get_vector_def enc_vector_def c_uint.get_enc unat_of_nat_u32)
qed (simp_all add: put_vector_def enc_vector_def fold_put codec_simps)

end

locale map_codec = key: codec putk getk enck fitsk + val: codec putv getv encv fitsv
  for putk :: "'k::linorder \<Rightarrow> marshall \<Rightarrow> marshall"
    and getk :: "unmarshall \<Rightarrow> 'k \<times> unmarshall"
    and enck :: "'k \<Rightarrow> byte list"
    and fitsk :: "'k \<Rightarrow> bool"
    and putv :: "'v \<Rightarrow> marshall \<Rightarrow> marshall"
    and getv :: "unmarshall \<Rightarrow> 'v \<times> unmarshall"
    and encv :: "'v \<Rightarrow> byte list"
    and fitsv :: "'v \<Rightarrow> bool"
begin

lemma fold_put_entries:
  assumes "m_ok m"
  shows "m_ok (fold (\<lambda>(k, v) m. putv v (putk k m)) d m)"
    "m_content (fold (\<lambda>(k, v) m. putv v (putk k m)) d m)
       = m_content m @ concat (map (\<lambda>(k, v). enck k @ encv v) d)"
    "take RPC_HEADER_SZ (m_buf (fold (\<lambda>(k, v) m. putv v (putk k m)) d m))
       = take RPC_HEADER_SZ (m_buf m)"
  using assms
  by (induction d arbitrary: m)
    (auto simp: key.put_ok val.put_ok key.put_content val.put_content key.put_header
      val.put_header)

text \<open>Unmarshalling into a map that already has entries overwrites those that are sent.\<close>

lemma get_entries_enc:
  assumes "\<forall>(k, v) \<in> set d. fitsk k \<and> fitsv v"
    "length pre + length (concat (map (\<lambda>(k, v). enck k @ encv v) d)) + length bs < 2 ^ 32"
  shows "get_entries (length d) getk getv d0
      (ustate pre (concat (map (\<lambda>(k, v). enck k @ encv v) d) @ bs))
     = (fold (\<lambda>(k, v). smap_set k v) d d0,
        ustate (pre @ map Some (concat (map (\<lambda>(k, v). enck k @ encv v) d))) bs)"
  using assms
proof (induction d arbitrary: pre d0)
  case (Cons e d)
  obtain k v where e: "e = (k, v)" by (cases e)
  let ?rest = "concat (map (\<lambda>(k, v). enck k @ encv v) d)"
  have k: "getk (ustate pre (enck k @ encv v @ ?rest @ bs))
      = (k, ustate (pre @ map Some (enck k)) (encv v @ ?rest @ bs))"
    using Cons.prems e by (intro key.get_enc) auto
  have v: "getv (ustate (pre @ map Some (enck k)) (encv v @ ?rest @ bs))
      = (v, ustate ((pre @ map Some (enck k)) @ map Some (encv v)) (?rest @ bs))"
    using Cons.prems e by (intro val.get_enc) auto
  have "get_entries (length d) getk getv (smap_set k v d0)
      (ustate ((pre @ map Some (enck k)) @ map Some (encv v)) (?rest @ bs))
      = (fold (\<lambda>(k, v). smap_set k v) d (smap_set k v d0),
         ustate (((pre @ map Some (enck k)) @ map Some (encv v)) @ map Some ?rest) bs)"
    using Cons.prems e by (intro Cons.IH) auto
  with k v e show ?case by simp
qed simp

lemma codec_map:
  "codec (put_map putk putv) (get_map getk getv) (enc_map enck encv)
     (\<lambda>d. length d < 2 ^ 32 \<and> smap_ok d \<and> (\<forall>(k, v) \<in> set d. fitsk k \<and> fitsv v))"
proof unfold_locales
  fix d :: "('k, 'v) smap" and pre :: "cell list" and bs :: "byte list"
  assume d: "length d < 2 ^ 32 \<and> smap_ok d \<and> (\<forall>(k, v) \<in> set d. fitsk k \<and> fitsv v)"
    and sz: "length pre + length (enc_map enck encv d) + length bs < 2 ^ 32"
  let ?n = "enc_uint (of_nat (length d))" and ?es = "concat (map (\<lambda>(k, v). enck k @ encv v) d)"
  have "get_entries (length d) getk getv [] (ustate (pre @ map Some ?n) (?es @ bs))
      = (fold (\<lambda>(k, v). smap_set k v) d [], ustate ((pre @ map Some ?n) @ map Some ?es) bs)"
    using d sz by (intro get_entries_enc) (auto simp: enc_map_def)
  moreover have "fold (\<lambda>(k, v). smap_set k v) d [] = d"
    using d smap_rebuild [of "[]" d] by simp
  ultimately show "get_map getk getv (ustate pre (enc_map enck encv d @ bs))
      = (d, ustate (pre @ map Some (enc_map enck encv d)) bs)"
    using d sz by (simp add: get_map_def enc_map_def c_uint.get_enc unat_of_nat_u32)
qed (simp_all add: put_map_def enc_map_def fold_put_entries codec_simps)

end

end
