(* ===== verification/Protocols.thy ===== *)
theory Protocols
  imports Codec
begin

text \<open>
  The messages of the program: the request and reply headers of the RPC library
  (\<^verbatim>\<open>rpc/marshall.h\<close>), and the argument and result structures of the Paxos,
  RSM and extent protocols with their marshalling operators
  (\<^verbatim>\<open>paxos_protocol.h\<close>, \<^verbatim>\<open>rsm_protocol.h\<close>, \<^verbatim>\<open>extent_protocol.h\<close>).
  Each structure satisfies the contract \<open>codec\<close>.
\<close>

subsection \<open>RPC headers\<close>

text \<open>All the fields are sent as four bytes, so the \<^verbatim>\<open>int\<close> fields are kept as words.\<close>

record req_header =
  rq_xid :: u32
  rq_proc :: u32
  rq_clt_nonce :: u32
  rq_srv_nonce :: u32
  rq_xid_rep :: u32

record reply_header =
  rp_xid :: u32
  rp_ret :: u32

definition pack_req_header :: "req_header \<Rightarrow> marshall \<Rightarrow> marshall" where
  "pack_req_header h m =
     (let saved_sz = m_ind m;
          m = m\<lparr>m_ind := 4\<rparr>;
          m = m_pack (rq_xid h) m;
          m = m_pack (rq_proc h) m;
          m = m_pack (rq_clt_nonce h) m;
          m = m_pack (rq_srv_nonce h) m;
          m = m_pack (rq_xid_rep h) m
      in m\<lparr>m_ind := saved_sz\<rparr>)"

definition pack_reply_header :: "reply_header \<Rightarrow> marshall \<Rightarrow> marshall" where
  "pack_reply_header h m =
     (let saved_sz = m_ind m;
          m = m\<lparr>m_ind := 4\<rparr>;
          m = m_pack (rp_xid h) m;
          m = m_pack (rp_ret h) m
      in m\<lparr>m_ind := saved_sz\<rparr>)"

definition unpack_req_header :: "unmarshall \<Rightarrow> req_header \<times> unmarshall" where
  "unpack_req_header u =
     (let u = u\<lparr>u_ind := 4\<rparr>;
          (xid, u) = u_unpack u; (proc, u) = u_unpack u; (clt, u) = u_unpack u;
          (srv, u) = u_unpack u; (rep, u) = u_unpack u
      in (\<lparr>rq_xid = xid, rq_proc = proc, rq_clt_nonce = clt, rq_srv_nonce = srv,
            rq_xid_rep = rep\<rparr>, u\<lparr>u_ind := RPC_HEADER_SZ\<rparr>))"

definition unpack_reply_header :: "unmarshall \<Rightarrow> reply_header \<times> unmarshall" where
  "unpack_reply_header u =
     (let u = u\<lparr>u_ind := 4\<rparr>;
          (xid, u) = u_unpack u; (ret, u) = u_unpack u
      in (\<lparr>rp_xid = xid, rp_ret = ret\<rparr>, u\<lparr>u_ind := RPC_HEADER_SZ\<rparr>))"

text \<open>Packing an integer inside the buffer overwrites four cells and nothing else.\<close>

lemma m_rawbyte_inside:
  "m_ind m < m_capa m \<Longrightarrow> m_rawbyte x m
     = m\<lparr>m_buf := memcpy (m_ind m) [Some x] (m_buf m), m_ind := m_ind m + 1\<rparr>"
  by (simp add: m_rawbyte_def)

lemma memcpy_Nil [simp]: "memcpy i [] buf = buf"
  by (simp add: memcpy_def)

lemma memcpy_Suc:
  "Suc i + length q \<le> length buf \<Longrightarrow> memcpy (Suc i) q (memcpy i [x] buf) = memcpy i (x # q) buf"
  by (simp add: memcpy_def min_absorb2 add.commute)

lemma fold_rawbyte_inside:
  assumes "m_ind m + length xs \<le> m_capa m" "length (m_buf m) = m_capa m"
  shows "fold m_rawbyte xs m
     = m\<lparr>m_buf := memcpy (m_ind m) (map Some xs) (m_buf m), m_ind := m_ind m + length xs\<rparr>"
  using assms
proof (induction xs arbitrary: m)
  case (Cons x xs)
  then have "m_rawbyte x m = m\<lparr>m_buf := memcpy (m_ind m) [Some x] (m_buf m), m_ind := m_ind m + 1\<rparr>"
    by (intro m_rawbyte_inside) simp
  with Cons show ?case by (simp add: length_memcpy memcpy_Suc)
qed simp

lemma m_pack_fold: "m_pack x m = fold m_rawbyte (enc_uint x) m"
  by (simp add: m_pack_def enc_uint_def and_ff Let_def)

lemma u_unpack_get: "u_unpack u = get_uint u"
  by (simp add: u_unpack_def get_uint_def)

definition enc_req_header :: "req_header \<Rightarrow> byte list" where
  "enc_req_header h = enc_uint (rq_xid h) @ enc_uint (rq_proc h) @ enc_uint (rq_clt_nonce h)
     @ enc_uint (rq_srv_nonce h) @ enc_uint (rq_xid_rep h)"

definition enc_reply_header :: "reply_header \<Rightarrow> byte list" where
  "enc_reply_header h = enc_uint (rp_xid h) @ enc_uint (rp_ret h)"

lemma length_enc_headers [simp]:
  "length (enc_req_header h) = 20" "length (enc_reply_header h') = 8"
  by (simp_all add: enc_req_header_def enc_reply_header_def)

lemma pack_req_header_eq:
  assumes "length (m_buf m) = m_capa m" "24 \<le> m_capa m"
  shows "pack_req_header h m = m\<lparr>m_buf := memcpy 4 (map Some (enc_req_header h)) (m_buf m)\<rparr>"
proof -
  have "pack_req_header h m
      = (fold m_rawbyte (enc_req_header h) (m\<lparr>m_ind := 4\<rparr>))\<lparr>m_ind := m_ind m\<rparr>"
    by (simp add: pack_req_header_def enc_req_header_def m_pack_fold Let_def)
  with assms show ?thesis by (simp add: fold_rawbyte_inside)
qed

lemma pack_reply_header_eq:
  assumes "length (m_buf m) = m_capa m" "24 \<le> m_capa m"
  shows "pack_reply_header h m = m\<lparr>m_buf := memcpy 4 (map Some (enc_reply_header h)) (m_buf m)\<rparr>"
proof -
  have "pack_reply_header h m
      = (fold m_rawbyte (enc_reply_header h) (m\<lparr>m_ind := 4\<rparr>))\<lparr>m_ind := m_ind m\<rparr>"
    by (simp add: pack_reply_header_def enc_reply_header_def m_pack_fold Let_def)
  with assms show ?thesis by (simp add: fold_rawbyte_inside)
qed

text \<open>
  What the connection puts on the wire: the first four cells are overwritten with the size of
  the message in network order, as \<^verbatim>\<open>connection::writepdu\<close> does before the first write.
\<close>

definition wire :: "marshall \<Rightarrow> cell list" where
  "wire m = memcpy 0 (map Some (enc_uint (of_nat (m_ind m)))) (take (m_ind m) (m_buf m))"

lemma m_ok_cells:
  assumes "m_ok m"
  shows "drop 24 (take (m_ind m) (m_buf m)) = map Some (m_content m)"
proof -
  have "map (Some \<circ> the) (drop 24 (take (m_ind m) (m_buf m))) = drop 24 (take (m_ind m) (m_buf m))"
    using assms by (intro map_idI) (auto simp: m_ok_def RPC_HEADER_SZ_def)
  then show ?thesis by (simp add: m_content_def RPC_HEADER_SZ_def comp_def)
qed

lemma m_ok_pack_req_header [simp]:
  assumes "m_ok m"
  shows "m_ok (pack_req_header h m)" "m_content (pack_req_header h m) = m_content m"
  using assms
  by (auto simp: pack_req_header_eq m_ok_def m_content_def memcpy_def RPC_HEADER_SZ_def
      DEFAULT_RPC_SZ_def drop_take)

lemma m_ok_pack_reply_header [simp]:
  assumes "m_ok m"
  shows "m_ok (pack_reply_header h m)" "m_content (pack_reply_header h m) = m_content m"
  using assms
  by (auto simp: pack_reply_header_eq m_ok_def m_content_def memcpy_def RPC_HEADER_SZ_def
      DEFAULT_RPC_SZ_def drop_take)

lemma wire_split:
  assumes "m_ok m"
  shows "wire m = map Some (enc_uint (of_nat (m_ind m))) @ take 20 (drop 4 (m_buf m))
     @ map Some (m_content m)"
proof -
  have *: "24 \<le> m_ind m" "m_ind m \<le> length (m_buf m)"
    using assms by (auto simp: m_ok_def RPC_HEADER_SZ_def)
  have "drop 4 (take (m_ind m) (m_buf m)) = take 20 (drop 4 (m_buf m))
     @ drop 24 (take (m_ind m) (m_buf m))"
    using * append_take_drop_id [of 20 "drop 4 (take (m_ind m) (m_buf m))"]
    by (simp add: drop_take)
  then show ?thesis by (simp add: wire_def memcpy_def m_ok_cells [OF assms])
qed

lemma ustate_at:
  "length pre = n \<Longrightarrow> (unmarshall_buf (pre @ map Some bs))\<lparr>u_ind := n\<rparr> = ustate pre bs"
  by (simp add: unmarshall_buf_def ustate_def)

lemma unpack_req_header_wire:
  assumes "m_ok m" "m_ind m < 2 ^ 32"
  shows "unpack_req_header (unmarshall_buf (wire (pack_req_header h m)))
    = (h, ustate (take RPC_HEADER_SZ (wire (pack_req_header h m))) (m_content m))"
proof -
  let ?sz = "map Some (enc_uint (of_nat (m_ind m)))"
  have len: "length (m_buf m) = m_capa m" "24 \<le> m_capa m"
    using assms by (auto simp: m_ok_def DEFAULT_RPC_SZ_def)
  have "24 + length (m_content m) = m_ind m"
    using assms(1) by (auto simp: m_content_def m_ok_def RPC_HEADER_SZ_def)
  then have c: "24 + length (m_content m) < 2 ^ 32" using assms(2) by simp
  have "m_ind (pack_req_header h m) = m_ind m"
    "take 20 (drop 4 (m_buf (pack_req_header h m))) = map Some (enc_req_header h)"
    using len by (simp_all add: pack_req_header_eq memcpy_def)
  then have w: "wire (pack_req_header h m) = ?sz @ map Some (enc_req_header h @ m_content m)"
    using assms(1) by (simp add: wire_split)
  have "(unmarshall_buf (wire (pack_req_header h m)))\<lparr>u_ind := 4\<rparr>
      = ustate ?sz (enc_req_header h @ m_content m)"
    unfolding w by (rule ustate_at) simp
  then have "fst (unpack_req_header (unmarshall_buf (wire (pack_req_header h m)))) = h \<and>
     snd (unpack_req_header (unmarshall_buf (wire (pack_req_header h m))))
      = (ustate (?sz @ map Some (enc_req_header h)) (m_content m))\<lparr>u_ind := RPC_HEADER_SZ\<rparr>"
    using c by (simp add: unpack_req_header_def enc_req_header_def u_unpack_get c_uint.get_enc)
  moreover have "take RPC_HEADER_SZ (wire (pack_req_header h m)) = ?sz @ map Some (enc_req_header h)"
    by (simp add: w RPC_HEADER_SZ_def)
  ultimately show ?thesis
    by (simp add: prod_eq_iff) (simp add: ustate_def RPC_HEADER_SZ_def)
qed

lemma unpack_reply_header_wire:
  assumes "m_ok m" "m_ind m < 2 ^ 32"
  shows "unpack_reply_header (unmarshall_buf (wire (pack_reply_header h m)))
    = (h, ustate (take RPC_HEADER_SZ (wire (pack_reply_header h m))) (m_content m))"
proof -
  let ?sz = "map Some (enc_uint (of_nat (m_ind m)))" and ?old = "take 12 (drop 12 (m_buf m))"
  have len: "length (m_buf m) = m_capa m" "24 \<le> m_capa m" "24 \<le> m_ind m" "m_ind m \<le> m_capa m"
    using assms by (auto simp: m_ok_def DEFAULT_RPC_SZ_def RPC_HEADER_SZ_def)
  have "24 + length (m_content m) = m_ind m"
    using assms(1) by (auto simp: m_content_def m_ok_def RPC_HEADER_SZ_def)
  then have c: "24 + length (m_content m) < 2 ^ 32" using assms(2) by simp
  have "m_ind (pack_reply_header h m) = m_ind m"
    "take 20 (drop 4 (m_buf (pack_reply_header h m))) = map Some (enc_reply_header h) @ ?old"
    using len by (simp_all add: pack_reply_header_eq memcpy_def)
  then have w: "wire (pack_reply_header h m)
      = ?sz @ map Some (enc_reply_header h) @ ?old @ map Some (m_content m)"
    using assms(1) by (simp add: wire_split)
  have old: "length ?old = 12" using len by simp
  show ?thesis
    using c old
    by (simp add: unpack_reply_header_def w u_unpack_get enc_reply_header_def RPC_HEADER_SZ_def
      unmarshall_buf_def enc_uint_def get_uint_def u_rawbyte_def nth_append and_ff
      take_bit_scast_byte uint_of_bytes ustate_def)
qed

subsection \<open>Paxos messages\<close>

datatype prop_t = Prop (prop_n: u32) (prop_m: string)

record preparearg =
  pa_instance :: u32
  pa_n :: prop_t

record prepareres =
  pr_oldinstance :: bool
  pr_accept :: bool
  pr_n_a :: prop_t
  pr_v_a :: string

record acceptarg =
  aa_instance :: u32
  aa_n :: prop_t
  aa_v :: string

record decidearg =
  da_instance :: u32
  da_v :: string

definition put_prop :: "prop_t \<Rightarrow> marshall \<Rightarrow> marshall" where
  "put_prop a m = put_string (prop_m a) (put_uint (prop_n a) m)"

definition get_prop :: "unmarshall \<Rightarrow> prop_t \<times> unmarshall" where
  "get_prop u = (let (n, u) = get_uint u; (m, u) = get_string u in (Prop n m, u))"

definition enc_prop :: "prop_t \<Rightarrow> byte list" where
  "enc_prop a = enc_uint (prop_n a) @ enc_string (prop_m a)"

interpretation c_prop: codec put_prop get_prop enc_prop "\<lambda>_. True"
  by unfold_locales (simp_all add: put_prop_def get_prop_def enc_prop_def codec_simps)

definition put_preparearg :: "preparearg \<Rightarrow> marshall \<Rightarrow> marshall" where
  "put_preparearg a m = put_prop (pa_n a) (put_uint (pa_instance a) m)"

definition get_preparearg :: "unmarshall \<Rightarrow> preparearg \<times> unmarshall" where
  "get_preparearg u = (let (i, u) = get_uint u; (n, u) = get_prop u
     in (\<lparr>pa_instance = i, pa_n = n\<rparr>, u))"

definition enc_preparearg :: "preparearg \<Rightarrow> byte list" where
  "enc_preparearg a = enc_uint (pa_instance a) @ enc_prop (pa_n a)"

lemmas codec_prop [codec_simps] =
  c_prop.put_ok c_prop.put_content c_prop.put_header c_prop.get_enc

interpretation c_preparearg: codec put_preparearg get_preparearg enc_preparearg "\<lambda>_. True"
  by unfold_locales
    (simp_all add: put_preparearg_def get_preparearg_def enc_preparearg_def codec_simps)

definition put_prepareres :: "prepareres \<Rightarrow> marshall \<Rightarrow> marshall" where
  "put_prepareres r m = put_string (pr_v_a r) (put_prop (pr_n_a r)
     (put_bool (pr_accept r) (put_bool (pr_oldinstance r) m)))"

definition get_prepareres :: "unmarshall \<Rightarrow> prepareres \<times> unmarshall" where
  "get_prepareres u =
     (let (oi, u) = get_bool u; (ac, u) = get_bool u; (n, u) = get_prop u; (v, u) = get_string u
      in (\<lparr>pr_oldinstance = oi, pr_accept = ac, pr_n_a = n, pr_v_a = v\<rparr>, u))"

definition enc_prepareres :: "prepareres \<Rightarrow> byte list" where
  "enc_prepareres r = enc_bool (pr_oldinstance r) @ enc_bool (pr_accept r)
     @ enc_prop (pr_n_a r) @ enc_string (pr_v_a r)"

interpretation c_prepareres: codec put_prepareres get_prepareres enc_prepareres "\<lambda>_. True"
  by unfold_locales
    (simp_all add: put_prepareres_def get_prepareres_def enc_prepareres_def codec_simps)

definition put_acceptarg :: "acceptarg \<Rightarrow> marshall \<Rightarrow> marshall" where
  "put_acceptarg a m = put_string (aa_v a) (put_prop (aa_n a) (put_uint (aa_instance a) m))"

definition get_acceptarg :: "unmarshall \<Rightarrow> acceptarg \<times> unmarshall" where
  "get_acceptarg u = (let (i, u) = get_uint u; (n, u) = get_prop u; (v, u) = get_string u
     in (\<lparr>aa_instance = i, aa_n = n, aa_v = v\<rparr>, u))"

definition enc_acceptarg :: "acceptarg \<Rightarrow> byte list" where
  "enc_acceptarg a = enc_uint (aa_instance a) @ enc_prop (aa_n a) @ enc_string (aa_v a)"

interpretation c_acceptarg: codec put_acceptarg get_acceptarg enc_acceptarg "\<lambda>_. True"
  by unfold_locales
    (simp_all add: put_acceptarg_def get_acceptarg_def enc_acceptarg_def codec_simps)

definition put_decidearg :: "decidearg \<Rightarrow> marshall \<Rightarrow> marshall" where
  "put_decidearg a m = put_string (da_v a) (put_uint (da_instance a) m)"

definition get_decidearg :: "unmarshall \<Rightarrow> decidearg \<times> unmarshall" where
  "get_decidearg u = (let (i, u) = get_uint u; (v, u) = get_string u
     in (\<lparr>da_instance = i, da_v = v\<rparr>, u))"

definition enc_decidearg :: "decidearg \<Rightarrow> byte list" where
  "enc_decidearg a = enc_uint (da_instance a) @ enc_string (da_v a)"

interpretation c_decidearg: codec put_decidearg get_decidearg enc_decidearg "\<lambda>_. True"
  by unfold_locales
    (simp_all add: put_decidearg_def get_decidearg_def enc_decidearg_def codec_simps)

subsection \<open>RSM messages\<close>

record viewstamp =
  vs_vid :: u32
  vs_seqno :: u32

record transferres =
  tr_state :: string
  tr_last :: viewstamp

record joinres =
  jr_log :: string

definition put_viewstamp :: "viewstamp \<Rightarrow> marshall \<Rightarrow> marshall" where
  "put_viewstamp v m = put_uint (vs_seqno v) (put_uint (vs_vid v) m)"

definition get_viewstamp :: "unmarshall \<Rightarrow> viewstamp \<times> unmarshall" where
  "get_viewstamp u = (let (v, u) = get_uint u; (s, u) = get_uint u
     in (\<lparr>vs_vid = v, vs_seqno = s\<rparr>, u))"

definition enc_viewstamp :: "viewstamp \<Rightarrow> byte list" where
  "enc_viewstamp v = enc_uint (vs_vid v) @ enc_uint (vs_seqno v)"

interpretation c_viewstamp: codec put_viewstamp get_viewstamp enc_viewstamp "\<lambda>_. True"
  by unfold_locales
    (simp_all add: put_viewstamp_def get_viewstamp_def enc_viewstamp_def codec_simps)

lemmas codec_viewstamp [codec_simps] =
  c_viewstamp.put_ok c_viewstamp.put_content c_viewstamp.put_header c_viewstamp.get_enc

definition put_transferres :: "transferres \<Rightarrow> marshall \<Rightarrow> marshall" where
  "put_transferres r m = put_viewstamp (tr_last r) (put_string (tr_state r) m)"

definition get_transferres :: "unmarshall \<Rightarrow> transferres \<times> unmarshall" where
  "get_transferres u = (let (s, u) = get_string u; (v, u) = get_viewstamp u
     in (\<lparr>tr_state = s, tr_last = v\<rparr>, u))"

definition enc_transferres :: "transferres \<Rightarrow> byte list" where
  "enc_transferres r = enc_string (tr_state r) @ enc_viewstamp (tr_last r)"

interpretation c_transferres: codec put_transferres get_transferres enc_transferres "\<lambda>_. True"
  by unfold_locales
    (simp_all add: put_transferres_def get_transferres_def enc_transferres_def codec_simps)

definition put_joinres :: "joinres \<Rightarrow> marshall \<Rightarrow> marshall" where
  "put_joinres r m = put_string (jr_log r) m"

definition get_joinres :: "unmarshall \<Rightarrow> joinres \<times> unmarshall" where
  "get_joinres u = (let (l, u) = get_string u in (\<lparr>jr_log = l\<rparr>, u))"

interpretation c_joinres: codec put_joinres get_joinres "\<lambda>r. enc_string (jr_log r)" "\<lambda>_. True"
  by unfold_locales (simp_all add: put_joinres_def get_joinres_def codec_simps)

subsection \<open>Extent attributes\<close>

record attr =
  at_atime :: u32
  at_mtime :: u32
  at_ctime :: u32
  at_size :: u32

definition put_attr :: "attr \<Rightarrow> marshall \<Rightarrow> marshall" where
  "put_attr a m = put_uint (at_size a) (put_uint (at_ctime a)
     (put_uint (at_mtime a) (put_uint (at_atime a) m)))"

definition get_attr :: "unmarshall \<Rightarrow> attr \<times> unmarshall" where
  "get_attr u = (let (a, u) = get_uint u; (m, u) = get_uint u; (c, u) = get_uint u;
       (s, u) = get_uint u
     in (\<lparr>at_atime = a, at_mtime = m, at_ctime = c, at_size = s\<rparr>, u))"

definition enc_attr :: "attr \<Rightarrow> byte list" where
  "enc_attr a = enc_uint (at_atime a) @ enc_uint (at_mtime a) @ enc_uint (at_ctime a)
     @ enc_uint (at_size a)"

interpretation c_attr: codec put_attr get_attr enc_attr "\<lambda>_. True"
  by unfold_locales (simp_all add: put_attr_def get_attr_def enc_attr_def codec_simps)

subsection \<open>Vectors of strings\<close>

text \<open>The member lists \<^verbatim>\<open>rsm::client_members\<close> returns and the waiting lists of the lock server.\<close>

abbreviation fits_strings :: "string list \<Rightarrow> bool" where
  "fits_strings v \<equiv> length v < 2 ^ 32 \<and> list_all (\<lambda>_. True) v"

interpretation c_strings: codec "put_vector put_string" "get_vector get_string"
  "enc_vector enc_string" fits_strings
  by (rule c_string.codec_vector)

end
