(* ===== verification/Connection.thy ===== *)
theory Connection
  imports Protocols
begin

text \<open>
  The connections of the RPC library (\<^verbatim>\<open>rpc/connection.cc\<close>): reference counting,
  and the framing of messages on a non-blocking stream socket. The kernel side of a socket is
  part of the state: \<open>c_in\<close> holds the bytes that have arrived and have not been read,
  \<open>c_out\<close> the bytes the kernel has accepted. How much a \<^verbatim>\<open>write\<close> accepts and in
  which portions bytes arrive is up to the kernel, so it is an argument of the operations.
  \<open>c_eagain\<close> says whether \<^verbatim>\<open>errno\<close> holds \<^verbatim>\<open>EAGAIN\<close>; a read that
  does not fail leaves \<^verbatim>\<open>errno\<close> as it was.
\<close>

subsection \<open>State\<close>

record pdu =
  pd_buf :: "cell list option"
  pd_sz :: int
  pd_solong :: int

datatype peer = Peer_open | Peer_closed | Peer_reset

record connection =
  c_dead :: bool
  c_refno :: int
  c_create_time :: "int \<times> int"
  c_wpdu :: pdu
  c_rpdu :: pdu
  c_eagain :: bool
  c_peer :: peer
  c_in :: "cell list"
  c_out :: "cell list"

definition no_pdu :: pdu where
  "no_pdu = \<lparr>pd_buf = None, pd_sz = 0, pd_solong = 0\<rparr>"

definition connection_new :: "int \<times> int \<Rightarrow> connection" where
  "connection_new t = \<lparr>c_dead = False, c_refno = 1, c_create_time = t, c_wpdu = no_pdu,
     c_rpdu = no_pdu, c_eagain = False, c_peer = Peer_open, c_in = [], c_out = []\<rparr>"

definition MAX_PDU :: int where
  "MAX_PDU = 10 * 2 ^ 20"

subsection \<open>Reference counts\<close>

definition incref :: "connection \<Rightarrow> connection" where
  "incref c = c\<lparr>c_refno := c_refno c + 1\<rparr>"

text \<open>\<open>None\<close>: the object has been deleted. The destructor checks that nothing is being sent.\<close>

definition decref :: "connection \<Rightarrow> connection option res" where
  "decref c =
     (let c = c\<lparr>c_refno := c_refno c - 1\<rparr>
      in if c_refno c < 0 then Inl Verify_failed
         else if c_refno c = 0 \<and> c_dead c then
           (if pd_buf (c_wpdu c) \<noteq> None then Inl Verify_failed else Inr None)
         else Inr (Some c))"

definition closeconn :: "connection \<Rightarrow> connection" where
  "closeconn c = c\<lparr>c_dead := True\<rparr>"

definition conn_compare :: "connection \<Rightarrow> connection \<Rightarrow> int" where
  "conn_compare c d =
     (if fst (c_create_time c) > fst (c_create_time d) then 1
      else if fst (c_create_time c) < fst (c_create_time d) then - 1
      else if snd (c_create_time c) > snd (c_create_time d) then 1
      else if snd (c_create_time c) < snd (c_create_time d) then - 1
      else 0)"

subsection \<open>Sending\<close>

datatype wres = Wrote nat | Would_block | Write_error

definition writepdu :: "wres \<Rightarrow> connection \<Rightarrow> (bool \<times> connection) res" where
  "writepdu w c =
     (let p = c_wpdu c
      in if pd_solong p < 0 then Inl Verify_failed
         else if pd_solong p = pd_sz p then Inr (True, c)
         else case pd_buf p of
             None \<Rightarrow> Inl Undefined_behaviour
           | Some b \<Rightarrow>
             (let b = (if pd_solong p = 0 then memcpy 0 (map Some (enc_uint (word_of_int (pd_sz p)))) b
                       else b);
                  p = p\<lparr>pd_buf := Some b\<rparr>
              in case w of
                  Write_error \<Rightarrow> Inr (False, c\<lparr>c_wpdu := p\<lparr>pd_solong := - 1, pd_sz := 0\<rparr>, c_eagain := False\<rparr>)
                | Would_block \<Rightarrow> Inr (True, c\<lparr>c_wpdu := p, c_eagain := True\<rparr>)
                | Wrote n \<Rightarrow>
                   (let n = min n (nat (pd_sz p - pd_solong p))
                    in Inr (True, c\<lparr>c_wpdu := p\<lparr>pd_solong := pd_solong p + int n\<rparr>,
                         c_out := c_out c @ take n (drop (nat (pd_solong p)) b)\<rparr>))))"

text \<open>
  \<^verbatim>\<open>connection::send\<close> blocks twice: until the previous message is out
  (\<open>Send_waiting\<close>) and until its own message is out (\<open>Send_blocked\<close>), while the
  poll thread runs \<^verbatim>\<open>write_cb\<close>. The segments between the waits are operations of
  their own.
\<close>

datatype send_state = Send_waiting | Send_blocked | Send_returned bool

definition send_end :: "connection \<Rightarrow> send_state \<times> connection" where
  "send_end c =
     (Send_returned (\<not> c_dead c \<and> pd_solong (c_wpdu c) = pd_sz (c_wpdu c)), c\<lparr>c_wpdu := no_pdu\<rparr>)"

definition send_begin :: "cell list \<Rightarrow> int \<Rightarrow> wres \<Rightarrow> connection \<Rightarrow> (send_state \<times> connection) res" where
  "send_begin b sz w c =
     (if \<not> c_dead c \<and> pd_buf (c_wpdu c) \<noteq> None then Inr (Send_waiting, c)
      else if c_dead c then Inr (Send_returned False, c)
      else res_bind (writepdu w (c\<lparr>c_wpdu := \<lparr>pd_buf = Some b, pd_sz = sz, pd_solong = 0\<rparr>\<rparr>))
        (\<lambda>(succ, c). if \<not> succ then Inr (send_end (c\<lparr>c_dead := True\<rparr>))
           else if pd_solong (c_wpdu c) = pd_sz (c_wpdu c) then Inr (send_end c)
           else Inr (Send_blocked, c)))"

definition send_wake :: "connection \<Rightarrow> send_state \<times> connection" where
  "send_wake c =
     (if \<not> c_dead c \<and> pd_solong (c_wpdu c) \<ge> 0 \<and> pd_solong (c_wpdu c) < pd_sz (c_wpdu c)
      then (Send_blocked, c) else send_end c)"

definition write_cb :: "wres \<Rightarrow> connection \<Rightarrow> connection res" where
  "write_cb w c =
     (if c_dead c then Inl Verify_failed
      else if pd_sz (c_wpdu c) = 0 then Inr c
      else res_bind (writepdu w c)
        (\<lambda>(succ, c). if \<not> succ then Inr (c\<lparr>c_dead := True\<rparr>)
           else if pd_solong (c_wpdu c) < 0 then Inl Verify_failed else Inr c))"

text \<open>A whole call of \<^verbatim>\<open>send\<close>, with the results of the successive writes.\<close>

fun send_blocked :: "wres list \<Rightarrow> connection \<Rightarrow> (send_state \<times> connection) res" where
  "send_blocked [] c = Inr (Send_blocked, c)"
| "send_blocked (w # ws) c = res_bind (write_cb w c)
     (\<lambda>c. case send_wake c of
        (Send_blocked, c) \<Rightarrow> send_blocked ws c
      | r \<Rightarrow> Inr r)"

fun send :: "cell list \<Rightarrow> int \<Rightarrow> wres list \<Rightarrow> connection \<Rightarrow> (send_state \<times> connection) res" where
  "send b sz [] c = send_begin b sz Would_block c"
| "send b sz (w # ws) c = res_bind (send_begin b sz w c)
     (\<lambda>r. case r of (Send_blocked, c) \<Rightarrow> send_blocked ws c | _ \<Rightarrow> Inr r)"

subsection \<open>Receiving\<close>

text \<open>\<^verbatim>\<open>read(fd_, p, n)\<close>: \<open>None\<close> stands for the result -1.\<close>

definition sock_read :: "nat \<Rightarrow> connection \<Rightarrow> cell list option \<times> connection" where
  "sock_read n c =
     (if n = 0 then (Some [], c)
      else if c_in c \<noteq> [] then (Some (take n (c_in c)), c\<lparr>c_in := drop n (c_in c)\<rparr>)
      else case c_peer c of
          Peer_open \<Rightarrow> (None, c\<lparr>c_eagain := True\<rparr>)
        | Peer_closed \<Rightarrow> (Some [], c)
        | Peer_reset \<Rightarrow> (None, c\<lparr>c_eagain := False\<rparr>))"

fun ntohl :: "cell list \<Rightarrow> u32" where
  "ntohl cs = fst (get_uint (unmarshall_buf cs))"

text \<open>
  The first half of \<^verbatim>\<open>readpdu\<close>. The size is a signed integer and only bounded from
  above; \<^verbatim>\<open>malloc\<close> of more than half of the address space returns \<^verbatim>\<open>NULL\<close>.
\<close>

definition read_size :: "connection \<Rightarrow> (bool \<times> connection) res" where
  "read_size c =
     (case sock_read 4 c of
        (None, c) \<Rightarrow> if c_eagain c then Inl Verify_failed else Inr (False, c)
      | (Some cs, c) \<Rightarrow>
          if length cs \<noteq> 4 then Inr (False, c)
          else let sz = sint (ntohl cs) in
            if sz > MAX_PDU then Inr (False, c)
            else if pd_buf (c_rpdu c) \<noteq> None \<or> sz + 4 < 0 then Inl Verify_failed
            else if sz < 0 then Inl Undefined_behaviour
            else Inr (True, c\<lparr>c_rpdu := \<lparr>pd_buf = Some (cs @ replicate (nat sz) None),
                pd_sz = sz, pd_solong = 4\<rparr>\<rparr>))"

definition readpdu :: "connection \<Rightarrow> (bool \<times> connection) res" where
  "readpdu c = res_bind (if pd_sz (c_rpdu c) = 0 then read_size c else Inr (True, c))
     (\<lambda>(go, c). if \<not> go then Inr (False, c) else
        (let p = c_rpdu c;
             (r, c) = sock_read (unat (word_of_int (pd_sz p - pd_solong p) :: u32)) c;
             bs = (case r of Some bs \<Rightarrow> bs | None \<Rightarrow> [])
         in if bs = [] then
              (if c_eagain c then Inr (True, c) else Inr (False, c\<lparr>c_rpdu := no_pdu\<rparr>))
            else case pd_buf p of
                None \<Rightarrow> Inl Undefined_behaviour
              | Some b \<Rightarrow>
                  if nat (pd_solong p) + length bs > length b then Inl Undefined_behaviour
                  else Inr (True, c\<lparr>c_rpdu := p\<lparr>pd_buf := Some (memcpy (nat (pd_solong p)) bs b),
                      pd_solong := pd_solong p + int (length bs)\<rparr>\<rparr>)))"

text \<open>
  \<open>succ\<close> is what \<^verbatim>\<open>mgr_->got_pdu\<close> returns; the first component of the result is
  the message it was given.
\<close>

definition read_cb :: "bool \<Rightarrow> connection \<Rightarrow> (cell list option \<times> connection) res" where
  "read_cb succ c =
     (if c_dead c then Inr (None, c)
      else res_bind
        (if pd_buf (c_rpdu c) = None \<or> pd_solong (c_rpdu c) < pd_sz (c_rpdu c)
         then readpdu c else Inr (True, c))
        (\<lambda>(ok, c).
          let c = (if ok then c else c\<lparr>c_dead := True\<rparr>); p = c_rpdu c
          in case pd_buf p of
               None \<Rightarrow> Inr (None, c)
             | Some b \<Rightarrow>
                 if pd_sz p = pd_solong p then
                   Inr (Some (take (nat (pd_sz p)) b), if succ then c\<lparr>c_rpdu := no_pdu\<rparr> else c)
                 else Inr (None, c)))"

text \<open>The poll thread calls \<^verbatim>\<open>read_cb\<close> when bytes have arrived.\<close>

definition arrive :: "cell list \<Rightarrow> connection \<Rightarrow> connection" where
  "arrive cs c = c\<lparr>c_in := c_in c @ cs\<rparr>"

fun receive :: "cell list list \<Rightarrow> connection \<Rightarrow> (cell list list \<times> connection) res" where
  "receive [] c = Inr ([], c)"
| "receive (cs # css) c = res_bind (read_cb True (arrive cs c))
     (\<lambda>(d, c). res_bind (receive css c)
        (\<lambda>(ds, c). Inr ((case d of Some b \<Rightarrow> b # ds | None \<Rightarrow> ds), c)))"

subsection \<open>A message leaves as one frame\<close>

abbreviation size_field :: "int \<Rightarrow> cell list" where
  "size_field sz \<equiv> map Some (enc_uint (word_of_int sz))"

text \<open>\<open>k\<close> bytes of the message in \<open>b\<close> have been accepted by the kernel.\<close>

definition sending :: "cell list \<Rightarrow> int \<Rightarrow> cell list \<Rightarrow> nat \<Rightarrow> connection \<Rightarrow> bool" where
  "sending b sz out k c \<longleftrightarrow> \<not> c_dead c \<and> int k \<le> sz \<and> pd_sz (c_wpdu c) = sz \<and>
     pd_solong (c_wpdu c) = int k \<and> c_out c = out @ take k (memcpy 0 (size_field sz) b) \<and>
     (\<exists>b'. pd_buf (c_wpdu c) = Some b' \<and>
        (if k = 0 then memcpy 0 (size_field sz) b' else b') = memcpy 0 (size_field sz) b)"

fun accepted :: "wres \<Rightarrow> nat" where
  "accepted (Wrote n) = n"
| "accepted _ = 0"

lemma memcpy_idem: "memcpy 0 p (memcpy 0 p b) = memcpy 0 p b"
  by (simp add: memcpy_def)

lemma writepdu_sending:
  assumes "sending b sz out k c" "int k < sz" "w \<noteq> Write_error"
  shows "\<exists>c'. writepdu w c = Inr (True, c')
     \<and> sending b sz out (k + min (accepted w) (nat sz - k)) c'"
proof -
  obtain b' where b': "pd_buf (c_wpdu c) = Some b'"
    "(if k = 0 then memcpy 0 (size_field sz) b' else b') = memcpy 0 (size_field sz) b"
    using assms(1) by (auto simp: sending_def)
  have tk: "take k xs @ take n (drop k xs) = take (k + n) xs" for n and xs :: "cell list"
    by (simp add: take_add)
  have "nat (sz - int k) = nat sz - k" by simp
  with assms b' show ?thesis
    by (cases w) (auto simp: writepdu_def sending_def Let_def memcpy_idem tk nat_diff_distrib)
qed

lemma writepdu_sending_error:
  assumes "sending b sz out k c" "int k < sz"
  shows "\<exists>c'. writepdu Write_error c = Inr (False, c') \<and> c_out c' = c_out c"
  using assms by (auto simp: writepdu_def sending_def Let_def)

text \<open>
  What the caller of \<^verbatim>\<open>send\<close> may conclude: the kernel got a prefix of the frame, all of
  it when the result is true; a false result leaves a dead connection.
\<close>

definition sent_ok :: "cell list \<Rightarrow> int \<Rightarrow> cell list \<Rightarrow> send_state \<times> connection \<Rightarrow> bool" where
  "sent_ok b sz out r \<longleftrightarrow>
     (case r of
        (Send_returned True, c) \<Rightarrow> c_out c = out @ take (nat sz) (memcpy 0 (size_field sz) b)
          \<and> \<not> c_dead c \<and> c_wpdu c = no_pdu
      | (Send_returned False, c) \<Rightarrow> c_dead c \<and>
          (\<exists>k. int k \<le> sz \<and> c_out c = out @ take k (memcpy 0 (size_field sz) b))
      | (_, c) \<Rightarrow> \<exists>k. int k < sz \<and> sending b sz out k c)"

lemma sent_ok_end:
  assumes "sending b sz out k c" "\<not> int k < sz"
  shows "sent_ok b sz out (send_end c)"
proof -
  have "k = nat sz" "int k = sz" using assms by (auto simp: sending_def)
  with assms show ?thesis by (auto simp: sent_ok_def send_end_def sending_def)
qed

lemma send_blocked_ok:
  assumes "sending b sz out k c" "int k < sz"
  shows "\<exists>r. send_blocked ws c = Inr r \<and> sent_ok b sz out r"
  using assms
proof (induction ws arbitrary: k c)
  case Nil
  then show ?case by (auto simp: sent_ok_def)
next
  case (Cons w ws)
  have s: "\<not> c_dead c" "pd_sz (c_wpdu c) \<noteq> 0" using Cons.prems by (auto simp: sending_def)
  show ?case
  proof (cases "w = Write_error")
    case True
    then obtain c' where "writepdu w c = Inr (False, c')" "c_out c' = c_out c"
      using writepdu_sending_error [OF Cons.prems] by auto
    moreover have "int k \<le> sz \<and> c_out c = out @ take k (memcpy 0 (size_field sz) b)"
      using Cons.prems by (simp add: sending_def)
    ultimately show ?thesis using s
      by (auto simp: write_cb_def send_wake_def send_end_def sent_ok_def intro: exI [of _ k])
  next
    case False
    define k' where "k' = k + min (accepted w) (nat sz - k)"
    obtain c' where c': "writepdu w c = Inr (True, c')" "sending b sz out k' c'"
      using writepdu_sending [OF Cons.prems False] by (auto simp: k'_def)
    then have w: "write_cb w c = Inr c'" using s by (auto simp: write_cb_def sending_def)
    show ?thesis
    proof (cases "int k' < sz")
      case True
      then show ?thesis using w c' Cons.IH [OF c'(2)]
        by (auto simp: send_wake_def sending_def)
    next
      case fin: False
      then have "send_wake c' = send_end c'" using c'(2) by (auto simp: send_wake_def sending_def)
      then show ?thesis using w sent_ok_end [OF c'(2) fin] by (auto simp: send_end_def)
    qed
  qed
qed

lemma send_begin_ok:
  assumes "\<not> c_dead c" "c_wpdu c = no_pdu" "0 < sz"
  shows "\<exists>r. send_begin b sz w c = Inr r \<and> sent_ok b sz (c_out c) r \<and> fst r \<noteq> Send_waiting"
proof -
  let ?c = "c\<lparr>c_wpdu := \<lparr>pd_buf = Some b, pd_sz = sz, pd_solong = 0\<rparr>\<rparr>"
  have s: "sending b sz (c_out c) 0 ?c" using assms by (auto simp: sending_def)
  show ?thesis
  proof (cases "w = Write_error")
    case True
    then obtain c' where "writepdu w ?c = Inr (False, c')" "c_out c' = c_out c"
      using writepdu_sending_error [OF s] assms by auto
    then show ?thesis using assms
      by (auto simp: send_begin_def no_pdu_def send_end_def sent_ok_def intro!: exI [of _ "0::nat"])
  next
    case False
    define k where "k = min (accepted w) (nat sz)"
    obtain c' where c': "writepdu w ?c = Inr (True, c')" "sending b sz (c_out c) k c'"
      using writepdu_sending [OF s _ False] assms by (auto simp: k_def)
    show ?thesis
    proof (cases "int k < sz")
      case True
      then show ?thesis using c' assms
        by (auto simp: send_begin_def no_pdu_def sent_ok_def sending_def)
    next
      case fin: False
      then have "send_begin b sz w c = Inr (send_end c')" using c' assms
        by (auto simp: send_begin_def no_pdu_def sending_def)
      then show ?thesis using sent_ok_end [OF c'(2) fin] by (auto simp: send_end_def)
    qed
  qed
qed

lemma send_ok:
  assumes "\<not> c_dead c" "c_wpdu c = no_pdu" "0 < sz"
  shows "\<exists>r. send b sz ws c = Inr r \<and> sent_ok b sz (c_out c) r"
proof (cases ws)
  case Nil
  then show ?thesis using send_begin_ok [OF assms] by fastforce
next
  case (Cons w ws')
  obtain st c' where r: "send_begin b sz w c = Inr (st, c')" "sent_ok b sz (c_out c) (st, c')"
    "st \<noteq> Send_waiting" using send_begin_ok [OF assms] by fastforce
  show ?thesis
  proof (cases st)
    case Send_blocked
    then obtain k where "int k < sz" "sending b sz (c_out c) k c'" using r by (auto simp: sent_ok_def)
    then show ?thesis using send_blocked_ok [of b sz "c_out c" k c' ws'] Cons r Send_blocked by auto
  qed (use r Cons in auto)
qed

subsection \<open>A frame arrives as one message\<close>

lemma ntohl_enc_uint [simp]: "fst (get_uint (unmarshall_buf (map Some (enc_uint x)))) = x"
proof -
  have "unmarshall_buf (map Some (enc_uint x)) = ustate [] (enc_uint x)"
    by (simp add: unmarshall_buf_def ustate_def)
  then show ?thesis by (simp add: c_uint.get_enc_last)
qed

text \<open>\<open>k\<close> cells of the frame \<open>fr\<close> have been read.\<close>

definition reading :: "cell list \<Rightarrow> nat \<Rightarrow> connection \<Rightarrow> connection \<Rightarrow> bool" where
  "reading fr k c0 c \<longleftrightarrow> (\<exists>e. c = c0\<lparr>c_eagain := e, c_in := [],
     c_rpdu := \<lparr>pd_buf = Some (take k fr @ replicate (length fr + 4 - k) None),
       pd_sz = int (length fr), pd_solong = int k\<rparr>\<rparr>)"

lemma unat_diff_u32:
  assumes "k \<le> n" "n < 2 ^ 32"
  shows "unat (word_of_int (int n - int k) :: u32) = n - k"
proof -
  have "word_of_int (int n - int k) = (of_nat (n - k) :: u32)"
    using assms(1) by (simp add: of_nat_diff)
  then show ?thesis using assms unat_of_nat_u32 [of "n - k"] by simp
qed

lemma readpdu_body:
  assumes "reading fr k c0 c" "4 \<le> k" "k + length cs \<le> length fr" "cs \<noteq> []"
    "length fr < 2 ^ 32" "cs = take (length cs) (drop k fr)"
  shows "\<exists>c'. readpdu (arrive cs c) = Inr (True, c') \<and> reading fr (k + length cs) c0 c'"
proof -
  have sz: "length fr \<noteq> 0" using assms by auto
  have *: "take (k + length cs) fr = take k fr @ cs"
    using assms(6) by (metis take_add)
  have "k < length fr" using assms(3,4) by (cases cs) auto
  then have u: "unat (word_of_int (int (length fr) - int k) :: u32) = length fr - k"
    using assms(5) by (intro unat_diff_u32) auto
  obtain e where c: "c = c0\<lparr>c_eagain := e, c_in := [],
     c_rpdu := \<lparr>pd_buf = Some (take k fr @ replicate (length fr + 4 - k) None),
       pd_sz = int (length fr), pd_solong = int k\<rparr>\<rparr>"
    using assms(1) by (auto simp: reading_def)
  have "readpdu (arrive cs c) = Inr (True, c0\<lparr>c_eagain := e, c_in := [],
     c_rpdu := \<lparr>pd_buf = Some (take (k + length cs) fr @ replicate (length fr + 4 - (k + length cs)) None),
       pd_sz = int (length fr), pd_solong = int (k + length cs)\<rparr>\<rparr>)"
    using assms(3,4) sz \<open>k < length fr\<close>
    by (simp add: c readpdu_def arrive_def sock_read_def memcpy_def Let_def * u del: of_int_diff)
  then show ?thesis by (auto simp: reading_def)
qed

text \<open>A frame as \<open>send\<close> produces it, of an admissible size.\<close>

definition frame :: "cell list \<Rightarrow> bool" where
  "frame fr \<longleftrightarrow> 4 < length fr \<and> int (length fr) \<le> MAX_PDU \<and>
     take 4 fr = size_field (int (length fr))"

definition idle_reader :: "connection \<Rightarrow> bool" where
  "idle_reader c \<longleftrightarrow> \<not> c_dead c \<and> c_rpdu c = no_pdu \<and> c_in c = [] \<and> c_peer c = Peer_open"

lemma read_size_frame:
  assumes "frame fr" "idle_reader c" "4 \<le> length cs" "take 4 cs = take 4 fr"
  shows "read_size (arrive cs c) = Inr (True, c\<lparr>c_in := drop 4 cs, c_rpdu :=
     \<lparr>pd_buf = Some (take 4 fr @ replicate (length fr) None), pd_sz = int (length fr), pd_solong = 4\<rparr>\<rparr>)"
proof -
  have "length fr < 2 ^ 31" using assms(1) by (simp add: frame_def MAX_PDU_def)
  then have "sint (word_of_int (int (length fr)) :: u32) = int (length fr)"
    by (simp add: signed_of_nat signed_take_bit_int_eq_self)
  then show ?thesis using assms
    by (auto simp: read_size_def frame_def idle_reader_def arrive_def sock_read_def no_pdu_def Let_def)
qed

lemma readpdu_first:
  assumes "frame fr" "idle_reader c" "4 \<le> length cs" "length cs \<le> length fr"
    "cs = take (length cs) fr"
  shows "\<exists>c'. readpdu (arrive cs c) = Inr (True, c') \<and> reading fr (length cs) c c'"
proof -
  define c1 where "c1 = c\<lparr>c_in := [], c_rpdu := \<lparr>pd_buf = Some (take 4 fr @ replicate (length fr) None),
     pd_sz = int (length fr), pd_solong = 4\<rparr>\<rparr>"
  have len: "length fr < 2 ^ 32" "4 < length fr" "pd_sz (c_rpdu c1) \<noteq> 0"
    using assms(1) by (auto simp: frame_def MAX_PDU_def c1_def)
  have "take 4 cs = take 4 fr" using assms(3,5) by (metis min.absorb1 take_take)
  then have "read_size (arrive cs c) = Inr (True, arrive (drop 4 cs) c1)"
    using read_size_frame [OF assms(1-3)] by (simp add: c1_def arrive_def)
  moreover have "pd_sz (c_rpdu (arrive cs c)) = 0"
    using assms(2) by (simp add: idle_reader_def no_pdu_def arrive_def)
  moreover have "pd_sz (c_rpdu (arrive (drop 4 cs) c1)) \<noteq> 0" using len by (simp add: arrive_def)
  ultimately have r: "readpdu (arrive cs c) = readpdu (arrive (drop 4 cs) c1)"
    by (simp add: readpdu_def)
  have c1: "reading fr 4 c c1" by (auto simp: reading_def c1_def intro: exI [of _ "c_eagain c"])
  show ?thesis
  proof (cases "length cs = 4")
    case True
    have "unat (word_of_int (int (length fr) - int 4) :: u32) = length fr - 4"
      using len by (intro unat_diff_u32) auto
    then have "readpdu c1 = Inr (True, c1\<lparr>c_eagain := True\<rparr>)"
      using assms(2) len by (simp add: c1_def readpdu_def sock_read_def idle_reader_def)
    moreover have "reading fr 4 c (c1\<lparr>c_eagain := True\<rparr>)"
      by (auto simp: reading_def c1_def intro: exI [of _ True])
    moreover have "arrive (drop 4 cs) c1 = c1" using True by (simp add: arrive_def c1_def)
    ultimately show ?thesis using r True by auto
  next
    case False
    have "drop 4 cs = take (length (drop 4 cs)) (drop 4 fr)"
      using assms(5) by (metis drop_take length_drop)
    then have "\<exists>c'. readpdu (arrive (drop 4 cs) c1) = Inr (True, c')
        \<and> reading fr (4 + length (drop 4 cs)) c c'"
      using False assms len by (intro readpdu_body [OF c1]) auto
    then show ?thesis using r assms(3) by simp
  qed
qed

lemma read_cb_reading:
  assumes "readpdu c = Inr (True, c')" "reading fr k c0 c'" "\<not> c_dead c" "k \<le> length fr"
    "pd_buf (c_rpdu c) = None \<or> pd_solong (c_rpdu c) < pd_sz (c_rpdu c)"
  shows "read_cb True c = (if k = length fr then Inr (Some fr, c'\<lparr>c_rpdu := no_pdu\<rparr>) else Inr (None, c'))"
  using assms by (auto simp: read_cb_def reading_def Let_def)

text \<open>The rest of a frame, however the kernel splits it.\<close>

lemma receive_rest:
  assumes "reading fr k c0 c" "4 \<le> k" "k < length fr" "length fr < 2 ^ 32" "[] \<notin> set css"
    "concat css = drop k fr" "\<not> c_dead c0"
  shows "\<exists>e. receive css c = Inr ([fr], c0\<lparr>c_eagain := e, c_in := [], c_rpdu := no_pdu\<rparr>)"
  using assms
proof (induction css arbitrary: k c)
  case (Cons cs css)
  have ne: "[] \<noteq> cs" "[] \<notin> set css" using Cons.prems(5) by auto
  have cs: "cs \<noteq> []" "k + length cs \<le> length fr" "cs = take (length cs) (drop k fr)"
    "concat css = drop (k + length cs) fr"
    using Cons.prems(3) ne(1) [symmetric] arg_cong [OF Cons.prems(6), of length]
      arg_cong [OF Cons.prems(6), of "take (length cs)"]
      arg_cong [OF Cons.prems(6), of "drop (length cs)"]
    by (simp_all add: add.commute)
  obtain c' where c': "readpdu (arrive cs c) = Inr (True, c')" "reading fr (k + length cs) c0 c'"
    using readpdu_body [OF Cons.prems(1,2) cs(2,1) Cons.prems(4) cs(3)] by blast
  have "\<not> c_dead (arrive cs c)" "pd_solong (c_rpdu (arrive cs c)) < pd_sz (c_rpdu (arrive cs c))"
    using Cons.prems(1,3,7) by (auto simp: reading_def arrive_def)
  then have cb: "read_cb True (arrive cs c) = (if k + length cs = length fr
      then Inr (Some fr, c'\<lparr>c_rpdu := no_pdu\<rparr>) else Inr (None, c'))"
    using read_cb_reading [OF c' _ cs(2)] by simp
  show ?case
  proof (cases "k + length cs = length fr")
    case True
    then have "css = []" using cs(4) Cons.prems(5) by (cases css) auto
    then show ?thesis using cb True c'(2) by (auto simp: reading_def)
  next
    case False
    then show ?thesis using cb Cons.IH [OF c'(2)] Cons.prems cs by auto
  qed
qed simp

lemma receive_frame:
  assumes "frame fr" "idle_reader c" "[] \<notin> set css" "concat css = fr" "4 \<le> length (hd css)"
  shows "\<exists>e. receive css c = Inr ([fr], c\<lparr>c_eagain := e\<rparr>)"
proof -
  obtain cs css' where css: "css = cs # css'"
    using assms(1,4) by (cases css) (auto simp: frame_def)
  have cs: "4 \<le> length cs" "length cs \<le> length fr" "cs = take (length cs) fr"
    "concat css' = drop (length cs) fr"
    using assms(4,5) css by auto
  have c: "c = c\<lparr>c_in := [], c_rpdu := no_pdu\<rparr>" "\<not> c_dead c" "length fr < 2 ^ 32"
    using assms(1,2) by (auto simp: idle_reader_def frame_def MAX_PDU_def)
  obtain c' where c': "readpdu (arrive cs c) = Inr (True, c')" "reading fr (length cs) c c'"
    using readpdu_first [OF assms(1,2) cs(1-3)] by blast
  have "\<not> c_dead (arrive cs c)" "pd_buf (c_rpdu (arrive cs c)) = None"
    using assms(2) by (auto simp: idle_reader_def arrive_def no_pdu_def)
  then have cb: "read_cb True (arrive cs c) = (if length cs = length fr
      then Inr (Some fr, c'\<lparr>c_rpdu := no_pdu\<rparr>) else Inr (None, c'))"
    using read_cb_reading [OF c' _ cs(2)] by simp
  have r: "\<exists>e. receive css c = Inr ([fr], c\<lparr>c_eagain := e, c_in := [], c_rpdu := no_pdu\<rparr>)"
  proof (cases "length cs = length fr")
    case True
    then have "css' = []" using cs(4) assms(3) css by (cases css') auto
    then show ?thesis using cb True c'(2) css by (auto simp: reading_def)
  next
    case False
    then show ?thesis using cb receive_rest [OF c'(2) cs(1) _ c(3) _ cs(4) c(2)] assms(3) cs(2) css
      by auto
  qed
  moreover have "c\<lparr>c_eagain := e, c_in := [], c_rpdu := no_pdu\<rparr> = c\<lparr>c_eagain := e\<rparr>" for e
    using c(1) by (cases c) simp
  ultimately show ?thesis by simp
qed

subsection \<open>Properties\<close>

lemma send_wire:
  assumes "m_ok m" "\<not> c_dead s" "c_wpdu s = no_pdu"
    "send (m_buf m) (int (m_ind m)) ws s = Inr (Send_returned True, s')"
  shows "c_out s' = c_out s @ wire m"
proof -
  have m: "4 \<le> m_ind m" "m_ind m \<le> length (m_buf m)"
    using assms(1) by (auto simp: m_ok_def RPC_HEADER_SZ_def)
  then have "take (m_ind m) (memcpy 0 (size_field (int (m_ind m))) (m_buf m)) = wire m"
    by (simp add: wire_def memcpy_def drop_take)
  moreover have "sent_ok (m_buf m) (int (m_ind m)) (c_out s) (Send_returned True, s')"
    using send_ok [OF assms(2,3), of "int (m_ind m)" "m_buf m" ws] m assms(4) by auto
  ultimately show ?thesis by (simp add: sent_ok_def)
qed

lemma frame_wire:
  assumes "m_ok m" "int (m_ind m) \<le> MAX_PDU"
  shows "frame (wire m)"
proof -
  have m: "24 \<le> m_ind m" "m_ind m \<le> length (m_buf m)"
    using assms(1) by (auto simp: m_ok_def RPC_HEADER_SZ_def)
  then have "length (wire m) = m_ind m" by (simp add: wire_def memcpy_def)
  then show ?thesis using assms m by (simp add: frame_def wire_def memcpy_def)
qed

lemma m_ind_pack_req_header [simp]: "m_ind (pack_req_header h m) = m_ind m"
  by (simp add: pack_req_header_def Let_def)


definition sample_header :: req_header where
  "sample_header = \<lparr>rq_xid = 7, rq_proc = 1, rq_clt_nonce = 5, rq_srv_nonce = 0, rq_xid_rep = 6\<rparr>"


text \<open>A peer that closes its connection after the size field of a message, and before the
  rest, is not noticed: the read of the body set \<^verbatim>\<open>errno\<close> to \<^verbatim>\<open>EAGAIN\<close>, a read
  at the end of the stream does not change \<^verbatim>\<open>errno\<close>, and \<^verbatim>\<open>readpdu\<close> takes
  the old value for its own result. Every further \<^verbatim>\<open>read_cb\<close> leaves the connection as it is,
  alive, and the poll loop spins.\<close>

theorem eof_inside_message_unnoticed:
  assumes "frame fr" "idle_reader c"
  shows "\<exists>c'. receive [take 4 fr] c = Inr ([], c') \<and> \<not> c_dead c' \<and>
     read_cb succ (c'\<lparr>c_peer := Peer_closed\<rparr>) = Inr (None, c'\<lparr>c_peer := Peer_closed\<rparr>)"
proof -
  have len: "4 < length fr" "length fr < 2 ^ 32" "length (take 4 fr) = 4"
    using assms(1) by (auto simp: frame_def MAX_PDU_def)
  have "read_size (arrive (take 4 fr) c) = Inr (True, c\<lparr>c_in := [], c_rpdu :=
     \<lparr>pd_buf = Some (take 4 fr @ replicate (length fr) None), pd_sz = int (length fr), pd_solong = 4\<rparr>\<rparr>)"
    using read_size_frame [OF assms, of "take 4 fr"] len by simp
  moreover have u: "unat (word_of_int (int (length fr) - int 4) :: u32) = length fr - 4"
    using len by (intro unat_diff_u32) auto
  moreover have "\<not> c_dead c" "pd_sz (c_rpdu (arrive (take 4 fr) c)) = 0"
    "c_peer c = Peer_open" "pd_buf (c_rpdu (arrive (take 4 fr) c)) = None"
    using assms(2) by (auto simp: idle_reader_def no_pdu_def arrive_def)
  ultimately show ?thesis using len
    by (auto simp: read_cb_def readpdu_def sock_read_def arrive_def Let_def)
qed

theorem eof_inside_message_unnoticed_witness:
  "\<exists>c'. receive [take 4 (wire marshall_new)] (connection_new (0, 0)) = Inr ([], c') \<and> \<not> c_dead c' \<and>
     read_cb True (c'\<lparr>c_peer := Peer_closed\<rparr>) = Inr (None, c'\<lparr>c_peer := Peer_closed\<rparr>)"
proof -
  have "frame (wire marshall_new)"
    by (intro frame_wire m_ok_new) (simp add: marshall_new_def RPC_HEADER_SZ_def MAX_PDU_def)
  then show ?thesis
    using eof_inside_message_unnoticed [of "wire marshall_new" "connection_new (0, 0)" True]
    by (simp add: idle_reader_def connection_new_def)
qed

text \<open>\<^verbatim>\<open>readpdu\<close> does not check that the size of a message covers the size field: a
  size of zero followed by any data makes it read past the end of the buffer it allocated.\<close>

theorem zero_size_overflow:
  assumes "idle_reader c" "cs \<noteq> []"
  shows "receive [map Some (enc_uint 0) @ cs] c = Inl Undefined_behaviour"
  using assms
  by (auto simp: read_cb_def readpdu_def read_size_def sock_read_def arrive_def idle_reader_def
    no_pdu_def MAX_PDU_def Let_def)

theorem zero_size_overflow_witness:
  "receive [map Some (enc_uint 0) @ [Some 65]] (connection_new (0, 0)) = Inl Undefined_behaviour"
  by (rule zero_size_overflow) (simp_all add: idle_reader_def connection_new_def)

end
