(* ===== verification/Rpc_Server.thy ===== *)
theory Rpc_Server
  imports Connection
begin

text \<open>
  The server end of the RPC library, class \<^verbatim>\<open>rpcs\<close> of \<^verbatim>\<open>rpc/rpc.cc\<close> and
  \<^verbatim>\<open>rpc/rpc.h\<close>: registration of handlers, the reply window that gives at-most-once
  semantics, and \<^verbatim>\<open>dispatch\<close>. \<^verbatim>\<open>dispatch\<close> runs on several threads and
  holds no lock while a handler runs, so it is modelled by its two atomic halves,
  \<open>dispatch_enter\<close> and \<open>dispatch_finish\<close>, and by their composition \<open>dispatch\<close>.
  Connections are objects of a heap, so that reference counts are explicit; what the server hands
  to \<^verbatim>\<open>connection::send\<close> is recorded in \<open>rs_sent\<close>. The type of the state behind the
  registered handlers is a parameter.
\<close>

subsection \<open>State\<close>

definition rpc_bind :: u32 where "rpc_bind = 1"
definition timeout_failure :: int where "timeout_failure = - 1"
definition unmarshal_args_failure :: int where "unmarshal_args_failure = - 2"
definition unmarshal_reply_failure :: int where "unmarshal_reply_failure = - 3"
definition atmostonce_failure :: int where "atmostonce_failure = - 4"
definition oldsrv_failure :: int where "oldsrv_failure = - 5"
definition bind_failure :: int where "bind_failure = - 6"
definition cancel_failure :: int where "cancel_failure = - 7"

lemmas rpc_const_defs = rpc_bind_def timeout_failure_def unmarshal_args_failure_def
  unmarshal_reply_failure_def atmostonce_failure_def oldsrv_failure_def bind_failure_def
  cancel_failure_def

record reply_t =
  re_xid :: u32
  re_cb_present :: bool
  re_buf :: "cell list"
  re_sz :: int

definition reply_new :: "u32 \<Rightarrow> reply_t" where
  "reply_new xid = \<lparr>re_xid = xid, re_cb_present = False, re_buf = [], re_sz = 0\<rparr>"

datatype rpcstate = NEW | INPROGRESS | DONE "cell list" int | FORGOTTEN

type_synonym reply_window = "(u32, reply_t list) smap"

type_synonym 's handler = "unmarshall \<Rightarrow> marshall \<Rightarrow> 's \<Rightarrow> (int \<times> marshall \<times> 's) res"

text \<open>Connections are named by numbers; 0 is the null pointer.\<close>

record 's rpcs =
  rs_nonce :: u32
  rs_reply_window :: reply_window
  rs_conns :: "(u32, nat) smap"
  rs_counting :: int
  rs_curr_counts :: int
  rs_counts :: "(u32, int) smap"
  rs_reachable :: bool
  rs_procs :: "(u32, 's handler) smap"
  rs_heap :: "nat \<Rightarrow> connection option"
  rs_sent :: "(nat \<times> cell list \<times> int) list"
  rs_app :: 's

subsection \<open>The reply window\<close>

text \<open>The window of one client. The search for \<open>xid\<close> stops before the end of the list
  because the last entry is not smaller.\<close>

definition check_window :: "u32 \<Rightarrow> u32 \<Rightarrow> reply_t list \<Rightarrow> rpcstate \<times> reply_t list" where
  "check_window xid xid_rep w0 =
     (let w = dropWhile (\<lambda>r. re_xid r < xid_rep) w0
      in if w = [] \<or> re_xid (last w) < xid then (NEW, w @ [reply_new xid])
         else if re_xid (hd w) > xid then (FORGOTTEN, w)
         else case dropWhile (\<lambda>r. re_xid r < xid) w of
             [] \<Rightarrow> (FORGOTTEN, w)
           | it # rest \<Rightarrow>
               if re_xid it = xid then
                 (if re_cb_present it then DONE (re_buf it) (re_sz it) else INPROGRESS, w)
               else (NEW, takeWhile (\<lambda>r. re_xid r < xid) w @ reply_new xid # it # rest))"

definition checkduplicate_and_update :: "u32 \<Rightarrow> u32 \<Rightarrow> u32 \<Rightarrow> reply_window
    \<Rightarrow> rpcstate \<times> reply_window" where
  "checkduplicate_and_update clt_nonce xid xid_rep rw =
     (let (w, rw) = smap_index [] clt_nonce rw; (st, w) = check_window xid xid_rep w
      in (st, smap_set clt_nonce w rw))"

text \<open>The entry of a request that is no longer in the window is written through the end iterator.\<close>

fun set_reply :: "u32 \<Rightarrow> cell list \<Rightarrow> int \<Rightarrow> reply_t list \<Rightarrow> reply_t list res" where
  "set_reply xid b sz [] = Inl Undefined_behaviour"
| "set_reply xid b sz (r # w) =
     (if re_xid r \<noteq> xid then res_bind (set_reply xid b sz w) (\<lambda>w. Inr (r # w))
      else Inr (r\<lparr>re_buf := b, re_sz := sz, re_cb_present := True\<rparr> # w))"

definition add_reply :: "u32 \<Rightarrow> u32 \<Rightarrow> cell list \<Rightarrow> int \<Rightarrow> reply_window \<Rightarrow> reply_window res" where
  "add_reply clt_nonce xid b sz rw =
     (let (w, rw) = smap_index [] clt_nonce rw
      in res_bind (set_reply xid b sz w) (\<lambda>w. Inr (smap_set clt_nonce w rw)))"

definition free_reply_window :: "reply_window \<Rightarrow> reply_window" where
  "free_reply_window rw = []"

subsection \<open>Registration\<close>

definition rpcs_reg1 :: "u32 \<Rightarrow> 's handler \<Rightarrow> 's rpcs \<Rightarrow> 's rpcs res" where
  "rpcs_reg1 proc h rs =
     (if smap_has proc (rs_procs rs) then Inl Verify_failed
      else Inr (rs\<lparr>rs_procs := smap_set proc h (rs_procs rs)\<rparr>))"

text \<open>
  The handler objects that the templates \<^verbatim>\<open>rpcs::reg\<close> create: read the arguments, refuse
  them unless the whole message has been consumed, call the method, marshal the result.
\<close>

definition reg_h1 :: "(unmarshall \<Rightarrow> 'a \<times> unmarshall) \<Rightarrow> ('r \<Rightarrow> marshall \<Rightarrow> marshall)
    \<Rightarrow> ('a \<Rightarrow> 's \<Rightarrow> (int \<times> 'r \<times> 's) res) \<Rightarrow> 's handler" where
  "reg_h1 get1 putr meth args ret s =
     (let (a1, args) = get1 args
      in if \<not> okdone args then Inr (unmarshal_args_failure, ret, s)
         else res_bind (meth a1 s) (\<lambda>(b, r, s). Inr (b, putr r ret, s)))"

definition reg_h2 :: "(unmarshall \<Rightarrow> 'a \<times> unmarshall) \<Rightarrow> (unmarshall \<Rightarrow> 'b \<times> unmarshall)
    \<Rightarrow> ('r \<Rightarrow> marshall \<Rightarrow> marshall) \<Rightarrow> ('a \<Rightarrow> 'b \<Rightarrow> 's \<Rightarrow> (int \<times> 'r \<times> 's) res) \<Rightarrow> 's handler" where
  "reg_h2 get1 get2 putr meth args ret s =
     (let (a1, args) = get1 args; (a2, args) = get2 args
      in if \<not> okdone args then Inr (unmarshal_args_failure, ret, s)
         else res_bind (meth a1 a2 s) (\<lambda>(b, r, s). Inr (b, putr r ret, s)))"

definition reg_h3 :: "(unmarshall \<Rightarrow> 'a \<times> unmarshall) \<Rightarrow> (unmarshall \<Rightarrow> 'b \<times> unmarshall)
    \<Rightarrow> (unmarshall \<Rightarrow> 'c \<times> unmarshall) \<Rightarrow> ('r \<Rightarrow> marshall \<Rightarrow> marshall)
    \<Rightarrow> ('a \<Rightarrow> 'b \<Rightarrow> 'c \<Rightarrow> 's \<Rightarrow> (int \<times> 'r \<times> 's) res) \<Rightarrow> 's handler" where
  "reg_h3 get1 get2 get3 putr meth args ret s =
     (let (a1, args) = get1 args; (a2, args) = get2 args; (a3, args) = get3 args
      in if \<not> okdone args then Inr (unmarshal_args_failure, ret, s)
         else res_bind (meth a1 a2 a3 s) (\<lambda>(b, r, s). Inr (b, putr r ret, s)))"

definition reg_h4 :: "(unmarshall \<Rightarrow> 'a \<times> unmarshall) \<Rightarrow> (unmarshall \<Rightarrow> 'b \<times> unmarshall)
    \<Rightarrow> (unmarshall \<Rightarrow> 'c \<times> unmarshall) \<Rightarrow> (unmarshall \<Rightarrow> 'd \<times> unmarshall)
    \<Rightarrow> ('r \<Rightarrow> marshall \<Rightarrow> marshall)
    \<Rightarrow> ('a \<Rightarrow> 'b \<Rightarrow> 'c \<Rightarrow> 'd \<Rightarrow> 's \<Rightarrow> (int \<times> 'r \<times> 's) res) \<Rightarrow> 's handler" where
  "reg_h4 get1 get2 get3 get4 putr meth args ret s =
     (let (a1, args) = get1 args; (a2, args) = get2 args; (a3, args) = get3 args;
          (a4, args) = get4 args
      in if \<not> okdone args then Inr (unmarshal_args_failure, ret, s)
         else res_bind (meth a1 a2 a3 a4 s) (\<lambda>(b, r, s). Inr (b, putr r ret, s)))"

text \<open>\<^verbatim>\<open>rpcs::rpcbind\<close>, the handler every server registers: it returns the nonce.\<close>

definition rpcbind :: "u32 \<Rightarrow> u32 \<Rightarrow> 's \<Rightarrow> (int \<times> u32 \<times> 's) res" where
  "rpcbind nonce a s = Inr (0, nonce, s)"

definition rpcs_new :: "u32 \<Rightarrow> int \<Rightarrow> 's \<Rightarrow> 's rpcs" where
  "rpcs_new nonce count s = \<lparr>rs_nonce = nonce, rs_reply_window = [], rs_conns = [],
     rs_counting = count, rs_curr_counts = count, rs_counts = [], rs_reachable = True,
     rs_procs = [(rpc_bind, reg_h1 get_uint put_uint (rpcbind nonce))],
     rs_heap = (\<lambda>_. None), rs_sent = [], rs_app = s\<rparr>"

subsection \<open>Dispatch\<close>

definition conn_incref :: "nat \<Rightarrow> 's rpcs \<Rightarrow> 's rpcs res" where
  "conn_incref c rs = (case rs_heap rs c of None \<Rightarrow> Inl Undefined_behaviour
     | Some x \<Rightarrow> Inr (rs\<lparr>rs_heap := (rs_heap rs)(c := Some (incref x))\<rparr>))"

definition conn_decref :: "nat \<Rightarrow> 's rpcs \<Rightarrow> 's rpcs res" where
  "conn_decref c rs = (case rs_heap rs c of None \<Rightarrow> Inl Undefined_behaviour
     | Some x \<Rightarrow> res_bind (decref x) (\<lambda>y. Inr (rs\<lparr>rs_heap := (rs_heap rs)(c := y)\<rparr>)))"

definition conn_send :: "nat \<Rightarrow> cell list \<Rightarrow> int \<Rightarrow> 's rpcs \<Rightarrow> 's rpcs res" where
  "conn_send c b sz rs = (if rs_heap rs c = None then Inl Undefined_behaviour
     else Inr (rs\<lparr>rs_sent := rs_sent rs @ [(c, b, sz)]\<rparr>))"

definition updatestat :: "u32 \<Rightarrow> 's rpcs \<Rightarrow> 's rpcs" where
  "updatestat proc rs =
     (let rs = rs\<lparr>rs_counts := smap_set proc (smap_val 0 proc (rs_counts rs) + 1) (rs_counts rs),
            rs_curr_counts := rs_curr_counts rs - 1\<rparr>
      in if rs_curr_counts rs = 0 then rs\<lparr>rs_curr_counts := rs_counting rs\<rparr> else rs)"

text \<open>\<open>succ\<close> is what the thread pool answers: it may be full. The job is run by \<open>dispatch\<close>.\<close>

definition rpcs_got_pdu :: "nat \<Rightarrow> bool \<Rightarrow> 's rpcs \<Rightarrow> (bool \<times> bool \<times> 's rpcs) res" where
  "rpcs_got_pdu c succ rs =
     (if \<not> rs_reachable rs then Inr (True, False, rs)
      else res_bind (conn_incref c rs)
        (\<lambda>rs. if \<not> succ \<or> \<not> rs_reachable rs
           then res_bind (conn_decref c rs) (\<lambda>rs. Inr (succ, False, rs))
           else Inr (succ, True, rs)))"

text \<open>Save the latest connection to the client.\<close>

definition save_conn :: "u32 \<Rightarrow> nat \<Rightarrow> 's rpcs \<Rightarrow> 's rpcs res" where
  "save_conn clt_nonce c rs =
     (case map_of (rs_conns rs) clt_nonce of
        None \<Rightarrow> res_bind (conn_incref c rs)
          (\<lambda>rs. Inr (rs\<lparr>rs_conns := smap_set clt_nonce c (rs_conns rs)\<rparr>))
      | Some d \<Rightarrow>
          (case (rs_heap rs d, rs_heap rs c) of
             (Some x, Some y) \<Rightarrow>
               if conn_compare x y < 0 then
                 res_bind (conn_decref d rs) (\<lambda>rs. res_bind (conn_incref c rs)
                   (\<lambda>rs. Inr (rs\<lparr>rs_conns := smap_set clt_nonce c (rs_conns rs)\<rparr>)))
               else Inr rs
           | _ \<Rightarrow> Inl Undefined_behaviour))"

definition failure_reply :: "u32 \<Rightarrow> int \<Rightarrow> marshall" where
  "failure_reply xid ret = pack_reply_header \<lparr>rp_xid = xid, rp_ret = word_of_int ret\<rparr> marshall_new"

text \<open>A call whose handler runs: the connection, the header, the argument reader, the handler.\<close>

type_synonym 's call = "nat \<times> req_header \<times> unmarshall \<times> 's handler"

text \<open>The switch over the classification of a request, up to the call of the handler.\<close>

definition dispatch_switch :: "nat \<Rightarrow> req_header \<Rightarrow> unmarshall \<Rightarrow> 's handler \<Rightarrow> rpcstate \<Rightarrow> 's rpcs
    \<Rightarrow> ('s call option \<times> 's rpcs) res" where
  "dispatch_switch c h req f st rs =
     (let finish = (\<lambda>rs. res_bind (conn_decref c rs) (\<lambda>rs. Inr (None, rs)))
      in case st of
           NEW \<Rightarrow> Inr (Some (c, h, req, f), rs)
         | INPROGRESS \<Rightarrow> finish rs
         | DONE b1 sz1 \<Rightarrow> res_bind (conn_send c b1 sz1 rs) finish
         | FORGOTTEN \<Rightarrow>
             (let rep = failure_reply (rq_xid h) atmostonce_failure
              in res_bind (conn_send c (m_buf rep) (int (m_ind rep)) rs) finish))"

text \<open>From the arrival of the request to the classification of its XID.\<close>

definition dispatch_enter :: "nat \<Rightarrow> cell list \<Rightarrow> 's rpcs \<Rightarrow> ('s call option \<times> 's rpcs) res" where
  "dispatch_enter c b rs =
     (let (h, req) = unpack_req_header (unmarshall_buf b)
      in if \<not> u_ok req then res_bind (conn_decref c rs) (\<lambda>rs. Inr (None, rs))
         else if rq_srv_nonce h \<noteq> 0 \<and> rq_srv_nonce h \<noteq> rs_nonce rs then
           (let rep = failure_reply (rq_xid h) oldsrv_failure
            in res_bind (conn_send c (m_buf rep) (int (m_ind rep)) rs) (\<lambda>rs. Inr (None, rs)))
         else case map_of (rs_procs rs) (rq_proc h) of
             None \<Rightarrow> Inl Verify_failed
           | Some f \<Rightarrow>
               if rq_clt_nonce h \<noteq> 0 then
                 (let rs = rs\<lparr>rs_reply_window := snd (smap_index [] (rq_clt_nonce h) (rs_reply_window rs))\<rparr>
                  in res_bind (save_conn (rq_clt_nonce h) c rs)
                  (\<lambda>rs. let (st, rw) = checkduplicate_and_update (rq_clt_nonce h) (rq_xid h)
                            (rq_xid_rep h) (rs_reply_window rs)
                      in dispatch_switch c h req f st (rs\<lparr>rs_reply_window := rw\<rparr>)))
               else dispatch_switch c h req f NEW rs)"

text \<open>The handler has returned \<open>ret\<close> and filled \<open>rep\<close>: record the reply and send it on the
  latest connection to the client.\<close>

definition dispatch_finish :: "nat \<Rightarrow> req_header \<Rightarrow> int \<Rightarrow> marshall \<Rightarrow> 's rpcs \<Rightarrow> 's rpcs res" where
  "dispatch_finish c h ret rep rs =
     (if ret < 0 then Inl Verify_failed
      else let rep = pack_reply_header \<lparr>rp_xid = rq_xid h, rp_ret = word_of_int ret\<rparr> rep;
               b1 = m_buf rep; sz1 = int (m_ind rep)
       in res_bind
         (if rq_clt_nonce h > 0 then
            res_bind (add_reply (rq_clt_nonce h) (rq_xid h) b1 sz1 (rs_reply_window rs))
              (\<lambda>rw. Inr (rs\<lparr>rs_reply_window := rw\<rparr>))
          else Inr rs)
         (\<lambda>rs. case rs_heap rs c of
             None \<Rightarrow> Inl Undefined_behaviour
           | Some x \<Rightarrow>
               res_bind
                 (if c_dead x then
                    (let (d, conns) = smap_index 0 (rq_clt_nonce h) (rs_conns rs);
                         rs = rs\<lparr>rs_conns := conns\<rparr>
                     in if c \<noteq> d then
                          res_bind (conn_decref c rs)
                            (\<lambda>rs. res_bind (conn_incref d rs) (\<lambda>rs. Inr (d, rs)))
                        else Inr (c, rs))
                  else Inr (c, rs))
                 (\<lambda>(c, rs). res_bind (conn_send c b1 sz1 rs) (conn_decref c))))"

definition run_handler :: "'s call \<Rightarrow> 's rpcs \<Rightarrow> 's rpcs res" where
  "run_handler k rs =
     (case k of (c, h, req, f) \<Rightarrow>
        (let rs = (if rs_counting rs \<noteq> 0 then updatestat (rq_proc h) rs else rs)
         in res_bind (f req marshall_new (rs_app rs))
           (\<lambda>(ret, rep, s). dispatch_finish c h ret rep (rs\<lparr>rs_app := s\<rparr>))))"

definition dispatch :: "nat \<Rightarrow> cell list \<Rightarrow> 's rpcs \<Rightarrow> 's rpcs res" where
  "dispatch c b rs = res_bind (dispatch_enter c b rs)
     (\<lambda>(k, rs). case k of None \<Rightarrow> Inr rs | Some k \<Rightarrow> run_handler k rs)"

subsection \<open>The contract of the reply window\<close>

text \<open>
  \<open>ok w S R\<close>: \<open>S\<close> is the set of XIDs that have been classified as new, \<open>R\<close> the replies
  that have been recorded. A filter never reports an XID of \<open>S\<close> as new again, and what it
  reports as done is the recorded reply.
\<close>

locale reply_filter =
  fixes check :: "u32 \<Rightarrow> u32 \<Rightarrow> 'w \<Rightarrow> rpcstate \<times> 'w"
    and reply :: "u32 \<Rightarrow> cell list \<Rightarrow> int \<Rightarrow> 'w \<Rightarrow> 'w res"
    and ok :: "'w \<Rightarrow> u32 set \<Rightarrow> (u32 \<rightharpoonup> cell list \<times> int) \<Rightarrow> bool"
  assumes check_new: "ok w S R \<Longrightarrow> xid_rep < xid \<Longrightarrow> check xid xid_rep w = (NEW, w') \<Longrightarrow>
      xid \<notin> S \<and> ok w' (insert xid S) R"
    and check_old: "ok w S R \<Longrightarrow> xid_rep < xid \<Longrightarrow> check xid xid_rep w = (st, w') \<Longrightarrow> st \<noteq> NEW \<Longrightarrow>
      ok w' S R"
    and check_done: "ok w S R \<Longrightarrow> xid_rep < xid \<Longrightarrow> check xid xid_rep w = (DONE b sz, w') \<Longrightarrow>
      R xid = Some (b, sz)"
    and reply_ok: "ok w S R \<Longrightarrow> xid \<in> S \<Longrightarrow> reply xid b sz w = Inr w' \<Longrightarrow>
      ok w' S (R(xid \<mapsto> (b, sz)))"
begin

lemma check_ok:
  "ok w S R \<Longrightarrow> xid_rep < xid \<Longrightarrow> check xid xid_rep w = (st, w') \<Longrightarrow>
   ok w' (if st = NEW then insert xid S else S) R"
  using check_new check_old by auto

lemma check_seen:
  "ok w S R \<Longrightarrow> xid_rep < xid \<Longrightarrow> xid \<in> S \<Longrightarrow> fst (check xid xid_rep w) \<noteq> NEW"
  using check_new [of w S R xid_rep xid "snd (check xid xid_rep w)"] by (metis prod.collapse)

end

definition xids :: "reply_t list \<Rightarrow> u32 list" where
  "xids w = map re_xid w"

definition window_ok :: "reply_t list \<Rightarrow> u32 set \<Rightarrow> (u32 \<rightharpoonup> cell list \<times> int) \<Rightarrow> bool" where
  "window_ok w S R \<longleftrightarrow> sorted_wrt (<) (xids w) \<and>
     (\<forall>x \<in> S. x \<in> set (xids w) \<or> (w \<noteq> [] \<and> x < re_xid (hd w))) \<and>
     set (xids w) \<subseteq> S \<and>
     (\<forall>r \<in> set w. re_cb_present r \<longrightarrow> R (re_xid r) = Some (re_buf r, re_sz r))"

lemma window_ok_Nil [simp]: "window_ok [] S R \<longleftrightarrow> S = {}"
  by (auto simp: window_ok_def xids_def)

lemma re_xid_reply_new [simp]: "re_xid (reply_new x) = x" "\<not> re_cb_present (reply_new x)"
  by (simp_all add: reply_new_def)

lemma sorted_wrt_split:
  assumes "sorted_wrt (<) (xids w)" "\<exists>r \<in> set w. xid \<le> re_xid r"
  obtains it rest where "dropWhile (\<lambda>r. re_xid r < xid) w = it # rest" "xid \<le> re_xid it"
    "\<forall>r \<in> set (takeWhile (\<lambda>r. re_xid r < xid) w). re_xid r < xid"
    "\<forall>r \<in> set rest. re_xid it < re_xid r"
    "w = takeWhile (\<lambda>r. re_xid r < xid) w @ it # rest"
proof -
  have ne: "dropWhile (\<lambda>r. re_xid r < xid) w \<noteq> []" using assms(2) by (auto simp: not_less)
  then obtain it rest where d: "dropWhile (\<lambda>r. re_xid r < xid) w = it # rest"
    by (cases "dropWhile (\<lambda>r. re_xid r < xid) w") auto
  have w: "w = takeWhile (\<lambda>r. re_xid r < xid) w @ it # rest"
    using takeWhile_dropWhile_id [of "\<lambda>r. re_xid r < xid" w] d by simp
  have "xid \<le> re_xid it" using hd_dropWhile [OF ne] d by simp
  moreover have "\<forall>r \<in> set rest. re_xid it < re_xid r"
    using assms(1) by (subst (asm) w) (auto simp: xids_def sorted_wrt_append)
  ultimately show ?thesis using that d w by (auto dest: set_takeWhileD)
qed

text \<open>Dropping entries from the front keeps the invariant as long as something is left.\<close>

lemma window_ok_suffix:
  assumes "window_ok (t @ d) S R" "d \<noteq> []"
  shows "window_ok d (set (xids d)) R"
    and "\<forall>x \<in> S. x \<in> set (xids d) \<or> x < re_xid (hd d)" "set (xids d) \<subseteq> S"
proof -
  have s: "\<forall>x \<in> set (xids t). \<forall>y \<in> set (xids d). x < y" "sorted_wrt (<) (xids d)"
    using assms(1) by (auto simp: window_ok_def xids_def sorted_wrt_append)
  show "window_ok d (set (xids d)) R" "set (xids d) \<subseteq> S"
    using assms(1) s by (auto simp: window_ok_def xids_def)
  have "re_xid (hd d) \<in> set (xids d)" using assms(2) by (simp add: xids_def)
  then have lt: "\<forall>x \<in> set (xids t). x < re_xid (hd d)" using s(1) by blast
  then show "\<forall>x \<in> S. x \<in> set (xids d) \<or> x < re_xid (hd d)"
    using assms(1) by (cases t) (auto simp: window_ok_def xids_def dest: less_trans)
qed

lemma window_ok_shrink:
  assumes "window_ok w S R" "d = dropWhile (\<lambda>r. re_xid r < a) w" "d \<noteq> []"
  shows "window_ok d S R"
proof -
  have "window_ok (takeWhile (\<lambda>r. re_xid r < a) w @ d) S R" using assms(1,2) by simp
  from window_ok_suffix [OF this assms(3)] assms(3) show ?thesis by (auto simp: window_ok_def)
qed

text \<open>Inserting a new XID between smaller and larger ones.\<close>

lemma window_ok_insert:
  assumes "window_ok (u @ v) S R" "\<forall>r \<in> set u. re_xid r < xid" "\<forall>r \<in> set v. xid < re_xid r"
    "u = [] \<longrightarrow> (\<forall>x \<in> S. x < xid)"
  shows "window_ok (u @ reply_new xid # v) (insert xid S) R"
  using assms
  by (cases u) (auto simp: window_ok_def xids_def sorted_wrt_append dest: less_trans)

lemma window_ok_single:
  "\<forall>x \<in> S. x < xid \<Longrightarrow> window_ok [reply_new xid] (insert xid S) R"
  by (auto simp: window_ok_def xids_def)

lemma window_ok_last:
  "window_ok w S R \<Longrightarrow> r \<in> set w \<Longrightarrow> re_xid r \<le> re_xid (last w)"
  by (induction w rule: rev_induct) (auto simp: window_ok_def xids_def sorted_wrt_append less_imp_le)

lemma window_ok_hd:
  "window_ok w S R \<Longrightarrow> x \<in> S \<Longrightarrow> x \<notin> set (xids w) \<Longrightarrow> w \<noteq> [] \<and> x < re_xid (hd w)"
  by (auto simp: window_ok_def)

definition verdict_ok :: "u32 \<Rightarrow> u32 set \<Rightarrow> (u32 \<rightharpoonup> cell list \<times> int) \<Rightarrow> rpcstate \<times> reply_t list \<Rightarrow> bool" where
  "verdict_ok xid S R v \<longleftrightarrow>
     (case v of
        (NEW, w) \<Rightarrow> xid \<notin> S \<and> window_ok w (insert xid S) R
      | (DONE b sz, w) \<Rightarrow> R xid = Some (b, sz) \<and> window_ok w S R
      | (_, w) \<Rightarrow> window_ok w S R)"

lemma check_window_find:
  assumes "window_ok d S R" "d \<noteq> []" "\<not> re_xid (last d) < xid" "\<not> re_xid (hd d) > xid"
  shows "verdict_ok xid S R (case dropWhile (\<lambda>r. re_xid r < xid) d of [] \<Rightarrow> (FORGOTTEN, d)
     | it # rest \<Rightarrow> if re_xid it = xid then
         (if re_cb_present it then DONE (re_buf it) (re_sz it) else INPROGRESS, d)
       else (NEW, takeWhile (\<lambda>r. re_xid r < xid) d @ reply_new xid # it # rest))"
proof -
  let ?u = "takeWhile (\<lambda>r. re_xid r < xid) d"
  have "sorted_wrt (<) (xids d)" "\<exists>r \<in> set d. xid \<le> re_xid r"
    using assms(1-3) by (auto simp: window_ok_def not_less intro: bexI [of _ "last d"])
  then obtain it rest where it: "dropWhile (\<lambda>r. re_xid r < xid) d = it # rest" "xid \<le> re_xid it"
    "\<forall>r \<in> set ?u. re_xid r < xid" "\<forall>r \<in> set rest. re_xid it < re_xid r" "d = ?u @ it # rest"
    by (rule sorted_wrt_split)
  have mem: "it \<in> set d" using it(5) by (metis in_set_conv_decomp)
  show ?thesis
  proof (cases "re_xid it = xid")
    case True
    then show ?thesis using it(1) mem assms(1) by (auto simp: verdict_ok_def window_ok_def)
  next
    case False
    then have lt: "\<forall>r \<in> set (it # rest). xid < re_xid r" using it(2,4) by (auto dest: less_trans)
    have u: "?u \<noteq> []" using it(5) assms(4) lt by (metis append_Nil list.sel(1) list.set_intros(1))
    have "xid \<notin> re_xid ` set (?u @ it # rest)" using it(3) lt by auto
    then have "xid \<notin> set (xids d)" using it(5) by (simp add: xids_def)
    then have "xid \<notin> S" using window_ok_hd [OF assms(1)] assms(4) by blast
    moreover have "window_ok (?u @ reply_new xid # it # rest) (insert xid S) R"
      using assms(1) it(3,5) lt u by (intro window_ok_insert) auto
    ultimately show ?thesis using it(1) False by (simp add: verdict_ok_def)
  qed
qed

lemma check_window_ok:
  assumes "window_ok w S R" "xid_rep < xid"
  shows "verdict_ok xid S R (check_window xid xid_rep w)"
proof -
  define d where "d = dropWhile (\<lambda>r. re_xid r < xid_rep) w"
  show ?thesis
  proof (cases "d = []")
    case True
    then have "\<forall>r \<in> set w. re_xid r < xid_rep" by (simp add: d_def)
    then have "\<forall>x \<in> S. x < xid"
      using assms by (cases w) (fastforce simp: window_ok_def xids_def)+
    then show ?thesis using True window_ok_single
      by (auto simp: check_window_def d_def [symmetric] verdict_ok_def)
  next
    case ne: False
    have d: "window_ok d S R" using window_ok_shrink [OF assms(1) d_def ne] .
    consider "re_xid (last d) < xid" | "\<not> re_xid (last d) < xid" "re_xid (hd d) > xid"
      | "\<not> re_xid (last d) < xid" "\<not> re_xid (hd d) > xid" by blast
    then show ?thesis
    proof cases
      case 1
      then have lt: "\<forall>r \<in> set d. re_xid r < xid" using window_ok_last [OF d] by (auto intro: le_less_trans)
      then have "xid \<notin> set (xids d)" "\<not> xid < re_xid (hd d)"
        using ne by (auto simp: xids_def dest: less_asym)
      then have "xid \<notin> S" using window_ok_hd [OF d] by blast
      moreover have "window_ok (d @ [reply_new xid]) (insert xid S) R"
        using d lt ne by (intro window_ok_insert [of d "[]"]) auto
      ultimately show ?thesis using 1 by (simp add: check_window_def d_def [symmetric] verdict_ok_def)
    next
      case 2
      then show ?thesis using ne d
        by (simp add: check_window_def d_def [symmetric] verdict_ok_def)
    next
      case 3
      then show ?thesis using ne check_window_find [OF d ne 3]
        by (simp add: check_window_def d_def [symmetric])
    qed
  qed
qed

lemma set_reply_xids:
  "set_reply xid b sz w = Inr w' \<Longrightarrow> xids w' = xids w \<and> (w \<noteq> [] \<longrightarrow> re_xid (hd w') = re_xid (hd w))"
  by (induction w arbitrary: w') (auto simp: xids_def res_bind_Inr split: if_splits)

lemma set_reply_entries:
  assumes "set_reply xid b sz w = Inr w'" "distinct (xids w)" "r \<in> set w'"
  shows "r \<in> set w \<and> re_xid r \<noteq> xid \<or> re_xid r = xid \<and> re_buf r = b \<and> re_sz r = sz"
  using assms
proof (induction w arbitrary: w')
  case (Cons a w)
  show ?case
  proof (cases "re_xid a = xid")
    case True
    then have "w' = a\<lparr>re_buf := b, re_sz := sz, re_cb_present := True\<rparr> # w" using Cons.prems(1) by simp
    then show ?thesis using Cons.prems(2,3) True by (auto simp: xids_def) (metis imageI)+
  next
    case False
    then obtain v where "set_reply xid b sz w = Inr v" "w' = a # v"
      using Cons.prems(1) by (auto simp: res_bind_Inr)
    then show ?thesis using Cons.IH [of v] Cons.prems(2,3) False by (auto simp: xids_def)
  qed
qed simp

interpretation rw: reply_filter check_window set_reply window_ok
proof unfold_locales
  fix w S R and xid_rep xid :: u32 and w'
  assume "window_ok w S R" "xid_rep < xid" "check_window xid xid_rep w = (NEW, w')"
  then show "xid \<notin> S \<and> window_ok w' (insert xid S) R"
    using check_window_ok [of w S R xid_rep xid] by (simp add: verdict_ok_def)
next
  fix w S R and xid_rep xid :: u32 and st w'
  assume "window_ok w S R" "xid_rep < xid" "check_window xid xid_rep w = (st, w')" "st \<noteq> NEW"
  then show "window_ok w' S R"
    using check_window_ok [of w S R xid_rep xid] by (cases st) (auto simp: verdict_ok_def)
next
  fix w S R and xid_rep xid :: u32 and b sz w'
  assume "window_ok w S R" "xid_rep < xid" "check_window xid xid_rep w = (DONE b sz, w')"
  then show "R xid = Some (b, sz)"
    using check_window_ok [of w S R xid_rep xid] by (simp add: verdict_ok_def)
next
  fix w S R and xid :: u32 and b sz w'
  assume w: "window_ok w S R" "xid \<in> S" "set_reply xid b sz w = Inr w'"
  have "distinct (xids w)" using w(1) by (simp add: window_ok_def strict_sorted_iff)
  then have "\<forall>r \<in> set w'. re_cb_present r \<longrightarrow> (R(xid \<mapsto> (b, sz))) (re_xid r) = Some (re_buf r, re_sz r)"
    using set_reply_entries [OF w(3)] w(1) by (auto simp: window_ok_def)
  moreover have "w \<noteq> [] \<longleftrightarrow> w' \<noteq> []"
    using set_reply_xids [OF w(3)] by (auto simp: xids_def)
  ultimately show "window_ok w' S (R(xid \<mapsto> (b, sz)))"
    using w(1) set_reply_xids [OF w(3)] unfolding window_ok_def by metis
qed

subsection \<open>Interleaved dispatch\<close>

text \<open>
  The dispatch threads of a server. \<open>sv_running\<close> are the calls whose handler runs,
  \<open>sv_returned\<close> those whose handler has returned; \<open>sv_started\<close> lists every call for which
  a handler was started, \<open>sv_replies\<close> the replies recorded per client.
\<close>

record 's server =
  sv_rs :: "'s rpcs"
  sv_running :: "'s call list"
  sv_returned :: "(nat \<times> req_header \<times> int \<times> marshall) list"
  sv_started :: "(u32 \<times> u32) list"
  sv_replies :: "u32 \<Rightarrow> u32 \<rightharpoonup> cell list \<times> int"

definition request_of :: "cell list \<Rightarrow> req_header" where
  "request_of b = fst (unpack_req_header (unmarshall_buf b))"

text \<open>The client and the XID of a call.\<close>

definition call_id :: "'c \<times> req_header \<times> 'd \<Rightarrow> u32 \<times> u32" where
  "call_id x = (rq_clt_nonce (fst (snd x)), rq_xid (fst (snd x)))"

definition open_calls :: "'s server \<Rightarrow> (u32 \<times> u32) set" where
  "open_calls sv = call_id ` set (sv_running sv) \<union> call_id ` set (sv_returned sv)"

text \<open>The buffer a finished call sends and records.\<close>

definition reply_of :: "req_header \<Rightarrow> int \<Rightarrow> marshall \<Rightarrow> cell list \<times> int" where
  "reply_of h ret rep = (let rep = pack_reply_header \<lparr>rp_xid = rq_xid h, rp_ret = word_of_int ret\<rparr> rep
     in (m_buf rep, int (m_ind rep)))"

text \<open>
  What a client promises about its requests: it has not yet a reply to the call it makes, and,
  if \<open>strict\<close>, it acknowledges no call that the server is still working on.
\<close>

definition request_ok :: "bool \<Rightarrow> 's server \<Rightarrow> req_header \<Rightarrow> bool" where
  "request_ok strict sv h \<longleftrightarrow> rq_xid_rep h < rq_xid h \<and>
     (strict \<longrightarrow> (\<forall>xid. (rq_clt_nonce h, xid) \<in> open_calls sv \<longrightarrow> rq_xid_rep h \<le> xid))"

inductive server_step :: "bool \<Rightarrow> 's server \<Rightarrow> 's server \<Rightarrow> bool" for strict where
  step_enter: "server_step strict sv (sv\<lparr>sv_rs := rs', sv_running := k # sv_running sv,
      sv_started := (if rq_clt_nonce (request_of b) \<noteq> 0
        then (rq_clt_nonce (request_of b), rq_xid (request_of b)) # sv_started sv else sv_started sv)\<rparr>)"
  if "dispatch_enter c b (sv_rs sv) = Inr (Some k, rs')" "request_ok strict sv (request_of b)"
| step_answer: "server_step strict sv (sv\<lparr>sv_rs := rs'\<rparr>)"
  if "dispatch_enter c b (sv_rs sv) = Inr (None, rs')" "request_ok strict sv (request_of b)"
| step_handler: "server_step strict sv (sv\<lparr>sv_rs := rs\<lparr>rs_app := s\<rparr>,
      sv_running := remove1 (c, h, req, f) (sv_running sv),
      sv_returned := (c, h, ret, rep) # sv_returned sv\<rparr>)"
  if "(c, h, req, f) \<in> set (sv_running sv)"
    "rs = (if rs_counting (sv_rs sv) \<noteq> 0 then updatestat (rq_proc h) (sv_rs sv) else sv_rs sv)"
    "f req marshall_new (rs_app rs) = Inr (ret, rep, s)"
| step_finish: "server_step strict sv (sv\<lparr>sv_rs := rs',
      sv_returned := remove1 (c, h, ret, rep) (sv_returned sv),
      sv_replies := (sv_replies sv)(rq_clt_nonce h :=
        (sv_replies sv (rq_clt_nonce h))(rq_xid h \<mapsto> reply_of h ret rep))\<rparr>)"
  if "(c, h, ret, rep) \<in> set (sv_returned sv)"
    "dispatch_finish c h ret rep (sv_rs sv) = Inr rs'"
| step_connection: "server_step strict sv (sv\<lparr>sv_rs := (sv_rs sv)\<lparr>rs_heap := heap\<rparr>\<rparr>)"

definition server_new :: "'s rpcs \<Rightarrow> 's server" where
  "server_new rs = \<lparr>sv_rs = rs, sv_running = [], sv_returned = [], sv_started = [],
     sv_replies = (\<lambda>_ _. None)\<rparr>"

inductive server_reachable :: "bool \<Rightarrow> 's rpcs \<Rightarrow> 's server \<Rightarrow> bool" for strict rs where
  reach_new: "server_reachable strict rs (server_new rs)"
| reach_step: "server_reachable strict rs sv \<Longrightarrow> server_step strict sv sv' \<Longrightarrow>
    server_reachable strict rs sv'"

definition started :: "'s server \<Rightarrow> u32 \<Rightarrow> u32 set" where
  "started sv clt = {xid. (clt, xid) \<in> set (sv_started sv)}"

definition server_inv :: "'s server \<Rightarrow> bool" where
  "server_inv sv \<longleftrightarrow> distinct (sv_started sv) \<and> open_calls sv \<subseteq> set (sv_started sv) \<union> {0} \<times> UNIV \<and>
     (\<forall>clt. clt \<noteq> 0 \<longrightarrow>
        window_ok (smap_val [] clt (rs_reply_window (sv_rs sv))) (started sv clt) (sv_replies sv clt))"

text \<open>What a request may change besides the reply window.\<close>

lemma conn_ops_frame:
  "conn_incref c rs = Inr rs' \<Longrightarrow> \<exists>hp. rs' = rs\<lparr>rs_heap := hp\<rparr>"
  "conn_decref c rs = Inr rs' \<Longrightarrow> \<exists>hp. rs' = rs\<lparr>rs_heap := hp\<rparr>"
  "conn_send c b sz rs = Inr rs' \<Longrightarrow> rs' = rs\<lparr>rs_sent := rs_sent rs @ [(c, b, sz)]\<rparr>"
  by (auto simp: conn_incref_def conn_decref_def conn_send_def res_bind_Inr split: option.splits if_splits)

lemma save_conn_frame:
  "save_conn clt c rs = Inr rs' \<Longrightarrow> rs_reply_window rs' = rs_reply_window rs \<and>
     rs_app rs' = rs_app rs \<and> rs_sent rs' = rs_sent rs"
  by (auto simp: save_conn_def res_bind_Inr split: option.splits if_splits dest!: conn_ops_frame)

text \<open>What the server sends on the connection of a request it does not run.\<close>

definition answers :: "u32 \<Rightarrow> rpcstate \<Rightarrow> (cell list \<times> int) list" where
  "answers xid st = (case st of
     DONE b sz \<Rightarrow> [(b, sz)]
   | FORGOTTEN \<Rightarrow> (let rep = failure_reply xid atmostonce_failure in [(m_buf rep, int (m_ind rep))])
   | _ \<Rightarrow> [])"

lemma checkduplicate_eq:
  "check_window xid xid_rep (smap_val [] clt rw) = (st, w) \<Longrightarrow>
   checkduplicate_and_update clt xid xid_rep rw = (st, smap_set clt w (snd (smap_index [] clt rw)))"
  by (simp add: checkduplicate_and_update_def split_beta)

lemma dispatch_switch_frame:
  assumes "dispatch_switch c h req f st rs = Inr (k, rs')"
  shows "k = (if st = NEW then Some (c, h, req, f) else None)" "rs_app rs' = rs_app rs"
    "rs_reply_window rs' = rs_reply_window rs"
    "rs_sent rs' = rs_sent rs @ map (\<lambda>(b, sz). (c, b, sz)) (answers (rq_xid h) st)"
  using assms
  by (cases st; auto simp: dispatch_switch_def res_bind_Inr answers_def Let_def dest!: conn_ops_frame)+

lemma dispatch_enter_cases:
  assumes "dispatch_enter c b rs = Inr (k, rs')" and h: "h = request_of b"
  obtains (refused) "k = None" "rs_reply_window rs' = rs_reply_window rs" "rs_app rs' = rs_app rs"
      "rq_srv_nonce h \<noteq> 0 \<and> rq_srv_nonce h \<noteq> rs_nonce rs \<or> \<not> u_ok (snd (unpack_req_header (unmarshall_buf b)))"
  | (unfiltered) req f where "rq_clt_nonce h = 0" "k = Some (c, h, req, f)" "rs' = rs"
  | (checked) st w' req f where "rq_clt_nonce h \<noteq> 0"
      "check_window (rq_xid h) (rq_xid_rep h) (smap_val [] (rq_clt_nonce h) (rs_reply_window rs)) = (st, w')"
      "\<And>clt. smap_val [] clt (rs_reply_window rs')
         = (if clt = rq_clt_nonce h then w' else smap_val [] clt (rs_reply_window rs))"
      "k = (if st = NEW then Some (c, h, req, f) else None)" "rs_app rs' = rs_app rs"
      "rs_sent rs' = rs_sent rs @ map (\<lambda>(b, sz). (c, b, sz)) (answers (rq_xid h) st)"
proof -
  obtain req where u: "unpack_req_header (unmarshall_buf b) = (h, req)"
    using h by (cases "unpack_req_header (unmarshall_buf b)") (auto simp: request_of_def)
  consider "\<not> u_ok req" | "u_ok req" "rq_srv_nonce h \<noteq> 0 \<and> rq_srv_nonce h \<noteq> rs_nonce rs"
    | "u_ok req" "\<not> (rq_srv_nonce h \<noteq> 0 \<and> rq_srv_nonce h \<noteq> rs_nonce rs)" "rq_clt_nonce h = 0"
    | "u_ok req" "\<not> (rq_srv_nonce h \<noteq> 0 \<and> rq_srv_nonce h \<noteq> rs_nonce rs)" "rq_clt_nonce h \<noteq> 0"
    by blast
  then show ?thesis
  proof cases
    case 1
    with assms(1) show ?thesis by (intro refused)
        (auto simp: dispatch_enter_def u res_bind_Inr dest!: conn_ops_frame)
  next
    case 2
    with assms(1) show ?thesis by (intro refused)
        (auto simp: dispatch_enter_def u res_bind_Inr Let_def dest!: conn_ops_frame)
  next
    case 3
    with assms(1) show ?thesis
      by (auto simp: dispatch_enter_def u dispatch_switch_def split: option.splits intro: unfiltered)
  next
    case 4
    let ?w = "smap_val [] (rq_clt_nonce h) (rs_reply_window rs)"
    obtain st w' where cw: "check_window (rq_xid h) (rq_xid_rep h) ?w = (st, w')" by fastforce
    obtain f where f: "map_of (rs_procs rs) (rq_proc h) = Some f"
      using assms(1) 4 by (auto simp: dispatch_enter_def u Let_def split: option.splits)
    let ?rs = "rs\<lparr>rs_reply_window := snd (smap_index [] (rq_clt_nonce h) (rs_reply_window rs))\<rparr>"
    obtain rs1 where rs1: "save_conn (rq_clt_nonce h) c ?rs = Inr rs1"
      "(let (st, rw) = checkduplicate_and_update (rq_clt_nonce h) (rq_xid h) (rq_xid_rep h)
              (rs_reply_window rs1)
        in dispatch_switch c h req f st (rs1\<lparr>rs_reply_window := rw\<rparr>)) = Inr (k, rs')"
      using assms(1) 4 f by (auto simp: dispatch_enter_def u res_bind_Inr)
    have fr: "rs_reply_window rs1 = rs_reply_window ?rs" "rs_app rs1 = rs_app rs" "rs_sent rs1 = rs_sent rs"
      using save_conn_frame [OF rs1(1)] by simp_all
    let ?rw = "smap_set (rq_clt_nonce h) w' (snd (smap_index [] (rq_clt_nonce h) (rs_reply_window rs1)))"
    have "checkduplicate_and_update (rq_clt_nonce h) (rq_xid h) (rq_xid_rep h) (rs_reply_window rs1)
        = (st, ?rw)"
      using cw fr(1) by (intro checkduplicate_eq) simp
    then have "dispatch_switch c h req f st (rs1\<lparr>rs_reply_window := ?rw\<rparr>) = Inr (k, rs')"
      using rs1(2) by simp
    from dispatch_switch_frame [OF this] show ?thesis
      using fr by (intro checked [OF 4(3) cw]) auto
  qed
qed

lemma add_reply_Inr:
  "add_reply clt xid b sz rw = Inr rw' \<Longrightarrow> \<exists>w'. set_reply xid b sz (smap_val [] clt rw) = Inr w' \<and>
     (\<forall>x. smap_val [] x rw' = (if x = clt then w' else smap_val [] x rw))"
  by (auto simp: add_reply_def res_bind_Inr split_beta)

lemma dispatch_finish_window:
  assumes "dispatch_finish c h ret rep rs = Inr rs'" "reply_of h ret rep = (b1, sz1)"
  shows "if rq_clt_nonce h = 0 then rs_reply_window rs' = rs_reply_window rs
     else \<exists>w'. set_reply (rq_xid h) b1 sz1 (smap_val [] (rq_clt_nonce h) (rs_reply_window rs)) = Inr w' \<and>
       (\<forall>x. smap_val [] x (rs_reply_window rs')
          = (if x = rq_clt_nonce h then w' else smap_val [] x (rs_reply_window rs)))"
proof -
  have b: "b1 = m_buf (pack_reply_header \<lparr>rp_xid = rq_xid h, rp_ret = word_of_int ret\<rparr> rep)"
    "sz1 = int (m_ind (pack_reply_header \<lparr>rp_xid = rq_xid h, rp_ret = word_of_int ret\<rparr> rep))"
    using assms(2) by (auto simp: reply_of_def Let_def)
  obtain rs1 where rs1: "(if rq_clt_nonce h > 0 then
        res_bind (add_reply (rq_clt_nonce h) (rq_xid h) b1 sz1 (rs_reply_window rs))
          (\<lambda>rw. Inr (rs\<lparr>rs_reply_window := rw\<rparr>))
      else Inr rs) = Inr rs1" "rs_reply_window rs' = rs_reply_window rs1"
    using assms(1) unfolding dispatch_finish_def Let_def b [symmetric]
    by (auto simp: res_bind_Inr split_beta split: if_splits option.splits dest!: conn_ops_frame)
  show ?thesis
  proof (cases "rq_clt_nonce h = 0")
    case False
    then have "rq_clt_nonce h > 0" by (simp add: word_neq_0_conv)
    then show ?thesis using rs1 False by (auto simp: res_bind_Inr dest!: add_reply_Inr)
  qed (use rs1 in auto)
qed

lemma dispatch_enter_head:
  "dispatch_enter c b rs = Inr (Some k, rs') \<Longrightarrow> fst (snd k) = request_of b"
  by (erule dispatch_enter_cases [OF _ refl]) (auto split: if_splits)

lemma started_Cons:
  "started (sv\<lparr>sv_started := (clt, xid) # sv_started sv\<rparr>) clt' =
    (if clt' = clt then insert xid (started sv clt) else started sv clt')"
  by (auto simp: started_def)

lemmas sv_open = open_calls_def server_inv_def

text \<open>The invariant, one step at a time.\<close>

lemma inv_enter:
  assumes "server_inv sv" "dispatch_enter c b (sv_rs sv) = Inr (k, rs')" "h = request_of b"
    "rq_xid_rep h < rq_xid h" "clt \<noteq> 0"
  shows "window_ok (smap_val [] clt (rs_reply_window rs'))
     (if k \<noteq> None \<and> clt = rq_clt_nonce h then insert (rq_xid h) (started sv clt) else started sv clt)
     (sv_replies sv clt)"
  using assms(2,3)
proof (cases rule: dispatch_enter_cases)
  case (checked st w' req f)
  have ok: "window_ok (smap_val [] clt (rs_reply_window (sv_rs sv))) (started sv clt) (sv_replies sv clt)"
    using assms(1,5) by (simp add: server_inv_def)
  show ?thesis
  proof (cases "clt = rq_clt_nonce h")
    case True
    then show ?thesis using checked(3,4) rw.check_ok [OF ok assms(4)] checked(2) by fastforce
  qed (use ok checked(3) in auto)
qed (use assms in \<open>auto simp: server_inv_def\<close>)

lemma new_not_started:
  assumes "server_inv sv" "dispatch_enter c b (sv_rs sv) = Inr (Some k, rs')" "h = request_of b"
    "rq_xid_rep h < rq_xid h" "rq_clt_nonce h \<noteq> 0"
  shows "(rq_clt_nonce h, rq_xid h) \<notin> set (sv_started sv)"
  using assms(2,3)
proof (cases rule: dispatch_enter_cases)
  case (checked st w' req f)
  have "window_ok (smap_val [] (rq_clt_nonce h) (rs_reply_window (sv_rs sv)))
      (started sv (rq_clt_nonce h)) (sv_replies sv (rq_clt_nonce h))"
    using assms(1,5) by (simp add: server_inv_def)
  moreover have "st = NEW" using checked(4) by (auto split: if_splits)
  ultimately have "rq_xid h \<notin> started sv (rq_clt_nonce h)"
    using rw.check_new [OF _ assms(4)] checked(2) by blast
  then show ?thesis by (simp add: started_def)
qed (use assms in auto)

lemma call_id_Pair [simp]: "call_id (c, h, d) = (rq_clt_nonce h, rq_xid h)"
  by (simp add: call_id_def)

lemma open_calls_mono:
  assumes "set (sv_running sv') \<subseteq> set (sv_running sv)"
    "set (sv_returned sv') \<subseteq> insert x (set (sv_returned sv))" "call_id x \<in> open_calls sv"
  shows "open_calls sv' \<subseteq> open_calls sv"
  using assms image_mono [OF assms(1), of call_id] image_mono [OF assms(2), of call_id]
  unfolding open_calls_def image_insert by blast

lemma in_open_calls:
  "(c, h, req, f) \<in> set (sv_running sv) \<Longrightarrow> (rq_clt_nonce h, rq_xid h) \<in> open_calls sv"
  "(c, h, ret, rep) \<in> set (sv_returned sv) \<Longrightarrow> (rq_clt_nonce h, rq_xid h) \<in> open_calls sv"
  unfolding open_calls_def by (metis UnI1 UnI2 call_id_Pair imageI)+

lemma inv_finish:
  assumes "server_inv sv" "dispatch_finish c h ret rep (sv_rs sv) = Inr rs'"
    "(c, h, ret, rep) \<in> set (sv_returned sv)" "clt \<noteq> 0"
  shows "window_ok (smap_val [] clt (rs_reply_window rs')) (started sv clt)
     (if clt = rq_clt_nonce h then (sv_replies sv clt)(rq_xid h \<mapsto> reply_of h ret rep)
      else sv_replies sv clt)"
proof -
  obtain b1 sz1 where b: "reply_of h ret rep = (b1, sz1)" by fastforce
  have ok: "window_ok (smap_val [] clt (rs_reply_window (sv_rs sv))) (started sv clt) (sv_replies sv clt)"
    using assms(1,4) by (simp add: server_inv_def)
  show ?thesis
  proof (cases "clt = rq_clt_nonce h")
    case True
    have "(rq_clt_nonce h, rq_xid h) \<in> open_calls sv" using assms(3) by (rule in_open_calls)
    then have "rq_xid h \<in> started sv clt"
      using assms(1,4) True by (auto simp: server_inv_def started_def)
    then show ?thesis using ok True assms(4) b dispatch_finish_window [OF assms(2) b]
      by (auto intro: rw.reply_ok)
  next
    case False
    then show ?thesis using ok dispatch_finish_window [OF assms(2) b] by (auto split: if_splits)
  qed
qed

lemma server_inv_step:
  assumes "server_step strict sv sv'" "server_inv sv"
  shows "server_inv sv'"
  using assms
proof cases
  case (step_enter c b k rs')
  let ?h = "request_of b" and ?clt = "rq_clt_nonce (request_of b)"
  have rep: "rq_xid_rep ?h < rq_xid ?h" using step_enter(3) by (simp add: request_ok_def)
  have k: "fst (snd k) = ?h" using dispatch_enter_head [OF step_enter(2)] .
  have "open_calls sv' = insert (?clt, rq_xid ?h) (open_calls sv)"
    using k by (auto simp: step_enter(1) open_calls_def call_id_def)
  moreover have "?clt \<noteq> 0 \<Longrightarrow> (?clt, rq_xid ?h) \<notin> set (sv_started sv)"
    using new_not_started [OF assms(2) step_enter(2) refl rep] .
  moreover have "started sv' clt
      = (if clt = ?clt then insert (rq_xid ?h) (started sv clt) else started sv clt)" if "clt \<noteq> 0" for clt
    using that by (auto simp: step_enter(1) started_def)
  moreover have "sv_rs sv' = rs'" "sv_replies sv' = sv_replies sv" "sv_started sv' =
      (if ?clt \<noteq> 0 then (?clt, rq_xid ?h) # sv_started sv else sv_started sv)"
    by (simp_all add: step_enter(1))
  ultimately show ?thesis
    using assms(2) inv_enter [OF assms(2) step_enter(2) refl rep]
    by (auto simp: server_inv_def)
next
  case (step_answer c b rs')
  have rep: "rq_xid_rep (request_of b) < rq_xid (request_of b)"
    using step_answer(3) by (simp add: request_ok_def)
  show ?thesis
    using assms(2) inv_enter [OF assms(2) step_answer(2) refl rep]
    by (simp add: server_inv_def step_answer(1) started_def open_calls_def)
next
  case (step_handler c h req f rs ret rep s)
  have "(rq_clt_nonce h, rq_xid h) \<in> open_calls sv" using step_handler(2) by (rule in_open_calls)
  then have "open_calls sv' \<subseteq> open_calls sv"
    by (intro open_calls_mono [of _ _ "(c, h, ret, rep)"])
      (auto simp: step_handler(1) dest: set_remove1_subset [THEN subsetD])
  moreover have "rs_reply_window rs = rs_reply_window (sv_rs sv)"
    by (simp add: step_handler(3) updatestat_def Let_def)
  ultimately show ?thesis using assms(2)
    by (auto simp: server_inv_def step_handler(1) started_def)
next
  case (step_finish c h ret rep rs')
  have "(rq_clt_nonce h, rq_xid h) \<in> open_calls sv" using step_finish(2) by (rule in_open_calls)
  then have "open_calls sv' \<subseteq> open_calls sv"
    by (intro open_calls_mono [of _ _ "(c, h, ret, rep)"])
      (auto simp: step_finish(1) dest: set_remove1_subset [THEN subsetD])
  moreover have "sv_replies sv' clt = (if clt = rq_clt_nonce h
      then (sv_replies sv clt)(rq_xid h \<mapsto> reply_of h ret rep) else sv_replies sv clt)" for clt
    by (simp add: step_finish(1))
  moreover have "sv_rs sv' = rs'" "sv_started sv' = sv_started sv" "started sv' clt = started sv clt" for clt
    by (simp_all add: step_finish(1) started_def)
  ultimately show ?thesis
    using assms(2) inv_finish [OF assms(2) step_finish(3,2)] by (auto simp: server_inv_def)
next
  case (step_connection heap)
  then show ?thesis using assms(2) by (simp add: server_inv_def started_def open_calls_def)
qed

lemma server_inv_reachable:
  assumes "server_reachable strict rs sv" "rs_reply_window rs = []"
  shows "server_inv sv"
  using assms(1)
proof induction
  case reach_new
  then show ?case using assms(2)
    by (simp add: server_inv_def server_new_def open_calls_def started_def smap_val_def)
qed (rule server_inv_step)

subsection \<open>Replies that are still awaited\<close>

lemma xids_dropWhile:
  "x \<in> set (xids w) \<Longrightarrow> a \<le> x \<Longrightarrow> x \<in> set (xids (dropWhile (\<lambda>r. re_xid r < a) w))"
  by (induction w) (auto simp: xids_def)

lemma check_window_keeps:
  assumes "check_window xid xid_rep w = (st, w')"
  shows "x \<in> set (xids w) \<Longrightarrow> xid_rep \<le> x \<Longrightarrow> x \<in> set (xids w')" and "st = NEW \<Longrightarrow> xid \<in> set (xids w')"
proof -
  define d where "d = dropWhile (\<lambda>r. re_xid r < xid_rep) w"
  have "set (xids d) \<subseteq> set (xids w') \<and> (st = NEW \<longrightarrow> xid \<in> set (xids w'))"
  proof (cases "dropWhile (\<lambda>r. re_xid r < xid) d")
    case (Cons it rest)
    then have "d = takeWhile (\<lambda>r. re_xid r < xid) d @ it # rest"
      by (metis takeWhile_dropWhile_id)
    then have "set (xids d) = set (xids (takeWhile (\<lambda>r. re_xid r < xid) d @ it # rest))" by simp
    then show ?thesis using assms Cons
      by (auto simp: check_window_def d_def [symmetric] xids_def Let_def split: if_splits)
  qed (use assms in \<open>auto simp: check_window_def d_def [symmetric] xids_def Let_def split: if_splits\<close>)
  then show "x \<in> set (xids w) \<Longrightarrow> xid_rep \<le> x \<Longrightarrow> x \<in> set (xids w')" and "st = NEW \<Longrightarrow> xid \<in> set (xids w')"
    using xids_dropWhile [of x w xid_rep] d_def by auto
qed

lemma set_reply_defined:
  "xid \<in> set (xids w) \<Longrightarrow> \<exists>w'. set_reply xid b sz w = Inr w'"
  by (induction w) (auto simp: xids_def)

definition awaited :: "'s server \<Rightarrow> bool" where
  "awaited sv \<longleftrightarrow> (\<forall>clt xid. (clt, xid) \<in> open_calls sv \<longrightarrow> clt \<noteq> 0 \<longrightarrow>
     xid \<in> set (xids (smap_val [] clt (rs_reply_window (sv_rs sv)))))"

lemma awaited_mono:
  "awaited sv \<Longrightarrow> open_calls sv' \<subseteq> open_calls sv \<Longrightarrow>
   (\<And>clt. clt \<noteq> 0 \<Longrightarrow> set (xids (smap_val [] clt (rs_reply_window (sv_rs sv))))
      \<subseteq> set (xids (smap_val [] clt (rs_reply_window (sv_rs sv'))))) \<Longrightarrow> awaited sv'"
  unfolding awaited_def by blast

lemma enter_keeps:
  assumes "dispatch_enter c b rs = Inr (k, rs')" "h = request_of b"
    "x \<in> set (xids (smap_val [] clt (rs_reply_window rs)))" "clt = rq_clt_nonce h \<longrightarrow> rq_xid_rep h \<le> x"
  shows "x \<in> set (xids (smap_val [] clt (rs_reply_window rs')))"
  using assms(1,2)
proof (cases rule: dispatch_enter_cases)
  case (checked st w' req f)
  then show ?thesis using assms(3,4) check_window_keeps(1) [OF checked(2)] by auto
qed (use assms(3) in auto)

lemma enter_adds:
  assumes "dispatch_enter c b rs = Inr (Some k, rs')" "h = request_of b" "rq_clt_nonce h \<noteq> 0"
  shows "rq_xid h \<in> set (xids (smap_val [] (rq_clt_nonce h) (rs_reply_window rs')))"
  using assms(1,2)
proof (cases rule: dispatch_enter_cases)
  case (checked st w' req f)
  then show ?thesis using check_window_keeps(2) [OF checked(2)] by (auto split: if_splits)
qed (use assms(3) in auto)

lemma finish_keeps:
  assumes "dispatch_finish c h ret rep rs = Inr rs'"
  shows "xids (smap_val [] clt (rs_reply_window rs')) = xids (smap_val [] clt (rs_reply_window rs))"
proof -
  obtain b1 sz1 where "reply_of h ret rep = (b1, sz1)" by fastforce
  from dispatch_finish_window [OF assms this] show ?thesis
    by (cases "clt = rq_clt_nonce h") (auto split: if_splits dest!: set_reply_xids)
qed

lemma awaited_kept:
  assumes "awaited sv" "dispatch_enter c b (sv_rs sv) = Inr (k, rs')" "request_ok True sv (request_of b)"
    "(clt, xid) \<in> open_calls sv" "clt \<noteq> 0"
  shows "xid \<in> set (xids (smap_val [] clt (rs_reply_window rs')))"
  using assms by (intro enter_keeps [OF assms(2) refl]) (auto simp: awaited_def request_ok_def)

lemma awaited_step:
  assumes "server_step True sv sv'" "awaited sv"
  shows "awaited sv'"
  using assms(1)
proof cases
  case (step_enter c b k rs')
  let ?h = "request_of b"
  have k: "fst (snd k) = ?h" using dispatch_enter_head [OF step_enter(2)] .
  have "open_calls sv' = insert (rq_clt_nonce ?h, rq_xid ?h) (open_calls sv)" "sv_rs sv' = rs'"
    using k by (auto simp: step_enter(1) open_calls_def call_id_def)
  then show ?thesis
    using awaited_kept [OF assms(2) step_enter(2,3)] enter_adds [OF step_enter(2) refl]
    by (auto simp: awaited_def)
next
  case (step_answer c b rs')
  then show ?thesis using awaited_kept [OF assms(2) step_answer(2,3)]
    by (simp add: awaited_def open_calls_def)
next
  case (step_handler c h req f rs ret rep s)
  have "(rq_clt_nonce h, rq_xid h) \<in> open_calls sv" using step_handler(2) by (rule in_open_calls)
  then have "open_calls sv' \<subseteq> open_calls sv"
    by (intro open_calls_mono [of _ _ "(c, h, ret, rep)"])
      (auto simp: step_handler(1) dest: set_remove1_subset [THEN subsetD])
  then show ?thesis
    by (rule awaited_mono [OF assms(2)]) (simp add: step_handler(1,3) updatestat_def Let_def)
next
  case (step_finish c h ret rep rs')
  have "(rq_clt_nonce h, rq_xid h) \<in> open_calls sv" using step_finish(2) by (rule in_open_calls)
  then have "open_calls sv' \<subseteq> open_calls sv"
    by (intro open_calls_mono [of _ _ "(c, h, ret, rep)"])
      (auto simp: step_finish(1) dest: set_remove1_subset [THEN subsetD])
  then show ?thesis
    by (rule awaited_mono [OF assms(2)]) (simp add: step_finish(1) finish_keeps [OF step_finish(3)])
next
  case (step_connection heap)
  then show ?thesis using assms(2) by (simp add: awaited_def open_calls_def)
qed

lemma awaited_reachable: "server_reachable True rs sv \<Longrightarrow> awaited sv"
proof (induction rule: server_reachable.induct)
  case reach_new
  then show ?case by (simp add: awaited_def server_new_def open_calls_def)
qed (rule awaited_step)

subsection \<open>A server with one call\<close>

text \<open>A server that has just received the request \<open>sample_header\<close>, and then run its handler.\<close>

definition sample_rpcs :: "unit rpcs" where
  "sample_rpcs = (rpcs_new 99 0 ())\<lparr>rs_heap := (\<lambda>_. Some (connection_new (0, 0)))\<rparr>"

definition sample_request :: "cell list" where
  "sample_request = wire (pack_req_header sample_header (put_uint 0 marshall_new))"

lemma sample_unpack:
  "unpack_req_header (unmarshall_buf sample_request)
     = (sample_header, ustate (take RPC_HEADER_SZ sample_request) (enc_uint 0))"
proof -
  have m: "m_ok (put_uint 0 marshall_new)" by (simp add: codec_simps)
  have "m_content (put_uint 0 marshall_new) = enc_uint 0" by (simp add: codec_simps)
  moreover have "length (m_content (put_uint 0 marshall_new)) = m_ind (put_uint 0 marshall_new) - 24"
    using m by (auto simp: m_content_def m_ok_def RPC_HEADER_SZ_def)
  ultimately have "m_ind (put_uint 0 marshall_new) < 2 ^ 32" by simp
  then show ?thesis using unpack_req_header_wire [OF m] \<open>m_content _ = _\<close>
    by (simp add: sample_request_def)
qed

definition sample_call :: "unit call" where
  "sample_call = (1, sample_header, ustate (take RPC_HEADER_SZ sample_request) (enc_uint 0),
     reg_h1 get_uint put_uint (rpcbind 99))"

lemma sample_enter:
  "\<exists>rs'. dispatch_enter 1 sample_request sample_rpcs = Inr (Some sample_call, rs')"
  by (simp add: dispatch_enter_def sample_unpack sample_rpcs_def rpcs_new_def sample_header_def
    rpc_bind_def save_conn_def conn_incref_def checkduplicate_and_update_def smap_index_def
    check_window_def dispatch_switch_def sample_call_def)

lemma sample_request_ok: "request_ok strict (server_new rs) (request_of sample_request)"
  by (simp add: request_ok_def request_of_def sample_unpack sample_header_def open_calls_def server_new_def)

lemma sample_reachable:
  "\<exists>sv. server_reachable strict sample_rpcs sv \<and> sv_started sv = [(5, 7)] \<and> sv_running sv = [sample_call]"
proof -
  obtain rs' where "dispatch_enter 1 sample_request (sv_rs (server_new sample_rpcs)) = Inr (Some sample_call, rs')"
    using sample_enter by (auto simp: server_new_def)
  from reach_step [OF reach_new step_enter [OF this sample_request_ok [of strict]]] show ?thesis
    by (intro exI conjI, assumption)
      (simp_all add: server_new_def request_of_def sample_unpack sample_header_def)
qed

subsection \<open>Properties\<close>

text \<open>(C2) At-most-once execution: however the requests of the clients are duplicated, delayed and
  reordered, and however the dispatch threads interleave, a server never starts a handler twice for
  the same client nonce and XID, as long as no request acknowledges its own XID.\<close>

theorem at_most_once:
  assumes "server_reachable strict rs sv" "rs_reply_window rs = []"
  shows "distinct (sv_started sv)"
  using server_inv_reachable [OF assms] by (simp add: server_inv_def)

theorem at_most_once_witness:
  "\<exists>sv. server_reachable False sample_rpcs sv \<and> sv_started sv = [(5, 7)] \<and> distinct (sv_started sv)"
proof -
  obtain sv where "server_reachable False sample_rpcs sv" "sv_started sv = [(5, 7)]"
    using sample_reachable by blast
  then show ?thesis using at_most_once [of False sample_rpcs sv]
    by (auto simp: sample_rpcs_def rpcs_new_def)
qed

text \<open>A retransmitted request is answered, not executed: in every reachable state, a request
  whose XID has been started before does not reach a handler and leaves the state behind the handlers
  alone; the server sends nothing, or the very reply it recorded for that XID, or a failure
  \<^verbatim>\<open>atmostonce_failure\<close>.\<close>

theorem duplicate_answered:
  assumes "server_reachable strict rs sv" "rs_reply_window rs = []" "h = request_of b"
    "(rq_clt_nonce h, rq_xid h) \<in> set (sv_started sv)" "rq_clt_nonce h \<noteq> 0" "rq_xid_rep h < rq_xid h"
    "u_ok (snd (unpack_req_header (unmarshall_buf b)))" "rq_srv_nonce h \<in> {0, rs_nonce (sv_rs sv)}"
    "dispatch_enter c b (sv_rs sv) = Inr (k, rs')"
  shows "k = None \<and> rs_app rs' = rs_app (sv_rs sv) \<and>
    (\<exists>ans. rs_sent rs' = rs_sent (sv_rs sv) @ map (\<lambda>(b, sz). (c, b, sz)) ans \<and>
       (ans = [] \<or> ans = answers (rq_xid h) FORGOTTEN \<or>
        (\<exists>r. ans = [r] \<and> sv_replies sv (rq_clt_nonce h) (rq_xid h) = Some r)))"
  using assms(9,3)
proof (cases rule: dispatch_enter_cases)
  case (checked st w' req f)
  have ok: "window_ok (smap_val [] (rq_clt_nonce h) (rs_reply_window (sv_rs sv)))
      (started sv (rq_clt_nonce h)) (sv_replies sv (rq_clt_nonce h))"
    using server_inv_reachable [OF assms(1,2)] assms(5) by (simp add: server_inv_def)
  have "rq_xid h \<in> started sv (rq_clt_nonce h)" using assms(4) by (simp add: started_def)
  then have "st \<noteq> NEW" using rw.check_seen [OF ok assms(6)] checked(2) by auto
  then show ?thesis using checked(2,4,5) rw.check_done [OF ok assms(6)]
    by (intro conjI exI [of _ "answers (rq_xid h) st"] checked(6)) (cases st; auto simp: answers_def)+
qed (use assms(5,7,8) in auto)

theorem duplicate_answered_witness:
  "\<exists>sv k rs'. server_reachable False sample_rpcs sv \<and>
     dispatch_enter 2 sample_request (sv_rs sv) = Inr (k, rs') \<and> k = None \<and> rs_sent rs' = []"
proof -
  obtain rs' where e: "dispatch_enter 1 sample_request sample_rpcs = Inr (Some sample_call, rs')"
    using sample_enter by blast
  define sv where "sv = (server_new sample_rpcs)\<lparr>sv_rs := rs', sv_running := [sample_call],
      sv_started := [(5, 7)]\<rparr>"
  have h: "request_of sample_request = sample_header" by (simp add: request_of_def sample_unpack)
  have "dispatch_enter 1 sample_request (sv_rs (server_new sample_rpcs)) = Inr (Some sample_call, rs')"
    using e by (simp add: server_new_def)
  from reach_step [OF reach_new step_enter [OF this sample_request_ok [of False]]]
  have r: "server_reachable False sample_rpcs sv"
    by (simp add: sv_def server_new_def request_of_def sample_unpack sample_header_def)
  obtain rs2 where d: "dispatch_enter 2 sample_request rs' = Inr (None, rs2)" "rs_sent rs2 = []"
    using e by (auto simp: dispatch_enter_def sample_unpack sample_rpcs_def rpcs_new_def
      sample_header_def rpc_bind_def save_conn_def conn_incref_def conn_decref_def incref_def decref_def
      checkduplicate_and_update_def smap_index_def check_window_def dispatch_switch_def
      sample_call_def connection_new_def conn_compare_def reply_new_def Let_def)
  have "sv_rs sv = rs'" by (simp add: sv_def)
  with d have d': "dispatch_enter 2 sample_request (sv_rs sv) = Inr (None, rs2)" by simp
  moreover have "rs_reply_window sample_rpcs = []" by (simp add: sample_rpcs_def rpcs_new_def)
  ultimately show ?thesis
    using duplicate_answered [OF r _ h [symmetric] _ _ _ _ _ d'] r d
    by (auto simp: sample_header_def sample_unpack sv_def)
qed

text \<open>Recording a reply never touches memory outside the reply window, provided clients do not
  acknowledge calls the server is still working on: when a handler has returned, the entry of its XID
  is still there and \<^verbatim>\<open>add_reply\<close> fills it.\<close>

theorem reply_recorded:
  assumes "server_reachable True rs sv" "(c, h, ret, rep) \<in> set (sv_returned sv)" "rq_clt_nonce h \<noteq> 0"
  shows "\<exists>rw w'. add_reply (rq_clt_nonce h) (rq_xid h) bf sz (rs_reply_window (sv_rs sv)) = Inr rw \<and>
     smap_val [] (rq_clt_nonce h) rw = w' \<and>
     (\<exists>r \<in> set w'. re_xid r = rq_xid h \<and> re_cb_present r \<and> re_buf r = bf \<and> re_sz r = sz)"
proof -
  let ?w = "smap_val [] (rq_clt_nonce h) (rs_reply_window (sv_rs sv))"
  have "(rq_clt_nonce h, rq_xid h) \<in> open_calls sv" using assms(2) by (rule in_open_calls)
  then have x: "rq_xid h \<in> set (xids ?w)"
    using awaited_reachable [OF assms(1)] assms(3) by (auto simp: awaited_def)
  then obtain w' where w': "set_reply (rq_xid h) bf sz ?w = Inr w'" using set_reply_defined by blast
  have "set_reply xid bf sz w = Inr w' \<Longrightarrow> xid \<in> set (xids w) \<Longrightarrow>
      \<exists>r \<in> set w'. re_xid r = xid \<and> re_cb_present r \<and> re_buf r = bf \<and> re_sz r = sz" for xid w w'
    by (induction w arbitrary: w') (auto simp: xids_def res_bind_Inr split: if_splits)
  from this [OF w' x] w' show ?thesis by (simp add: add_reply_def split_beta)
qed

theorem reply_recorded_witness:
  "\<exists>sv rep. server_reachable True sample_rpcs sv \<and> (1, sample_header, 0, rep) \<in> set (sv_returned sv) \<and>
     (\<exists>rw. add_reply 5 7 [Some 0] 1 (rs_reply_window (sv_rs sv)) = Inr rw)"
proof -
  obtain sv where sv: "server_reachable True sample_rpcs sv" "sv_running sv = [sample_call]"
    using sample_reachable by blast
  have f: "reg_h1 get_uint put_uint (rpcbind 99) (ustate (take RPC_HEADER_SZ sample_request) (enc_uint 0))
      marshall_new x = Inr (0, put_uint 99 marshall_new, x)" for x :: unit
    using c_uint.get_enc_last [of "take RPC_HEADER_SZ sample_request" 0]
    by (simp add: reg_h1_def rpcbind_def RPC_HEADER_SZ_def)
  have "(1, sample_header, ustate (take RPC_HEADER_SZ sample_request) (enc_uint 0),
     reg_h1 get_uint put_uint (rpcbind 99)) \<in> set (sv_running sv)"
    using sv(2) by (simp add: sample_call_def)
  note st = step_handler [OF this refl f, of True]
  then obtain sv' where "server_reachable True sample_rpcs sv'"
    "(1, sample_header, 0, put_uint 99 marshall_new) \<in> set (sv_returned sv')"
    using reach_step [OF sv(1) st] by force
  then show ?thesis using reply_recorded [of sample_rpcs sv' 1 sample_header, where bf = "[Some 0]" and sz = 1]
    by (fastforce simp: sample_header_def)
qed

text \<open>Unless the client keeps that promise, a finished call is not recorded: a client whose calls 1 and 2 time out
  acknowledges both with its next request (\<^verbatim>\<open>call1\<close> calls \<^verbatim>\<open>update_xid_rep\<close>
  after a timeout, too), the server drops their entries, and when the handler of call 1 returns,
  \<^verbatim>\<open>add_reply\<close> writes through the end iterator of the list.\<close>

theorem late_reply_undefined:
  "set_reply 1 b sz (snd (check_window 3 2 (snd (check_window 2 0 (snd (check_window 1 0 []))))))
     = Inl Undefined_behaviour"
  by (simp add: check_window_def)

text \<open>A request the server has not seen is never refused as forgotten while the entry of the
  acknowledged XID is still in the window: an XID above \<open>xid_rep\<close> that was not started is
  classified as new. (Entries up to but not including \<open>xid_rep\<close> are dropped, whereas the comment
  above \<^verbatim>\<open>checkduplicate_and_update\<close> says that \<open>xid_rep\<close> is dropped too.)\<close>

theorem fresh_request_new:
  assumes "window_ok w S R" "xid_rep < xid" "xid \<notin> S" "xid_rep \<in> set (xids w)"
  shows "fst (check_window xid xid_rep w) = NEW"
proof -
  define d where "d = dropWhile (\<lambda>r. re_xid r < xid_rep) w"
  have x: "xid_rep \<in> set (xids d)" using xids_dropWhile [OF assms(4)] by (simp add: d_def)
  then have ne: "d \<noteq> []" by (auto simp: xids_def)
  have d: "window_ok d S R" using window_ok_shrink [OF assms(1) d_def ne] .
  then have "re_xid (hd d) \<le> xid_rep"
    using x by (cases d) (auto simp: window_ok_def xids_def less_imp_le)
  then have hd: "\<not> re_xid (hd d) > xid" using assms(2) by simp
  have out: "xid \<notin> set (xids d)" using d assms(3) by (auto simp: window_ok_def)
  show ?thesis
  proof (cases "re_xid (last d) < xid")
    case False
    have "sorted_wrt (<) (xids d)" "\<exists>r \<in> set d. xid \<le> re_xid r"
      using d ne False by (auto simp: window_ok_def not_less intro: bexI [of _ "last d"])
    then obtain it rest where "dropWhile (\<lambda>r. re_xid r < xid) d = it # rest"
      by (rule sorted_wrt_split)
    moreover have "it \<in> set d" using calculation by (metis list.set_intros(1) set_dropWhileD)
    ultimately show ?thesis using ne False hd out
      by (auto simp: check_window_def d_def [symmetric] xids_def)
  qed (use ne in \<open>auto simp: check_window_def d_def [symmetric]\<close>)
qed

theorem fresh_request_new_witness:
  "fst (check_window 2 1 [reply_new 1, reply_new 3]) = NEW"
  by (rule fresh_request_new [of _ "{1, 3}" "\<lambda>_. None"]) (auto simp: window_ok_def xids_def)

end
