(* ===== verification/Rpc_Client.thy ===== *)
theory Rpc_Client
  imports Rpc_Server
begin

text \<open>
  The client end of the RPC library, class \<^verbatim>\<open>rpcc\<close> of \<^verbatim>\<open>rpc/rpc.cc\<close> and
  \<^verbatim>\<open>rpc/rpc.h\<close>: the allocation of XIDs, the window of received replies, the table of
  outstanding calls. \<^verbatim>\<open>call1\<close> waits while other threads run, so it is modelled by its
  segments: \<open>call_begin\<close> up to the first transmission, \<open>call_transmit\<close>, and \<open>call_end\<close>
  after the wait; \<open>rpcc_got_pdu\<close> is the upcall of the connection.
\<close>

subsection \<open>State\<close>

record caller =
  ca_un :: "unmarshall option"
  ca_intret :: int
  ca_done :: bool

record rpcc =
  rc_clt_nonce :: u32
  rc_srv_nonce :: u32
  rc_bind_done :: bool
  rc_xid :: u32
  rc_lossytest :: bool
  rc_reachable :: bool
  rc_destroy_wait :: bool
  rc_calls :: "(u32, caller) smap"
  rc_xid_rep_window :: "u32 list"
  rc_dup_req :: "(cell list \<times> u32) option"
  rc_xid_rep_done :: int

definition rpcc_new :: "u32 \<Rightarrow> bool \<Rightarrow> rpcc" where
  "rpcc_new nonce lossy = \<lparr>rc_clt_nonce = nonce, rc_srv_nonce = 0, rc_bind_done = False, rc_xid = 1,
     rc_lossytest = lossy, rc_reachable = True, rc_destroy_wait = False, rc_calls = [],
     rc_xid_rep_window = [0], rc_dup_req = None, rc_xid_rep_done = - 1\<rparr>"

subsection \<open>The window of received replies\<close>

fun insert_xid :: "u32 \<Rightarrow> u32 list \<Rightarrow> u32 list" where
  "insert_xid xid [] = [xid]"
| "insert_xid xid (x # w) = (if x > xid then xid # x # w else x # insert_xid xid w)"

text \<open>The iterator of the loop splits the list; \<open>pre\<close> is the part from the front up to it.\<close>

fun compress :: "u32 list \<Rightarrow> u32 list \<Rightarrow> u32 list" where
  "compress pre [] = pre"
| "compress pre (y # ys) = compress (dropWhile (\<lambda>x. x + 1 = y) pre @ [y]) ys"

definition update_xid_rep :: "u32 \<Rightarrow> u32 list \<Rightarrow> u32 list" where
  "update_xid_rep xid w =
     (if xid \<le> hd w then w
      else let w = insert_xid xid w in compress [hd w] (tl w))"

subsection \<open>Calls\<close>

definition call_begin :: "u32 \<Rightarrow> marshall \<Rightarrow> rpcc \<Rightarrow> (int + u32 \<times> u32 \<times> marshall) \<times> rpcc" where
  "call_begin proc req rc =
     (if proc \<noteq> rpc_bind \<and> \<not> rc_bind_done rc \<or> proc = rpc_bind \<and> rc_bind_done rc
      then (Inl bind_failure, rc)
      else if rc_destroy_wait rc then (Inl cancel_failure, rc)
      else let xid = rc_xid rc; xid_rep = hd (rc_xid_rep_window rc);
               h = \<lparr>rq_xid = xid, rq_proc = proc, rq_clt_nonce = rc_clt_nonce rc,
                    rq_srv_nonce = rc_srv_nonce rc, rq_xid_rep = xid_rep\<rparr>
           in (Inr (xid, xid_rep, pack_req_header h req),
               rc\<lparr>rc_xid := xid + 1,
                 rc_calls := smap_set xid \<lparr>ca_un = None, ca_intret = 0, ca_done = False\<rparr> (rc_calls rc)\<rparr>))"

text \<open>What is handed to the connection: in lossy mode first an old request that was answered.\<close>

definition call_transmit :: "marshall \<Rightarrow> rpcc \<Rightarrow> (cell list \<times> int) list \<times> rpcc" where
  "call_transmit req rc =
     (if \<not> rc_reachable rc then ([], rc)
      else case rc_dup_req rc of
          Some (b, x) \<Rightarrow>
            if rc_xid_rep_done rc > sint x
            then ([(b, int (length b)), (m_buf req, int (m_ind req))], rc\<lparr>rc_dup_req := None\<rparr>)
            else ([(m_buf req, int (m_ind req))], rc)
        | None \<Rightarrow> ([(m_buf req, int (m_ind req))], rc))"

definition call_end :: "u32 \<Rightarrow> u32 \<Rightarrow> marshall \<Rightarrow> rpcc \<Rightarrow> (int \<times> unmarshall option) \<times> rpcc" where
  "call_end xid xid_rep req rc =
     (let ca = smap_val \<lparr>ca_un = None, ca_intret = 0, ca_done = False\<rparr> xid (rc_calls rc);
          rc = rc\<lparr>rc_calls := smap_del xid (rc_calls rc),
            rc_xid_rep_window := update_xid_rep xid (rc_xid_rep_window rc)\<rparr>;
          rc = (if ca_done ca \<and> rc_lossytest rc then
              rc\<lparr>rc_dup_req := (if rc_dup_req rc = None
                  then Some (take (m_ind req) (m_buf req), xid) else rc_dup_req rc),
                rc_xid_rep_done := max (sint xid_rep) (rc_xid_rep_done rc)\<rparr>
            else rc)
      in ((if ca_done ca then ca_intret ca else timeout_failure, ca_un ca), rc))"

definition take_in :: "unmarshall \<Rightarrow> unmarshall" where
  "take_in u = u\<lparr>u_ind := RPC_HEADER_SZ, u_ok := (u_sz u \<ge> RPC_HEADER_SZ)\<rparr>"

definition rpcc_got_pdu :: "cell list \<Rightarrow> rpcc \<Rightarrow> rpcc" where
  "rpcc_got_pdu b rc =
     (let (h, rep) = unpack_reply_header (unmarshall_buf b)
      in if \<not> u_ok rep then rc
         else let rc = rc\<lparr>rc_xid_rep_window := update_xid_rep (rp_xid h) (rc_xid_rep_window rc)\<rparr>
           in case map_of (rc_calls rc) (rp_xid h) of
               None \<Rightarrow> rc
             | Some ca \<Rightarrow>
                 if ca_done ca then rc
                 else rc\<lparr>rc_calls := smap_set (rp_xid h)
                   \<lparr>ca_un = Some (take_in rep), ca_intret = sint (rp_ret h), ca_done = True\<rparr> (rc_calls rc)\<rparr>)"

text \<open>\<^verbatim>\<open>cancel\<close> up to its wait for the callers.\<close>

definition rpcc_cancel :: "rpcc \<Rightarrow> rpcc" where
  "rpcc_cancel rc = rc\<lparr>rc_calls := map (\<lambda>(x, ca). (x, ca\<lparr>ca_done := True, ca_intret := cancel_failure\<rparr>))
       (rc_calls rc),
     rc_destroy_wait := (rc_destroy_wait rc \<or> rc_calls rc \<noteq> [])\<rparr>"

text \<open>\<^verbatim>\<open>call_m\<close> after \<^verbatim>\<open>call1\<close> has returned.\<close>

definition call_m_result :: "(unmarshall \<Rightarrow> 'r \<times> unmarshall) \<Rightarrow> int \<Rightarrow> unmarshall option
    \<Rightarrow> (int \<times> 'r option) res" where
  "call_m_result getr intret un =
     (if intret < 0 then Inr (intret, None)
      else case un of
          None \<Rightarrow> Inl Verify_failed
        | Some u \<Rightarrow> (let (r, u) = getr u in
            if okdone u then Inr (intret, Some r) else Inl Verify_failed))"

text \<open>\<^verbatim>\<open>bind\<close> after its call has returned.\<close>

definition rpcc_bind_result :: "int \<Rightarrow> u32 \<Rightarrow> rpcc \<Rightarrow> rpcc" where
  "rpcc_bind_result ret r rc = (if ret = 0 then rc\<lparr>rc_bind_done := True, rc_srv_nonce := r\<rparr> else rc)"

text \<open>The argument buffers the templates \<^verbatim>\<open>rpcc::call\<close> build.\<close>

definition call_args1 :: "('a \<Rightarrow> marshall \<Rightarrow> marshall) \<Rightarrow> 'a \<Rightarrow> marshall" where
  "call_args1 put1 a1 = put1 a1 marshall_new"

definition call_args2 :: "('a \<Rightarrow> marshall \<Rightarrow> marshall) \<Rightarrow> ('b \<Rightarrow> marshall \<Rightarrow> marshall)
    \<Rightarrow> 'a \<Rightarrow> 'b \<Rightarrow> marshall" where
  "call_args2 put1 put2 a1 a2 = put2 a2 (put1 a1 marshall_new)"

definition call_args3 :: "('a \<Rightarrow> marshall \<Rightarrow> marshall) \<Rightarrow> ('b \<Rightarrow> marshall \<Rightarrow> marshall)
    \<Rightarrow> ('c \<Rightarrow> marshall \<Rightarrow> marshall) \<Rightarrow> 'a \<Rightarrow> 'b \<Rightarrow> 'c \<Rightarrow> marshall" where
  "call_args3 put1 put2 put3 a1 a2 a3 = put3 a3 (put2 a2 (put1 a1 marshall_new))"

subsection \<open>The window holds the acknowledged calls\<close>

definition acked :: "u32 list \<Rightarrow> u32 set" where
  "acked w = {..hd w} \<union> set w"

definition ack_window_ok :: "u32 list \<Rightarrow> bool" where
  "ack_window_ok w \<longleftrightarrow> w \<noteq> [] \<and> sorted w \<and> hd w + 1 \<notin> set w"

lemma set_insert_xid [simp]: "set (insert_xid x w) = insert x (set w)"
  by (induction w) auto

lemma sorted_insert_xid: "sorted w \<Longrightarrow> sorted (insert_xid x w)"
  by (induction w) auto

lemma insert_xid_hd: "w \<noteq> [] \<Longrightarrow> \<not> x \<le> hd w \<Longrightarrow> insert_xid x w = hd w # insert_xid x (tl w)"
  by (cases w) auto

lemma compress_step:
  fixes pre :: "u32 list"
  assumes "pre \<noteq> []" "sorted (pre @ [y])" "hd pre + 1 \<notin> set pre"
  shows "dropWhile (\<lambda>x. x + 1 = y) pre @ [y] = (if hd pre + 1 = y then [y] else pre @ [y])"
proof (cases "hd pre + 1 = y")
  case True
  have "x + 1 = y" if "x \<in> set pre" for x
  proof -
    have ge: "hd pre \<le> x" using that assms(1,2) by (cases pre) (auto simp: sorted_append)
    have le: "x \<le> y" using that assms(2) by (auto simp: sorted_append)
    have "x \<noteq> y" using that assms(3) True by auto
    then have "\<not> hd pre < x" using le True inc_le [of "hd pre" x] by auto
    then show ?thesis using ge True by simp
  qed
  then show ?thesis using True by simp
next
  case False
  then show ?thesis using assms(1) by (cases pre) auto
qed

lemma acked_extend:
  fixes pre :: "u32 list"
  assumes "pre \<noteq> []" "sorted (pre @ [y])" "hd pre + 1 \<notin> set pre" "hd pre + 1 = y"
  shows "acked (pre @ [y]) = acked [y]"
proof -
  have "set pre \<subseteq> {..y}" using assms(2) by (auto simp: sorted_append)
  moreover have "hd pre \<in> set pre" using assms(1) by simp
  ultimately have "hd pre \<le> y" by auto
  have "{..y} = insert y {..hd pre}"
  proof (rule set_eqI)
    fix x
    have "x \<le> hd pre" if "x \<le> y" "x \<noteq> y"
      using that assms(4) inc_le [of "hd pre" x] by (metis not_le order.antisym)
    then show "x \<in> {..y} \<longleftrightarrow> x \<in> insert y {..hd pre}" using \<open>hd pre \<le> y\<close> by auto
  qed
  with \<open>set pre \<subseteq> {..y}\<close> show ?thesis using assms(1) by (auto simp: acked_def)
qed

lemma compress_ok:
  assumes "pre \<noteq> []" "sorted (pre @ ys)" "hd pre + 1 \<notin> set pre"
  shows "ack_window_ok (compress pre ys) \<and> acked (compress pre ys) = acked (pre @ ys)"
  using assms
proof (induction ys arbitrary: pre)
  case Nil
  then show ?case by (simp add: ack_window_ok_def)
next
  case (Cons y ys)
  have s: "sorted (pre @ [y])" using Cons.prems(2) by (auto simp: sorted_append)
  show ?case
  proof (cases "hd pre + 1 = y")
    case True
    have "acked (pre @ [y]) = acked [y]" using acked_extend [OF Cons.prems(1) s Cons.prems(3) True] .
    then have "acked (pre @ y # ys) = acked (y # ys)" using Cons.prems(1) by (auto simp: acked_def)
    moreover have "compress pre (y # ys) = compress [y] ys"
      by (simp only: compress.simps compress_step [OF Cons.prems(1) s Cons.prems(3)] True if_True refl)
    ultimately show ?thesis using Cons.IH [of "[y]"] Cons.prems(2) by (simp add: sorted_append)
  next
    case False
    then have "compress pre (y # ys) = compress (pre @ [y]) ys"
      by (simp only: compress.simps compress_step [OF Cons.prems(1) s Cons.prems(3)] if_False)
    then show ?thesis using Cons.IH [of "pre @ [y]"] Cons.prems False by (auto simp: sorted_append)
  qed
qed

lemma update_xid_rep_ok:
  assumes "ack_window_ok w"
  shows "ack_window_ok (update_xid_rep xid w)" "acked (update_xid_rep xid w) = insert xid (acked w)"
proof -
  have "ack_window_ok (update_xid_rep xid w) \<and> acked (update_xid_rep xid w) = insert xid (acked w)"
  proof (cases "xid \<le> hd w")
    case True
    then show ?thesis using assms by (auto simp: update_xid_rep_def acked_def)
  next
    case False
    have w: "w \<noteq> []" "sorted w" using assms by (auto simp: ack_window_ok_def)
    have i: "insert_xid xid w = hd w # insert_xid xid (tl w)" using insert_xid_hd w(1) False by blast
    have "sorted ([hd w] @ insert_xid xid (tl w))" using sorted_insert_xid [OF w(2), of xid] i by simp
    moreover have "acked (insert_xid xid w) = insert xid (acked w)"
      using arg_cong [OF i, of hd] by (simp add: acked_def)
    ultimately show ?thesis using compress_ok [of "[hd w]" "insert_xid xid (tl w)"] i False
      by (simp add: update_xid_rep_def)
  qed
  then show "ack_window_ok (update_xid_rep xid w)" "acked (update_xid_rep xid w) = insert xid (acked w)"
    by simp_all
qed

lemma hd_maximal:
  assumes "ack_window_ok w"
  shows "{..n} \<subseteq> acked w \<longleftrightarrow> n \<le> hd w"
proof
  assume sub: "{..n} \<subseteq> acked w"
  show "n \<le> hd w"
  proof (rule ccontr)
    assume "\<not> n \<le> hd w"
    then have "hd w < n" by simp
    then have "hd w + 1 \<le> n" "\<not> hd w + 1 \<le> hd w" by (uint_arith)+
    then have "hd w + 1 \<in> set w" using sub by (auto simp: acked_def)
    then show False using assms by (simp add: ack_window_ok_def)
  qed
qed (auto simp: acked_def)

subsection \<open>Interleaved calls\<close>

text \<open>
  Threads that call, replies that arrive, calls that end. \<open>cl_sent\<close> lists the headers of the
  requests the client has made.
\<close>

record client =
  cl_rc :: rpcc
  cl_sent :: "req_header list"

definition reply_xid :: "cell list \<Rightarrow> u32" where
  "reply_xid b = rp_xid (fst (unpack_reply_header (unmarshall_buf b)))"

inductive client_step :: "client \<Rightarrow> client \<Rightarrow> bool" where
  client_begin: "client_step cl (cl\<lparr>cl_rc := rc', cl_sent :=
      fst (unpack_req_header (unmarshall_buf (wire m))) # cl_sent cl\<rparr>)"
  if "call_begin proc req (cl_rc cl) = (Inr (xid, xid_rep, m), rc')" "m_ok req" "m_ind req < 2 ^ 32"
    "rc_xid (cl_rc cl) + 1 \<noteq> 0"
| client_reply: "client_step cl (cl\<lparr>cl_rc := rpcc_got_pdu b (cl_rc cl)\<rparr>)"
  if "reply_xid b < rc_xid (cl_rc cl)"
| client_end: "client_step cl (cl\<lparr>cl_rc := snd (call_end xid xid_rep req (cl_rc cl))\<rparr>)"
  if "smap_has xid (rc_calls (cl_rc cl))"
| client_cancel: "client_step cl (cl\<lparr>cl_rc := rpcc_cancel (cl_rc cl)\<rparr>)"
| client_bind: "client_step cl (cl\<lparr>cl_rc := rpcc_bind_result ret r (cl_rc cl)\<rparr>)"

inductive client_reachable :: "client \<Rightarrow> bool" where
  client_new: "client_reachable \<lparr>cl_rc = rpcc_new nonce lossy, cl_sent = []\<rparr>"
| client_next: "client_reachable cl \<Longrightarrow> client_step cl cl' \<Longrightarrow> client_reachable cl'"

definition client_inv :: "client \<Rightarrow> bool" where
  "client_inv cl \<longleftrightarrow> ack_window_ok (rc_xid_rep_window (cl_rc cl)) \<and>
     (\<forall>x \<in> acked (rc_xid_rep_window (cl_rc cl)). x < rc_xid (cl_rc cl)) \<and>
     (\<forall>x \<in> smap_keys (rc_calls (cl_rc cl)). x < rc_xid (cl_rc cl)) \<and>
     (\<forall>h \<in> set (cl_sent cl). rq_xid_rep h < rq_xid h \<and> rq_xid h < rc_xid (cl_rc cl)
        \<and> rq_clt_nonce h = rc_clt_nonce (cl_rc cl)) \<and>
     distinct (map rq_xid (cl_sent cl))"

lemma less_inc:
  fixes a :: u32
  assumes "a + 1 \<noteq> 0"
  shows "a < a + 1" "x < a \<Longrightarrow> x < a + 1"
  using assms by uint_arith+

lemma rpcc_got_pdu_inv:
  assumes "ack_window_ok (rc_xid_rep_window rc)" "rc' = rpcc_got_pdu b rc"
  shows "rc_xid rc' = rc_xid rc" "rc_clt_nonce rc' = rc_clt_nonce rc"
    "ack_window_ok (rc_xid_rep_window rc')"
    "acked (rc_xid_rep_window rc') \<subseteq> insert (reply_xid b) (acked (rc_xid_rep_window rc))"
    "smap_keys (rc_calls rc') = smap_keys (rc_calls rc)"
proof -
  obtain h rep where u: "unpack_reply_header (unmarshall_buf b) = (h, rep)" by fastforce
  have "rc_calls rc' = rc_calls rc \<or>
      (\<exists>ca. rp_xid h \<in> smap_keys (rc_calls rc) \<and> rc_calls rc' = smap_set (rp_xid h) ca (rc_calls rc))"
    by (auto simp: assms(2) rpcc_got_pdu_def u Let_def split: option.splits dest: map_of_keys)
  then show "smap_keys (rc_calls rc') = smap_keys (rc_calls rc)"
    by auto
  have w: "rc_xid_rep_window rc' = (if u_ok rep then update_xid_rep (rp_xid h) (rc_xid_rep_window rc)
      else rc_xid_rep_window rc)"
    by (auto simp: assms(2) rpcc_got_pdu_def u Let_def split: option.splits)
  then show "ack_window_ok (rc_xid_rep_window rc')"
    "acked (rc_xid_rep_window rc') \<subseteq> insert (reply_xid b) (acked (rc_xid_rep_window rc))"
    using update_xid_rep_ok [OF assms(1)] assms(1) by (auto simp: reply_xid_def u)
  show "rc_xid rc' = rc_xid rc" "rc_clt_nonce rc' = rc_clt_nonce rc"
    by (auto simp: assms(2) rpcc_got_pdu_def u Let_def split: option.splits)
qed

lemma call_end_inv:
  assumes "rc' = snd (call_end xid xid_rep req rc)"
  shows "rc_xid rc' = rc_xid rc" "rc_clt_nonce rc' = rc_clt_nonce rc"
    "rc_xid_rep_window rc' = update_xid_rep xid (rc_xid_rep_window rc)"
    "smap_keys (rc_calls rc') \<subseteq> smap_keys (rc_calls rc)"
  by (auto simp: assms call_end_def Let_def)

lemma client_inv_step:
  assumes "client_step cl cl'" "client_inv cl"
  shows "client_inv cl'"
  using assms(1)
proof cases
  case (client_begin proc req xid xid_rep m rc')
  let ?rc = "cl_rc cl"
  define h where "h = \<lparr>rq_xid = rc_xid ?rc, rq_proc = proc, rq_clt_nonce = rc_clt_nonce ?rc,
      rq_srv_nonce = rc_srv_nonce ?rc, rq_xid_rep = hd (rc_xid_rep_window ?rc)\<rparr>"
  have m: "m = pack_req_header h req" "rc_xid rc' = rc_xid ?rc + 1" "rc_clt_nonce rc' = rc_clt_nonce ?rc"
    "rc_xid_rep_window rc' = rc_xid_rep_window ?rc"
    "smap_keys (rc_calls rc') = insert (rc_xid ?rc) (smap_keys (rc_calls ?rc))"
    using client_begin(2) by (auto simp: call_begin_def h_def Let_def split: if_splits)
  have "fst (unpack_req_header (unmarshall_buf (wire m))) = h"
    using unpack_req_header_wire [OF client_begin(3,4)] m(1) by simp
  moreover have "rq_xid_rep h < rq_xid h"
    using assms(2) by (simp add: client_inv_def h_def acked_def)
  ultimately show ?thesis using assms(2) client_begin(1) m(2-5) less_inc [OF client_begin(5)]
    by (auto simp: client_inv_def h_def dest: less_imp_neq)
next
  case (client_reply b)
  have w: "ack_window_ok (rc_xid_rep_window (cl_rc cl))" using assms(2) by (simp add: client_inv_def)
  show ?thesis
    using assms(2) client_reply rpcc_got_pdu_inv [OF w refl, of b] by (auto simp: client_inv_def)
next
  case (client_end xid xid_rep req)
  have "xid \<in> smap_keys (rc_calls (cl_rc cl))"
    using client_end(2) by (simp add: smap_has_keys)
  then show ?thesis
    using assms(2) client_end(1) call_end_inv [OF refl, of xid xid_rep req "cl_rc cl"]
    by (auto simp: client_inv_def update_xid_rep_ok)
next
  case client_cancel
  then show ?thesis using assms(2) by (auto simp: client_inv_def rpcc_cancel_def)
next
  case (client_bind ret r)
  then show ?thesis using assms(2) by (auto simp: client_inv_def rpcc_bind_result_def)
qed

lemma client_inv_reachable: "client_reachable cl \<Longrightarrow> client_inv cl"
proof (induction rule: client_reachable.induct)
  case (client_new nonce lossy)
  then show ?case by (auto simp: client_inv_def rpcc_new_def ack_window_ok_def acked_def)
qed (rule client_inv_step)

subsection \<open>One call from end to end\<close>

lemma dispatch_enter_run:
  assumes "dispatch_enter c b rs = Inr (Some k, rs')"
  shows "map_of (rs_procs rs) (rq_proc (request_of b)) = Some (snd (snd (snd k)))"
    and "k = (c, request_of b, snd (unpack_req_header (unmarshall_buf b)), snd (snd (snd k)))"
    and "rs_app rs' = rs_app rs"
proof -
  obtain h req where u: "unpack_req_header (unmarshall_buf b) = (h, req)" by fastforce
  obtain f where f: "map_of (rs_procs rs) (rq_proc h) = Some f"
    using assms by (cases "map_of (rs_procs rs) (rq_proc h)")
      (auto simp: dispatch_enter_def u res_bind_Inr Let_def split: if_splits)
  have "\<exists>st rs1. dispatch_switch c h req f st rs1 = Inr (Some k, rs')"
    using assms f by (auto simp: dispatch_enter_def u res_bind_Inr Let_def split_beta split: if_splits)
  then have k: "k = (c, h, req, f)" by (auto dest: dispatch_switch_frame(1) split: if_splits)
  then show "map_of (rs_procs rs) (rq_proc (request_of b)) = Some (snd (snd (snd k)))"
    "k = (c, request_of b, snd (unpack_req_header (unmarshall_buf b)), snd (snd (snd k)))"
    using f by (simp_all add: request_of_def u)
  show "rs_app rs' = rs_app rs"
    using assms by (rule dispatch_enter_cases [OF _ refl]) auto
qed

lemma dispatch_finish_sent:
  assumes "dispatch_finish c h ret rep rs = Inr rs'"
  shows "rs_app rs' = rs_app rs"
    and "\<exists>c'. rs_sent rs' = rs_sent rs @ [(c', reply_of h ret rep)]"
  using assms unfolding dispatch_finish_def
  by (auto simp: res_bind_Inr split_beta reply_of_def Let_def split: if_splits option.splits
    dest!: conn_ops_frame)

lemma take_in_ustate: "length pre = RPC_HEADER_SZ \<Longrightarrow> take_in (ustate pre bs) = ustate pre bs"
  by (simp add: take_in_def ustate_def)

lemma sint_ret: "0 \<le> ret \<Longrightarrow> ret < 2 ^ 31 \<Longrightarrow> sint (word_of_int ret :: u32) = ret"
  using signed_take_bit_int_eq_self [of 31 ret] by (simp add: sint_sbintrunc')

lemma m_ind_content: "m_ok m \<Longrightarrow> m_ind m = 24 + length (m_content m)"
  by (auto simp: m_content_def m_ok_def RPC_HEADER_SZ_def)

context codec
begin

text \<open>The server's side: the handler reads the argument the client marshalled.\<close>

lemma handler_reads:
  assumes "fits a" "m_ind (call_args1 put a) < 2 ^ 32"
  shows "reg_h1 get putr meth
      (snd (unpack_req_header (unmarshall_buf (wire (pack_req_header h (call_args1 put a)))))) ret s
    = res_bind (meth a s) (\<lambda>(b, r, s). Inr (b, putr r ret, s))"
proof -
  have ok: "m_ok (call_args1 put a)" "m_content (call_args1 put a) = enc a"
    by (simp_all add: call_args1_def put_ok put_content)
  let ?pre = "take RPC_HEADER_SZ (wire (pack_req_header h (call_args1 put a)))"
  have "length ?pre + length (enc a) < 2 ^ 32"
    using assms(2) m_ind_content [OF ok(1)] ok(2) by (simp add: RPC_HEADER_SZ_def)
  then have "get (ustate ?pre (enc a)) = (a, ustate (?pre @ map Some (enc a)) [])"
    using assms(1) by (intro get_enc_last)
  then show ?thesis using unpack_req_header_wire [OF ok(1) assms(2)] ok(2)
    by (simp add: reg_h1_def)
qed

text \<open>The client's side: the reply to an outstanding call completes it with the value sent.\<close>

lemma reply_completes:
  assumes "fits r" "m_ind (put r marshall_new) < 2 ^ 32"
    "map_of (rc_calls rc) xid = Some ca" "\<not> ca_done ca" "0 \<le> ret" "ret < 2 ^ 31"
    "rep = pack_reply_header \<lparr>rp_xid = xid, rp_ret = word_of_int ret\<rparr> (put r marshall_new)"
    "call_end xid xid_rep m (rpcc_got_pdu (wire rep) rc) = ((intret, un), rc')"
  shows "call_m_result get intret un = Inr (ret, Some r)"
proof -
  have ok: "m_ok (put r marshall_new)" "m_content (put r marshall_new) = enc r"
    by (simp_all add: put_ok put_content)
  let ?pre = "take RPC_HEADER_SZ (wire rep)"
  have u: "unpack_reply_header (unmarshall_buf (wire rep))
      = (\<lparr>rp_xid = xid, rp_ret = word_of_int ret\<rparr>, ustate ?pre (enc r))"
    using unpack_reply_header_wire [OF ok(1) assms(2)] ok(2) by (simp add: assms(7))
  have len: "24 + length (enc r) = m_ind (put r marshall_new)"
    using m_ind_content [OF ok(1)] ok(2) by simp
  have "length (m_buf (put r marshall_new)) = m_capa (put r marshall_new)" "24 \<le> m_capa (put r marshall_new)"
    using ok(1) by (auto simp: m_ok_def DEFAULT_RPC_SZ_def)
  then have "length (m_buf rep) = m_capa (put r marshall_new)"
    by (simp add: assms(7) pack_reply_header_eq length_memcpy)
  then have pre: "length ?pre = RPC_HEADER_SZ"
    using ok(1) \<open>24 \<le> m_capa _\<close> by (simp add: assms(7) wire_split RPC_HEADER_SZ_def)
  have "get (ustate ?pre (enc r)) = (r, ustate (?pre @ map Some (enc r)) [])"
    using assms(1,2) len pre by (intro get_enc_last) (simp_all add: RPC_HEADER_SZ_def)
  moreover have "intret = ret" "un = Some (ustate ?pre (enc r))"
    using assms(3-6,8) u pre sint_ret [of ret]
    by (auto simp: rpcc_got_pdu_def call_end_def Let_def take_in_ustate smap_val_def)
  ultimately show ?thesis using assms(5) by (simp add: call_m_result_def)
qed

end

subsection \<open>Properties\<close>

text \<open>(C3) A remote procedure call behaves like a call: the client marshals the argument and
  sends the request; if the server accepts it and its handler's method returns the value \<open>r\<close>
  with status \<open>ret\<close>, then the server's application state is the one the method left, the server
  sends one reply, and when the client receives that reply the call ends with status \<open>ret\<close> and
  value \<open>r\<close>. This holds for every argument and result type whose marshalling operators satisfy
  the contract \<open>codec\<close>.\<close>

theorem rpc_end_to_end:
  assumes "codec puta geta enca fitsa" "codec putr getr encr fitsr" "fitsa a" "fitsr r"
    and "m_ind (call_args1 puta a) < 2 ^ 32" "m_ind (putr r marshall_new) < 2 ^ 32"
    and "call_begin proc (call_args1 puta a) rc = (Inr (xid, xid_rep, m), rc1)"
    and "map_of (rs_procs rs) proc = Some (reg_h1 geta putr meth)"
    and "dispatch_enter c (wire m) rs = Inr (Some k, rs1)" "run_handler k rs1 = Inr rs2"
    and "meth a (rs_app rs) = Inr (ret, r, s')" "ret < 2 ^ 31"
  shows "\<exists>c' rep. rs_app rs2 = s' \<and> rs_sent rs2 = rs_sent rs1 @ [(c', m_buf rep, int (m_ind rep))] \<and>
    (case call_end xid xid_rep m (rpcc_got_pdu (wire rep) rc1) of
       ((intret, un), _) \<Rightarrow> call_m_result getr intret un = Inr (ret, Some r))"
proof -
  define h where "h = \<lparr>rq_xid = xid, rq_proc = proc, rq_clt_nonce = rc_clt_nonce rc,
      rq_srv_nonce = rc_srv_nonce rc, rq_xid_rep = xid_rep\<rparr>"
  define rep where "rep = pack_reply_header \<lparr>rp_xid = xid, rp_ret = word_of_int ret\<rparr> (putr r marshall_new)"
  have m: "m = pack_req_header h (call_args1 puta a)"
    "map_of (rc_calls rc1) xid = Some \<lparr>ca_un = None, ca_intret = 0, ca_done = False\<rparr>"
    using assms(7) by (auto simp: call_begin_def h_def Let_def split: if_splits)
  have "m_ok (call_args1 puta a)"
    using codec.put_ok [OF assms(1)] by (simp add: call_args1_def)
  then have req: "request_of (wire m) = h"
    using unpack_req_header_wire [OF _ assms(5)] m(1) by (simp add: request_of_def)
  have k: "k = (c, h, snd (unpack_req_header (unmarshall_buf (wire m))), reg_h1 geta putr meth)"
    using dispatch_enter_run(1,2) [OF assms(9)] assms(8) req by (simp add: h_def)
  have app: "rs_app rs1 = rs_app rs" using dispatch_enter_run(3) [OF assms(9)] .
  define rs1' where "rs1' = (if rs_counting rs1 \<noteq> 0 then updatestat (rq_proc h) rs1 else rs1)"
  have rs1': "rs_app rs1' = rs_app rs" "rs_sent rs1' = rs_sent rs1"
    using app by (simp_all add: rs1'_def updatestat_def Let_def)
  have fin: "dispatch_finish c h ret (putr r marshall_new) (rs1'\<lparr>rs_app := s'\<rparr>) = Inr rs2"
    using assms(10,11) codec.handler_reads [OF assms(1,3,5), of putr meth h marshall_new "rs_app rs"] rs1'(1)
    by (simp add: run_handler_def k m(1) rs1'_def [symmetric])
  then have "0 \<le> ret" by (auto simp: dispatch_finish_def split: if_splits)
  have "reply_of h ret (putr r marshall_new) = (m_buf rep, int (m_ind rep))"
    by (simp add: reply_of_def rep_def h_def Let_def)
  with dispatch_finish_sent [OF fin] rs1'(2) obtain c' where
    "rs_app rs2 = s'" "rs_sent rs2 = rs_sent rs1 @ [(c', m_buf rep, int (m_ind rep))]" by auto
  moreover have "case call_end xid xid_rep m (rpcc_got_pdu (wire rep) rc1) of
      ((intret, un), _) \<Rightarrow> call_m_result getr intret un = Inr (ret, Some r)"
    using codec.reply_completes [OF assms(2,4,6) m(2) _ \<open>0 \<le> ret\<close> assms(12) rep_def]
    by (auto split: prod.splits)
  ultimately show ?thesis by (intro exI conjI)
qed

lemma m_ind_put_uint: "m_ind (put_uint x marshall_new) = 28"
proof -
  have "m_ok (put_uint x marshall_new)" "m_content (put_uint x marshall_new) = enc_uint x"
    by (simp_all add: codec_simps)
  then show ?thesis by (simp add: m_ind_content)
qed

definition sample_bind :: marshall where
  "sample_bind = pack_req_header \<lparr>rq_xid = 1, rq_proc = rpc_bind, rq_clt_nonce = 5, rq_srv_nonce = 0,
     rq_xid_rep = 0\<rparr> (call_args1 put_uint 0)"

lemma sample_bind_begin:
  "\<exists>rc1. call_begin rpc_bind (call_args1 put_uint 0) (rpcc_new 5 False) = (Inr (1, 0, sample_bind), rc1)"
  by (simp add: call_begin_def rpcc_new_def sample_bind_def)

lemma sample_bind_unpack:
  "unpack_req_header (unmarshall_buf (wire sample_bind)) = (\<lparr>rq_xid = 1, rq_proc = rpc_bind,
     rq_clt_nonce = 5, rq_srv_nonce = 0, rq_xid_rep = 0\<rparr>, ustate (take RPC_HEADER_SZ (wire sample_bind)) (enc_uint 0))"
  using unpack_req_header_wire [of "call_args1 put_uint 0"]
  by (simp add: sample_bind_def call_args1_def codec_simps m_ind_put_uint)

lemma sample_bind_served:
  "\<exists>k rs1 rs2. dispatch_enter 1 (wire sample_bind) sample_rpcs = Inr (Some k, rs1) \<and> run_handler k rs1 = Inr rs2"
proof -
  let ?pre = "take RPC_HEADER_SZ (wire sample_bind)"
  have "get_uint (ustate ?pre (enc_uint 0)) = (0, ustate (?pre @ map Some (enc_uint 0)) [])"
    by (rule c_uint.get_enc_last) (simp_all add: RPC_HEADER_SZ_def)
  then have "reg_h1 get_uint put_uint (rpcbind 99) (ustate ?pre (enc_uint 0)) marshall_new ()
      = Inr (0, put_uint 99 marshall_new, ())"
    by (simp add: reg_h1_def rpcbind_def)
  then show ?thesis
    by (simp add: dispatch_enter_def sample_bind_unpack sample_rpcs_def rpcs_new_def rpc_bind_def
      save_conn_def conn_incref_def checkduplicate_and_update_def smap_index_def check_window_def
      dispatch_switch_def run_handler_def dispatch_finish_def add_reply_def incref_def decref_def
      connection_new_def conn_send_def conn_decref_def reply_new_def Let_def)
qed

theorem rpc_end_to_end_witness:
  "\<exists>k rs1 rs2 rc1 rep. call_begin rpc_bind (call_args1 put_uint 0) (rpcc_new 5 False) = (Inr (1, 0, sample_bind), rc1) \<and>
     dispatch_enter 1 (wire sample_bind) sample_rpcs = Inr (Some k, rs1) \<and> run_handler k rs1 = Inr rs2 \<and>
     (case call_end 1 0 sample_bind (rpcc_got_pdu (wire rep) rc1) of
        ((intret, un), _) \<Rightarrow> call_m_result get_uint intret un = Inr (0, Some 99))"
proof -
  obtain rc1 where b: "call_begin rpc_bind (call_args1 put_uint 0) (rpcc_new 5 False) = (Inr (1, 0, sample_bind), rc1)"
    using sample_bind_begin by blast
  obtain k rs1 rs2 where d: "dispatch_enter 1 (wire sample_bind) sample_rpcs = Inr (Some k, rs1)"
    "run_handler k rs1 = Inr rs2"
    using sample_bind_served by blast
  have p: "map_of (rs_procs sample_rpcs) rpc_bind = Some (reg_h1 get_uint put_uint (rpcbind 99))"
    by (simp add: sample_rpcs_def rpcs_new_def)
  have i: "m_ind (call_args1 put_uint 0) < 2 ^ 32" "m_ind (put_uint 99 marshall_new) < 2 ^ 32"
    "rpcbind 99 0 (rs_app sample_rpcs) = Inr (0, 99, ())" "(0 :: int) < 2 ^ 31"
    by (simp_all add: call_args1_def m_ind_put_uint rpcbind_def)
  obtain rep where "case call_end 1 0 sample_bind (rpcc_got_pdu (wire rep) rc1) of
      ((intret, un), _) \<Rightarrow> call_m_result get_uint intret un = Inr (0, Some 99)"
    using rpc_end_to_end [OF c_uint.codec_axioms c_uint.codec_axioms TrueI TrueI i(1,2) b p d i(3,4)]
    by (elim exE conjE)
  then show ?thesis using b d by (intro exI conjI)
qed



text \<open>Every request a client makes acknowledges only smaller XIDs and carries an XID of its own,
  for any interleaving of calls, replies, timeouts and cancellations, as long as the XIDs do not wrap
  around: the promise on which the server's at-most-once guarantee rests.\<close>

theorem requests_well_formed:
  assumes "client_reachable cl"
  shows "distinct (map rq_xid (cl_sent cl)) \<and> (\<forall>h \<in> set (cl_sent cl). rq_xid_rep h < rq_xid h)"
  using client_inv_reachable [OF assms] by (auto simp: client_inv_def)

theorem requests_well_formed_witness:
  "\<exists>cl. client_reachable cl \<and> cl_sent cl \<noteq> [] \<and> (\<forall>h \<in> set (cl_sent cl). rq_xid_rep h < rq_xid h)"
proof -
  let ?cl = "\<lparr>cl_rc = rpcc_new 5 False, cl_sent = []\<rparr>"
  obtain rc1 where "call_begin rpc_bind (call_args1 put_uint 0) (cl_rc ?cl) = (Inr (1, 0, sample_bind), rc1)"
    using sample_bind_begin by auto
  from client_step.client_begin [OF this] have "client_step ?cl (?cl\<lparr>cl_rc := rc1, cl_sent :=
      [fst (unpack_req_header (unmarshall_buf (wire sample_bind)))]\<rparr>)"
    by (simp add: call_args1_def codec_simps m_ind_put_uint rpcc_new_def)
  then have r: "client_reachable (?cl\<lparr>cl_rc := rc1, cl_sent :=
      [fst (unpack_req_header (unmarshall_buf (wire sample_bind)))]\<rparr>)"
    by (rule client_next [OF client_new])
  from requests_well_formed [OF r] r show ?thesis by (intro exI conjI) auto
qed

end
