(* ===== verification/Paxos.thy ===== *)
theory Paxos
  imports Text_IO Rpc_Server
begin

text \<open>
  The Paxos module: proposal numbers, the acceptor with its durable log, and the proposer
  (\<^verbatim>\<open>paxos.h\<close>, \<^verbatim>\<open>paxos.cc\<close>, the writing half of \<^verbatim>\<open>log.cc\<close>).
  The request handlers have the type the RPC library registers: they take the state and return
  the status, the result and the new state, or the failure of a \<^verbatim>\<open>VERIFY\<close>.
  The loops of the proposer call other nodes; what each call returns is an argument of the model.
\<close>

subsection \<open>Proposal numbers\<close>

definition prop_gt :: "prop_t \<Rightarrow> prop_t \<Rightarrow> bool" where
  "prop_gt a b \<longleftrightarrow> prop_n a > prop_n b \<or> prop_n a = prop_n b \<and> prop_m a > prop_m b"

definition prop_ge :: "prop_t \<Rightarrow> prop_t \<Rightarrow> bool" where
  "prop_ge a b \<longleftrightarrow> prop_n a > prop_n b \<or> prop_n a = prop_n b \<and> prop_m a \<ge> prop_m b"

instantiation prop_t :: linorder
begin

definition less_eq_prop_t :: "prop_t \<Rightarrow> prop_t \<Rightarrow> bool" where
  "less_eq_prop_t a b \<longleftrightarrow> prop_ge b a"

definition less_prop_t :: "prop_t \<Rightarrow> prop_t \<Rightarrow> bool" where
  "less_prop_t a b \<longleftrightarrow> prop_gt b a"

instance
proof
  fix x y z :: prop_t
  show "x < y \<longleftrightarrow> x \<le> y \<and> \<not> y \<le> x"
    by (auto simp: less_eq_prop_t_def less_prop_t_def prop_ge_def prop_gt_def)
  show "x \<le> x" by (simp add: less_eq_prop_t_def prop_ge_def)
  show "x \<le> y \<Longrightarrow> y \<le> z \<Longrightarrow> x \<le> z"
    by (auto simp: less_eq_prop_t_def prop_ge_def dest: less_trans)
  show "x \<le> y \<Longrightarrow> y \<le> x \<Longrightarrow> x = y"
    by (cases x; cases y) (auto simp: less_eq_prop_t_def prop_ge_def)
  show "x \<le> y \<or> y \<le> x" by (auto simp: less_eq_prop_t_def prop_ge_def)
qed

end

lemma prop_n_mono: "a \<le> b \<Longrightarrow> prop_n a \<le> prop_n (b :: prop_t)"
  by (auto simp: less_eq_prop_t_def prop_ge_def)

lemma prop_least: "Prop 0 [] < a \<or> a = Prop 0 []"
proof (cases a)
  case (Prop n m)
  then show ?thesis by (cases m) (auto simp: less_prop_t_def prop_gt_def word_gt_0)
qed

lemma prop_gt_less [simp]: "prop_gt a b \<longleftrightarrow> b < a"
  by (simp add: less_prop_t_def)

lemma prop_ge_le [simp]: "prop_ge a b \<longleftrightarrow> b \<le> a"
  by (simp add: less_eq_prop_t_def)

subsection \<open>Members and majorities\<close>

fun print_members :: "string list \<Rightarrow> string" where
  "print_members [] = []"
| "print_members [n] = n"
| "print_members (n # ns) = n @ '','' @ print_members ns"

fun isamember :: "string \<Rightarrow> string list \<Rightarrow> bool" where
  "isamember m [] = False"
| "isamember m (n # ns) = (if n = m then True else isamember m ns)"

definition majority :: "string list \<Rightarrow> string list \<Rightarrow> bool" where
  "majority l1 l2 \<longleftrightarrow> length (filter (\<lambda>x. isamember x l2) l1) \<ge> length l1 div 2 + 1"

lemma isamember_set [simp]: "isamember m ns \<longleftrightarrow> m \<in> set ns"
  by (induction ns) auto

text \<open>The contract of the proposer with its membership test: two quorums share a node.\<close>

locale quorum_system =
  fixes quorum :: "'node list \<Rightarrow> bool"
  assumes quorums_meet: "quorum S \<Longrightarrow> quorum T \<Longrightarrow> \<exists>x. x \<in> set S \<and> x \<in> set T"
    and quorum_mono: "quorum S \<Longrightarrow> set S \<subseteq> set T \<Longrightarrow> quorum T"

lemma filter_overlap:
  "length C < length (filter P C) + length (filter Q C) \<Longrightarrow> \<exists>x \<in> set C. P x \<and> Q x"
  by (induction C) (auto split: if_splits)

lemma length_filter_mono: "(\<And>x. P x \<Longrightarrow> Q x) \<Longrightarrow> length (filter P C) \<le> length (filter Q C)"
  by (induction C) (auto simp: le_SucI)

interpretation mq: quorum_system "majority C" for C
proof unfold_locales
  fix S T assume "majority C S" "majority C T"
  then have "length C < length (filter (\<lambda>x. isamember x S) C) + length (filter (\<lambda>x. isamember x T) C)"
    unfolding majority_def by linarith
  then show "\<exists>x. x \<in> set S \<and> x \<in> set T" using filter_overlap by fastforce
next
  fix S T assume "majority C S" "set S \<subseteq> set T"
  moreover have "length (filter (\<lambda>x. isamember x S) C) \<le> length (filter (\<lambda>x. isamember x T) C)"
    using \<open>set S \<subseteq> set T\<close> by (intro length_filter_mono) auto
  ultimately show "majority C T" by (simp add: majority_def)
qed

subsection \<open>Acceptor\<close>

text \<open>
  \<open>ac_log\<close> is the content of the log file, \<open>ac_upcalls\<close> the calls of
  \<^verbatim>\<open>cfg->paxos_commit\<close>, newest first.
\<close>

record acceptor =
  ac_me :: string
  ac_n_h :: prop_t
  ac_n_a :: prop_t
  ac_v_a :: string
  ac_instance_h :: u32
  ac_values :: "(u32, string) smap"
  ac_log :: string
  ac_cfg :: bool
  ac_upcalls :: "(u32 \<times> string) list"

abbreviation show_uint :: "u32 \<Rightarrow> string" where
  "show_uint n \<equiv> show_nat (unat n)"

definition loginstance :: "u32 \<Rightarrow> string \<Rightarrow> acceptor \<Rightarrow> acceptor" where
  "loginstance instance_no v acc = acc\<lparr>ac_log := ac_log acc @ ''done'' @ [space] @ show_uint instance_no
     @ [space] @ v @ [newline]\<rparr>"

definition logprop :: "prop_t \<Rightarrow> acceptor \<Rightarrow> acceptor" where
  "logprop n acc = acc\<lparr>ac_log := ac_log acc @ ''propseen'' @ [space] @ show_uint (prop_n n)
     @ [space] @ prop_m n @ [newline]\<rparr>"

definition logaccept :: "prop_t \<Rightarrow> string \<Rightarrow> acceptor \<Rightarrow> acceptor" where
  "logaccept n v acc = acc\<lparr>ac_log := ac_log acc @ ''accepted'' @ [space] @ show_uint (prop_n n)
     @ [space] @ prop_m n @ [space] @ v @ [newline]\<rparr>"

definition paxos_OK :: int where "paxos_OK = 0"

text \<open>The first argument is the result object the RPC library hands to the method.\<close>

definition preparereq :: "prepareres \<Rightarrow> string \<Rightarrow> preparearg \<Rightarrow> acceptor
    \<Rightarrow> (int \<times> prepareres \<times> acceptor) res" where
  "preparereq r src a acc =
     (let r = r\<lparr>pr_oldinstance := False, pr_accept := False\<rparr>
      in if pa_instance a \<le> ac_instance_h acc then
           (let (v, values) = smap_index [] (pa_instance a) (ac_values acc)
            in Inr (paxos_OK, r\<lparr>pr_oldinstance := True, pr_v_a := v\<rparr>, acc\<lparr>ac_values := values\<rparr>))
         else if prop_gt (pa_n a) (ac_n_h acc) then
           Inr (paxos_OK, r\<lparr>pr_n_a := ac_n_a acc, pr_v_a := ac_v_a acc, pr_accept := True\<rparr>,
             logprop (pa_n a) (acc\<lparr>ac_n_h := pa_n a\<rparr>))
         else Inr (paxos_OK, r, acc))"

definition acceptreq :: "string \<Rightarrow> acceptarg \<Rightarrow> acceptor \<Rightarrow> (int \<times> bool \<times> acceptor) res" where
  "acceptreq src a acc =
     (if prop_ge (aa_n a) (ac_n_h acc) then
        Inr (paxos_OK, True, logaccept (aa_n a) (aa_v a) (acc\<lparr>ac_n_a := aa_n a, ac_v_a := aa_v a\<rparr>))
      else Inr (paxos_OK, False, acc))"

definition commit_wo :: "u32 \<Rightarrow> string \<Rightarrow> acceptor \<Rightarrow> acceptor" where
  "commit_wo instance_no value acc =
     (if instance_no > ac_instance_h acc then
        (let acc = acc\<lparr>ac_values := smap_set instance_no value (ac_values acc)\<rparr>;
             acc = loginstance instance_no value acc;
             acc = acc\<lparr>ac_instance_h := instance_no, ac_n_h := Prop 0 (ac_me acc),
               ac_n_a := Prop 0 (ac_me acc), ac_v_a := []\<rparr>
         in if ac_cfg acc then acc\<lparr>ac_upcalls := (instance_no, value) # ac_upcalls acc\<rparr> else acc)
      else acc)"

definition decidereq :: "string \<Rightarrow> decidearg \<Rightarrow> u32 \<Rightarrow> acceptor \<Rightarrow> (int \<times> u32 \<times> acceptor) res" where
  "decidereq src a r acc =
     (if da_instance a = ac_instance_h acc + 1 then
        (if ac_v_a acc \<noteq> da_v a then Inl Verify_failed
         else Inr (paxos_OK, r, commit_wo (da_instance a) (ac_v_a acc) acc))
      else if da_instance a \<le> ac_instance_h acc then Inr (paxos_OK, r, acc)
      else Inl Verify_failed)"

definition acceptor_commit :: "u32 \<Rightarrow> string \<Rightarrow> acceptor \<Rightarrow> acceptor" where
  "acceptor_commit instance_no value acc = commit_wo instance_no value acc"

subsection \<open>Proposer\<close>

record proposer =
  pp_me :: string
  pp_my_n :: prop_t
  pp_stable :: bool
  pp_break1 :: bool
  pp_break2 :: bool

definition proposer_new :: "string \<Rightarrow> proposer" where
  "proposer_new me = \<lparr>pp_me = me, pp_my_n = Prop 0 me, pp_stable = True, pp_break1 = False,
     pp_break2 = False\<rparr>"

definition isrunning :: "proposer \<Rightarrow> bool" where
  "isrunning p \<longleftrightarrow> \<not> pp_stable p"

definition setn :: "acceptor \<Rightarrow> proposer \<Rightarrow> proposer" where
  "setn acc p = p\<lparr>pp_my_n := Prop
     (if prop_n (ac_n_h acc) + 1 > prop_n (pp_my_n p) + 1 then prop_n (ac_n_h acc) + 1
      else prop_n (pp_my_n p) + 1) (prop_m (pp_my_n p))\<rparr>"

text \<open>\<^verbatim>\<open>proposer::prepare\<close>: \<open>Inl v\<close> when a node answered that the instance is over with
  value \<open>v\<close>; otherwise the nodes that accepted and the value to propose.\<close>

fun prepare_loop :: "(string \<times> prepareres outcome) list \<Rightarrow> prop_t \<Rightarrow> string list \<Rightarrow> string
    \<Rightarrow> string + string list \<times> string" where
  "prepare_loop [] mx accepts v = Inr (accepts, v)"
| "prepare_loop ((cid, Unbound) # outs) mx accepts v = prepare_loop outs mx accepts v"
| "prepare_loop ((cid, Returned ret r) # outs) mx accepts v =
     (if ret = paxos_OK then
        (if pr_oldinstance r then Inl (pr_v_a r)
         else if pr_accept r then
           (if prop_gt (pr_n_a r) mx then prepare_loop outs (pr_n_a r) (accepts @ [cid]) (pr_v_a r)
            else prepare_loop outs mx (accepts @ [cid]) v)
         else prepare_loop outs mx accepts v)
      else prepare_loop outs mx accepts v)"

definition prepare :: "(string \<times> prepareres outcome) list \<Rightarrow> string + string list \<times> string" where
  "prepare outs = prepare_loop outs (Prop 0 []) [] []"

text \<open>\<^verbatim>\<open>proposer::accept\<close>: the nodes that accepted.\<close>

fun accept_loop :: "(string \<times> bool outcome) list \<Rightarrow> string list \<Rightarrow> string list" where
  "accept_loop [] accepts = accepts"
| "accept_loop ((cid, Unbound) # outs) accepts = accept_loop outs accepts"
| "accept_loop ((cid, Returned ret r) # outs) accepts =
     (if r \<and> ret = paxos_OK then accept_loop outs (accepts @ [cid]) else accept_loop outs accepts)"

text \<open>The requests \<^verbatim>\<open>proposer::decide\<close> sends; it ignores their results.\<close>

definition decide :: "u32 \<Rightarrow> string list \<Rightarrow> string \<Rightarrow> (string \<times> decidearg) list" where
  "decide instance_no accepts v = map (\<lambda>cid. (cid, \<lparr>da_instance = instance_no, da_v = v\<rparr>)) accepts"

text \<open>
  \<^verbatim>\<open>proposer::run\<close> at its own acceptor. \<open>prep\<close> gives the outcome of the prepare call to
  each node, \<open>acpt\<close> that of the accept call, given the arguments of the calls. \<open>Run_died\<close> is the
  exit at a breakpoint; \<open>Run_done\<close> carries the decide requests.
\<close>

datatype run_result = Run_refused | Run_died | Run_failed | Run_done "(string \<times> decidearg) list"

definition run :: "(preparearg \<Rightarrow> string \<Rightarrow> prepareres outcome) \<Rightarrow> (acceptarg \<Rightarrow> string \<Rightarrow> bool outcome)
    \<Rightarrow> u32 \<Rightarrow> string list \<Rightarrow> string \<Rightarrow> proposer \<Rightarrow> acceptor \<Rightarrow> run_result \<times> proposer \<times> acceptor" where
  "run prep acpt instance_no cur_nodes newv p acc =
     (if \<not> pp_stable p then (Run_refused, p, acc)
      else let p = setn acc (p\<lparr>pp_stable := False\<rparr>);
               pa = \<lparr>pa_instance = instance_no, pa_n = pp_my_n p\<rparr>
       in case prepare (map (\<lambda>cid. (cid, prep pa cid)) cur_nodes) of
           Inl v \<Rightarrow> (Run_failed, p\<lparr>pp_stable := True\<rparr>, acceptor_commit instance_no v acc)
         | Inr (accepts, v) \<Rightarrow>
             if majority cur_nodes accepts then
               (let v = (if v = [] then newv else v)
                in if pp_break1 p then (Run_died, p, acc)
                   else let aa = \<lparr>aa_instance = instance_no, aa_n = pp_my_n p, aa_v = v\<rparr>;
                            nodes = accepts;
                            accepts = accept_loop (map (\<lambda>cid. (cid, acpt aa cid)) nodes) []
                     in if majority cur_nodes accepts then
                          (if pp_break2 p then (Run_died, p, acc)
                           else (Run_done (decide instance_no accepts v), p\<lparr>pp_stable := True\<rparr>, acc))
                        else (Run_failed, p\<lparr>pp_stable := True\<rparr>, acc))
             else (Run_failed, p\<lparr>pp_stable := True\<rparr>, acc))"

definition proposer_breakpoint :: "nat \<Rightarrow> proposer \<Rightarrow> proposer" where
  "proposer_breakpoint b p =
     (if b = 3 then p\<lparr>pp_break1 := True\<rparr> else if b = 4 then p\<lparr>pp_break2 := True\<rparr> else p)"

subsection \<open>What the loops compute\<close>

text \<open>The prepare replies that count: the nodes that accepted, with their replies.\<close>

definition promises_in :: "(string \<times> prepareres outcome) list \<Rightarrow> (string \<times> prepareres) list" where
  "promises_in outs = List.map_filter (\<lambda>(cid, out). case out of
     Returned ret r \<Rightarrow> if ret = paxos_OK \<and> \<not> pr_oldinstance r \<and> pr_accept r then Some (cid, r) else None
   | Unbound \<Rightarrow> None) outs"

lemma promises_in_simps [simp]:
  "promises_in [] = []"
  "promises_in ((cid, Unbound) # outs) = promises_in outs"
  "promises_in ((cid, Returned ret r) # outs) =
     (if ret = paxos_OK \<and> \<not> pr_oldinstance r \<and> pr_accept r then (cid, r) # promises_in outs
      else promises_in outs)"
  by (simp_all add: promises_in_def List.map_filter_def)

text \<open>\<open>v'\<close> is the value reported with the highest number above \<open>mx\<close>, or \<open>v\<close> if there is none.\<close>

definition best_vote :: "(string \<times> prepareres) set \<Rightarrow> prop_t \<Rightarrow> string \<Rightarrow> string \<Rightarrow> bool" where
  "best_vote R mx v v' \<longleftrightarrow> v' = v \<and> (\<forall>x \<in> R. pr_n_a (snd x) \<le> mx) \<or>
     (\<exists>x \<in> R. v' = pr_v_a (snd x) \<and> mx < pr_n_a (snd x) \<and> (\<forall>y \<in> R. pr_n_a (snd y) \<le> pr_n_a (snd x)))"

lemma best_vote_keep:
  assumes "best_vote R mx v v'" "pr_n_a (snd x) \<le> mx"
  shows "best_vote (insert x R) mx v v'"
proof (cases "v' = v \<and> (\<forall>x \<in> R. pr_n_a (snd x) \<le> mx)")
  case True
  then show ?thesis using assms(2) by (simp add: best_vote_def)
next
  case False
  then obtain y where "y \<in> R" "v' = pr_v_a (snd y)" "mx < pr_n_a (snd y)"
    "\<forall>z \<in> R. pr_n_a (snd z) \<le> pr_n_a (snd y)"
    using assms(1) unfolding best_vote_def by blast
  moreover have "pr_n_a (snd x) \<le> pr_n_a (snd y)" using assms(2) calculation(3) by (rule order.strict_implies_order [OF le_less_trans])
  ultimately show ?thesis unfolding best_vote_def by blast
qed

lemma best_vote_take:
  assumes "best_vote R (pr_n_a (snd x)) (pr_v_a (snd x)) v'" "mx < pr_n_a (snd x)"
  shows "best_vote (insert x R) mx v v'"
proof (cases "v' = pr_v_a (snd x) \<and> (\<forall>y \<in> R. pr_n_a (snd y) \<le> pr_n_a (snd x))")
  case True
  then show ?thesis using assms(2) unfolding best_vote_def by blast
next
  case False
  then obtain y where "y \<in> R" "v' = pr_v_a (snd y)" "pr_n_a (snd x) < pr_n_a (snd y)"
    "\<forall>z \<in> R. pr_n_a (snd z) \<le> pr_n_a (snd y)"
    using assms(1) unfolding best_vote_def by blast
  moreover have "mx < pr_n_a (snd y)" using assms(2) calculation(3) by (rule less_trans)
  moreover have "pr_n_a (snd x) \<le> pr_n_a (snd y)" using calculation(3) by (rule less_imp_le)
  ultimately show ?thesis unfolding best_vote_def by blast
qed

lemma prepare_loop_ok:
  assumes "prepare_loop outs mx accepts v = Inr (accepts', v')"
  shows "accepts' = accepts @ map fst (promises_in outs) \<and> best_vote (set (promises_in outs)) mx v v'"
  using assms
proof (induction outs mx accepts v rule: prepare_loop.induct)
  case (3 cid ret r outs mx accepts v)
  then show ?case
    using best_vote_keep [of "set (promises_in outs)" mx v v' "(cid, r)"]
      best_vote_take [of "set (promises_in outs)" "(cid, r)" v' mx v]
    by (auto split: if_splits)
qed (auto simp: best_vote_def)

lemma accept_loop_set:
  "set (accept_loop outs accepts) = set accepts \<union> {cid. (cid, Returned paxos_OK True) \<in> set outs}"
  by (induction outs accepts rule: accept_loop.induct) auto

end
