(* ===== verification/Paxos_Log.thy ===== *)
theory Paxos_Log
  imports Paxos
begin

text \<open>
  The durable log of an acceptor (\<^verbatim>\<open>log.cc\<close>) and the recovery from it. The log is the text
  of a file; \<open>logread\<close> parses it with the stream operations of \<^verbatim>\<open>iostream\<close>. The main
  result: whatever requests an acceptor has served, an acceptor restarted from its log answers the
  same, because it recovers the same state.
\<close>

subsection \<open>Reading the log\<close>

lemma stream_le:
  "length (st_rest (snd (extract_word old s))) \<le> length (st_rest s)"
  "length (st_rest (snd (extract_uint n s))) \<le> length (st_rest s)"
  "length (st_rest (stream_get s)) \<le> length (st_rest s)"
  "length (st_rest (snd (stream_getline old s))) \<le> length (st_rest s)"
proof -
  note le = length_dropWhile_le order_trans [OF length_dropWhile_le]
  show "length (st_rest (snd (extract_word old s))) \<le> length (st_rest s)"
    by (simp add: extract_word_def Let_def le)
  have "length (tl xs) \<le> length ys" if "length xs \<le> length ys" for xs ys :: string using that by simp
  then show "length (st_rest (snd (extract_uint n s))) \<le> length (st_rest s)"
    by (simp add: extract_uint_def Let_def le)
  show "length (st_rest (stream_get s)) \<le> length (st_rest s)"
    by (simp add: stream_get_def split: list.splits)
  show "length (st_rest (snd (stream_getline old s))) \<le> length (st_rest s)"
    by (simp add: stream_getline_def) (meson diff_le_self le_trans length_dropWhile_le)
qed

text \<open>The body of the loop for one record, after its type has been read; the variable
  \<^verbatim>\<open>instance\<close> lives across iterations.\<close>

definition log_record :: "string \<Rightarrow> u32 \<Rightarrow> istream \<Rightarrow> acceptor \<Rightarrow> (u32 \<times> istream \<times> acceptor) res" where
  "log_record type inst s acc =
     (if type = ''done'' then
        (let (inst, s) = extract_uint inst s; s = stream_get s; (v, s) = stream_getline [] s
         in Inr (inst, s, acc\<lparr>ac_values := smap_set inst v (ac_values acc), ac_instance_h := inst,
              ac_v_a := [], ac_n_h := Prop 0 (prop_m (ac_n_h acc)), ac_n_a := Prop 0 (prop_m (ac_n_a acc))\<rparr>))
      else if type = ''propseen'' then
        (let (n, s) = extract_uint (prop_n (ac_n_h acc)) s; (m, s) = extract_word (prop_m (ac_n_h acc)) s
         in Inr (inst, s, acc\<lparr>ac_n_h := Prop n m\<rparr>))
      else if type = ''accepted'' then
        (let (n, s) = extract_uint (prop_n (ac_n_a acc)) s; (m, s) = extract_word (prop_m (ac_n_a acc)) s;
             s = stream_get s; (v, s) = stream_getline [] s
         in Inr (inst, s, acc\<lparr>ac_n_a := Prop n m, ac_v_a := v\<rparr>))
      else Inl Verify_failed)"

lemma log_record_shrinks:
  "log_record type inst s acc = Inr (inst', s', acc') \<Longrightarrow> length (st_rest s') \<le> length (st_rest s)"
  by (auto simp: log_record_def Let_def split_beta split: if_splits)
    (rule order_trans [OF stream_le(1)] order_trans [OF stream_le(2)] order_trans [OF stream_le(3)]
      order_trans [OF stream_le(4)] order_refl)+

function logread_loop :: "u32 \<Rightarrow> istream \<Rightarrow> acceptor \<Rightarrow> acceptor res" where
  "logread_loop inst s acc =
     (let (type, s') = extract_word [] s
      in if \<not> st_ok s' then Inr acc
         else case log_record type inst s' acc of
             Inl e \<Rightarrow> Inl e
           | Inr (inst, s', acc) \<Rightarrow> logread_loop inst s' acc)"
  by pat_completeness auto

termination
  by (relation "measure (\<lambda>(inst, s, acc). length (st_rest s))")
    (fastforce dest: extract_word_shrinks [OF sym] log_record_shrinks)+

declare logread_loop.simps [simp del]

definition logread :: "acceptor \<Rightarrow> acceptor res" where
  "logread acc = logread_loop 0 (istream_of (ac_log acc)) acc"

lemma getline_shrinks:
  "stream_getline old s = (v, s') \<Longrightarrow> st_ok s' \<Longrightarrow> length (st_rest s') < length (st_rest s)"
  using length_dropWhile_le [of "\<lambda>c. c \<noteq> newline" "st_rest s"]
  by (auto simp: stream_getline_def split: if_splits) (cases "st_rest s"; simp add: le_imp_less_Suc)

text \<open>\<^verbatim>\<open>log::dump\<close> copies the lines of the file.\<close>

function dump_lines :: "istream \<Rightarrow> string \<Rightarrow> string" where
  "dump_lines s res =
     (let (v, s') = stream_getline [] s
      in if \<not> st_ok s' then res else dump_lines s' (res @ v @ [newline]))"
  by pat_completeness auto

termination
  by (relation "measure (\<lambda>(s, res). length (st_rest s))") (auto dest: getline_shrinks [OF sym])

declare dump_lines.simps [simp del]

definition log_dump :: "acceptor \<Rightarrow> string" where
  "log_dump acc = dump_lines (istream_of (ac_log acc)) []"

definition log_restore :: "string \<Rightarrow> acceptor \<Rightarrow> acceptor" where
  "log_restore s acc = acc\<lparr>ac_log := s\<rparr>"

definition acceptor_restore :: "string \<Rightarrow> acceptor \<Rightarrow> acceptor res" where
  "acceptor_restore s acc = logread (log_restore s acc)"

text \<open>The constructor of the acceptor; \<open>file\<close> is the content of the log file it finds.\<close>

definition acceptor_new :: "bool \<Rightarrow> bool \<Rightarrow> string \<Rightarrow> string \<Rightarrow> string \<Rightarrow> acceptor res" where
  "acceptor_new cfg first me value file = res_bind
     (logread \<lparr>ac_me = me, ac_n_h = Prop 0 me, ac_n_a = Prop 0 me, ac_v_a = [], ac_instance_h = 0,
        ac_values = [], ac_log = file, ac_cfg = cfg, ac_upcalls = []\<rparr>)
     (\<lambda>acc. Inr (if ac_instance_h acc = 0 \<and> first
        then (loginstance 1 value (acc\<lparr>ac_values := smap_set 1 value (ac_values acc)\<rparr>))\<lparr>ac_instance_h := 1\<rparr>
        else acc))"

subsection \<open>Records\<close>

datatype log_entry = Done u32 string | Propseen prop_t | Accepted prop_t string

fun render :: "log_entry \<Rightarrow> string" where
  "render (Done i v) = ''done'' @ [space] @ show_uint i @ [space] @ v @ [newline]"
| "render (Propseen n) = ''propseen'' @ [space] @ show_uint (prop_n n) @ [space] @ prop_m n @ [newline]"
| "render (Accepted n v) = ''accepted'' @ [space] @ show_uint (prop_n n) @ [space] @ prop_m n
     @ [space] @ v @ [newline]"

text \<open>What a record means for the state of an acceptor.\<close>

fun replay :: "log_entry \<Rightarrow> acceptor \<Rightarrow> acceptor" where
  "replay (Done i v) acc = acc\<lparr>ac_values := smap_set i v (ac_values acc), ac_instance_h := i,
     ac_v_a := [], ac_n_h := Prop 0 (prop_m (ac_n_h acc)), ac_n_a := Prop 0 (prop_m (ac_n_a acc))\<rparr>"
| "replay (Propseen n) acc = acc\<lparr>ac_n_h := n\<rparr>"
| "replay (Accepted n v) acc = acc\<lparr>ac_n_a := n, ac_v_a := v\<rparr>"

definition one_line :: "string \<Rightarrow> bool" where
  "one_line v \<longleftrightarrow> newline \<notin> set v"

fun entry_ok :: "log_entry \<Rightarrow> bool" where
  "entry_ok (Done i v) \<longleftrightarrow> one_line v"
| "entry_ok (Propseen n) \<longleftrightarrow> is_word (prop_m n)"
| "entry_ok (Accepted n v) \<longleftrightarrow> is_word (prop_m n) \<and> one_line v"

text \<open>The words that start a record.\<close>

lemma record_words [simp]: "is_word ''done''" "is_word ''propseen''" "is_word ''accepted''"
  by (simp_all add: is_word_def is_space_def)

lemma read_type:
  "is_word w \<Longrightarrow> extract_word old (istream_of (w @ space # t)) = (w, istream_of (space # t))"
  by (rule extract_word_append) simp_all

lemma read_number:
  "extract_uint old (istream_of (space # show_uint i @ space # t)) = (i, istream_of (space # t))"
  by (simp add: text_simps)

lemma read_name:
  "is_word m \<Longrightarrow> is_space c \<Longrightarrow>
   extract_word old (istream_of (space # m @ c # t)) = (m, istream_of (c # t))"
  using extract_word_append [of m "c # t" old] by (simp add: extract_word_space)

lemma read_value:
  "one_line v \<Longrightarrow>
   stream_getline old (stream_get (istream_of (space # v @ newline # t))) = (v, istream_of t)"
  by (simp add: text_simps one_line_def)

text \<open>One turn of the loop reads one record. A record that ends in a name leaves its newline,
  which the next turn skips.\<close>

lemma logread_skip_newline:
  "logread_loop inst (istream_of (newline # s)) acc = logread_loop inst (istream_of s) acc"
  by (subst (1 2) logread_loop.simps) (simp add: extract_word_space)

lemma logread_entry:
  assumes "entry_ok e"
  shows "\<exists>inst'. logread_loop inst (istream_of (render e @ t)) acc
     = logread_loop inst' (istream_of t) (replay e acc)"
proof (cases e)
  case (Done i v)
  then show ?thesis using assms read_type [of "''done''"] read_number read_value [of v]
    by (subst logread_loop.simps) (auto simp: log_record_def)
next
  case (Propseen n)
  then show ?thesis using assms read_type [of "''propseen''"] read_number read_name [of "prop_m n" newline]
    by (subst logread_loop.simps) (auto simp: log_record_def logread_skip_newline)
next
  case (Accepted n v)
  then show ?thesis using assms read_type [of "''accepted''"] read_number read_name [of "prop_m n" space] read_value [of v]
    by (subst logread_loop.simps) (auto simp: log_record_def)
qed

lemma logread_entries:
  assumes "list_all entry_ok es"
  shows "logread_loop inst (istream_of (concat (map render es))) acc = Inr (fold replay es acc)"
  using assms
proof (induction es arbitrary: inst acc)
  case Nil
  then show ?case by (subst logread_loop.simps) (simp add: extract_word_end)
next
  case (Cons e es)
  obtain inst' where "logread_loop inst (istream_of (render e @ concat (map render es))) acc
      = logread_loop inst' (istream_of (concat (map render es))) (replay e acc)"
    using logread_entry [of e inst _ acc] Cons.prems by auto
  then show ?case using Cons by simp
qed

subsection \<open>A running acceptor and its log\<close>

text \<open>The requests an acceptor serves, and the commits its own proposer makes.\<close>

datatype acc_op = Op_prepare prepareres string preparearg | Op_accept string acceptarg
  | Op_decide string decidearg u32 | Op_commit u32 string

fun acc_step :: "acc_op \<Rightarrow> acceptor \<Rightarrow> acceptor res" where
  "acc_step (Op_prepare r src a) acc = res_bind (preparereq r src a acc) (\<lambda>(st, r, acc). Inr acc)"
| "acc_step (Op_accept src a) acc = res_bind (acceptreq src a acc) (\<lambda>(st, r, acc). Inr acc)"
| "acc_step (Op_decide src a r) acc = res_bind (decidereq src a r acc) (\<lambda>(st, r, acc). Inr acc)"
| "acc_step (Op_commit i v) acc = Inr (acceptor_commit i v acc)"

fun acc_run :: "acc_op list \<Rightarrow> acceptor \<Rightarrow> acceptor res" where
  "acc_run [] acc = Inr acc"
| "acc_run (x # xs) acc = res_bind (acc_step x acc) (acc_run xs)"

text \<open>The text of a log can be read back if names are single words and values single lines.\<close>

fun op_ok :: "acc_op \<Rightarrow> bool" where
  "op_ok (Op_prepare r src a) \<longleftrightarrow> is_word (prop_m (pa_n a))"
| "op_ok (Op_accept src a) \<longleftrightarrow> is_word (prop_m (aa_n a)) \<and> one_line (aa_v a)"
| "op_ok (Op_decide src a r) \<longleftrightarrow> True"
| "op_ok (Op_commit i v) \<longleftrightarrow> one_line v"

text \<open>Two acceptor states that differ only in the names of proposals numbered zero, which stand
  for no proposal at all, and in entries of \<^verbatim>\<open>values\<close> created by looking them up.\<close>

definition same_prop :: "prop_t \<Rightarrow> prop_t \<Rightarrow> bool" where
  "same_prop a b \<longleftrightarrow> a = b \<or> prop_n a = 0 \<and> prop_n b = 0"

definition same_state :: "acceptor \<Rightarrow> acceptor \<Rightarrow> bool" where
  "same_state a b \<longleftrightarrow> ac_instance_h a = ac_instance_h b \<and> ac_v_a a = ac_v_a b \<and>
     same_prop (ac_n_h a) (ac_n_h b) \<and> same_prop (ac_n_a a) (ac_n_a b) \<and>
     (\<forall>k. smap_val [] k (ac_values a) = smap_val [] k (ac_values b))"

definition logged :: "acceptor \<Rightarrow> acceptor \<Rightarrow> bool" where
  "logged acc0 acc \<longleftrightarrow> one_line (ac_v_a acc) \<and>
     (\<exists>es. list_all entry_ok es \<and> ac_log acc = concat (map render es) \<and> same_state (fold replay es acc0) acc)"

lemma same_prop_refl [simp]: "same_prop a a"
  by (simp add: same_prop_def)

lemma loggedI:
  assumes "list_all entry_ok es" "ac_log acc = concat (map render es)"
    "same_state (fold replay es acc0) acc" "entry_ok e" "one_line (ac_v_a acc')"
    "ac_log acc' = ac_log acc @ render e"
    "\<And>a. same_state a acc \<Longrightarrow> same_state (replay e a) acc'"
  shows "logged acc0 acc'"
  unfolding logged_def using assms by (intro conjI exI [of _ "es @ [e]"]) auto

lemma logged_commit:
  assumes "logged acc0 acc" "one_line v"
  shows "logged acc0 (commit_wo i v acc)"
proof (cases "i > ac_instance_h acc")
  case True
  obtain es where es: "list_all entry_ok es" "ac_log acc = concat (map render es)"
    "same_state (fold replay es acc0) acc" using assms(1) by (auto simp: logged_def)
  show ?thesis
  proof (rule loggedI [OF es, of "Done i v"])
    show "same_state (replay (Done i v) a) (commit_wo i v acc)" if "same_state a acc" for a
      using that True by (auto simp: same_state_def commit_wo_def loginstance_def same_prop_def Let_def)
  qed (use True assms(2) in \<open>auto simp: commit_wo_def loginstance_def one_line_def Let_def\<close>)
next
  case False
  then show ?thesis using assms(1) by (simp add: commit_wo_def)
qed

lemma logged_step:
  assumes "logged acc0 acc" "op_ok x" "acc_step x acc = Inr acc'"
  shows "logged acc0 acc'"
proof -
  obtain es where es: "list_all entry_ok es" "ac_log acc = concat (map render es)"
    "same_state (fold replay es acc0) acc" "one_line (ac_v_a acc)" using assms(1) by (auto simp: logged_def)
  show ?thesis
  proof (cases x)
    case (Op_prepare r src a)
    consider (old) "pa_instance a \<le> ac_instance_h acc" | (new) "\<not> pa_instance a \<le> ac_instance_h acc"
      "ac_n_h acc < pa_n a" | (no) "acc' = acc"
      using assms(3) Op_prepare by (auto simp: preparereq_def Let_def split: if_splits)
    then show ?thesis
    proof cases
      case old
      then have "acc' = acc\<lparr>ac_values := snd (smap_index [] (pa_instance a) (ac_values acc))\<rparr>"
        using assms(3) Op_prepare by (auto simp: preparereq_def Let_def split_beta)
      then show ?thesis using es by (auto simp: logged_def same_state_def)
    next
      case new
      then have "acc' = logprop (pa_n a) (acc\<lparr>ac_n_h := pa_n a\<rparr>)"
        using assms(3) Op_prepare by (auto simp: preparereq_def Let_def)
      then show ?thesis using es assms(2) Op_prepare
        by (intro loggedI [OF es(1-3), of "Propseen (pa_n a)"]) (auto simp: logprop_def same_state_def)
    next
      case no
      then show ?thesis using assms(1) by simp
    qed
  next
    case (Op_accept src a)
    then show ?thesis using es assms
      by (cases "ac_n_h acc \<le> aa_n a")
        (auto simp: acceptreq_def logaccept_def same_state_def
          intro!: loggedI [OF es(1-3), of "Accepted (aa_n a) (aa_v a)"])
  next
    case (Op_decide src a r)
    then show ?thesis using assms es(4) logged_commit [OF assms(1)]
      by (auto simp: decidereq_def split: if_splits)
  next
    case (Op_commit i v)
    then show ?thesis using assms logged_commit by (auto simp: acceptor_commit_def)
  qed
qed

lemma logged_run:
  "logged acc0 acc \<Longrightarrow> list_all op_ok xs \<Longrightarrow> acc_run xs acc = Inr acc' \<Longrightarrow> logged acc0 acc'"
  by (induction xs arbitrary: acc) (auto simp: res_bind_Inr dest: logged_step)

lemma same_state_refl [simp]: "same_state a a"
  by (simp add: same_state_def)

lemma same_state_trans: "same_state a b \<Longrightarrow> same_state b c \<Longrightarrow> same_state a c"
  by (auto simp: same_state_def same_prop_def)

lemma replay_same: "same_state a b \<Longrightarrow> same_state (replay e a) (replay e b)"
  by (cases e) (auto simp: same_state_def same_prop_def)

lemma fold_replay_same: "same_state a b \<Longrightarrow> same_state (fold replay es a) (fold replay es b)"
  by (induction es arbitrary: a b) (auto intro: replay_same)

lemma replay_log [simp]: "ac_log (fold replay es a) = ac_log a"
proof -
  have "ac_log (replay e a) = ac_log a" for e a by (cases e) auto
  then show ?thesis by (induction es arbitrary: a) auto
qed

lemma logged_logread:
  assumes "logged acc0 acc" "same_state a acc0" "ac_log a = ac_log acc"
  shows "\<exists>acc'. logread a = Inr acc' \<and> same_state acc' acc \<and> ac_log acc' = ac_log acc"
proof -
  obtain es where es: "list_all entry_ok es" "ac_log acc = concat (map render es)"
    "same_state (fold replay es acc0) acc" using assms(1) by (auto simp: logged_def)
  have "logread a = Inr (fold replay es a)"
    using logread_entries [OF es(1)] es(2) assms(3) by (simp add: logread_def)
  moreover have "same_state (fold replay es a) acc"
    using fold_replay_same [OF assms(2)] es(3) same_state_trans by blast
  ultimately show ?thesis using assms(3) by simp
qed

lemma instance_mono_step: "acc_step x acc = Inr acc' \<Longrightarrow> ac_instance_h acc \<le> ac_instance_h acc'"
  by (cases x) (auto simp: preparereq_def acceptreq_def decidereq_def acceptor_commit_def commit_wo_def
    loginstance_def logprop_def logaccept_def Let_def split_beta split: if_splits)

lemma instance_mono: "acc_run xs acc = Inr acc' \<Longrightarrow> ac_instance_h acc \<le> ac_instance_h acc'"
  by (induction xs arbitrary: acc) (auto simp: res_bind_Inr dest: instance_mono_step intro: order_trans)

lemma logread_Nil: "ac_log a = [] \<Longrightarrow> logread a = Inr a"
  using logread_entries [of "[]" 0 a] by (simp add: logread_def)

abbreviation blank :: "bool \<Rightarrow> string \<Rightarrow> string \<Rightarrow> acceptor" where
  "blank cfg me file \<equiv> \<lparr>ac_me = me, ac_n_h = Prop 0 me, ac_n_a = Prop 0 me, ac_v_a = [], ac_instance_h = 0,
     ac_values = [], ac_log = file, ac_cfg = cfg, ac_upcalls = []\<rparr>"

lemma logged_new:
  assumes "acceptor_new cfg first me value [] = Inr acc" "one_line value"
  shows "logged (blank cfg me []) acc" "first \<Longrightarrow> ac_instance_h acc = 1"
proof -
  let ?b = "blank cfg me []"
  have acc: "acc = (if first then (loginstance 1 value (?b\<lparr>ac_values := smap_set 1 value []\<rparr>))\<lparr>ac_instance_h := 1\<rparr>
      else ?b)"
    using assms(1) logread_Nil [of ?b] by (auto simp: acceptor_new_def split: if_splits)
  then show "first \<Longrightarrow> ac_instance_h acc = 1" by simp
  have "logged ?b ?b" by (auto simp: logged_def one_line_def intro!: exI [of _ "[]"])
  moreover have "logged ?b acc" if first
    using that assms(2) acc
    by (intro loggedI [of "[]" ?b _ "Done 1 value"])
      (auto simp: loginstance_def same_state_def one_line_def same_prop_def smap_val_def)
  ultimately show "logged ?b acc" using acc by (cases first) auto
qed

subsection \<open>Copying a log\<close>

lemma dump_line:
  "one_line v \<Longrightarrow> dump_lines (istream_of (v @ newline # t)) res = dump_lines (istream_of t) (res @ v @ [newline])"
  by (subst dump_lines.simps) (simp add: text_simps one_line_def)

lemma one_line_append [simp]: "one_line (a @ b) \<longleftrightarrow> one_line a \<and> one_line b"
  by (auto simp: one_line_def)

lemma one_line_Cons [simp]: "one_line []" "one_line (c # s) \<longleftrightarrow> c \<noteq> newline \<and> one_line s"
  by (auto simp: one_line_def)

lemma one_line_word: "is_word w \<Longrightarrow> one_line w"
  by (auto simp: is_word_def one_line_def)

lemma render_line: "entry_ok e \<Longrightarrow> \<exists>l. render e = l @ [newline] \<and> one_line l"
proof (cases e)
  case (Done i v)
  then show "entry_ok e \<Longrightarrow> ?thesis"
    by (intro exI [of _ "''done'' @ [space] @ show_uint i @ [space] @ v"]) (auto intro: one_line_word)
next
  case (Propseen n)
  then show "entry_ok e \<Longrightarrow> ?thesis"
    by (intro exI [of _ "''propseen'' @ [space] @ show_uint (prop_n n) @ [space] @ prop_m n"])
      (auto intro: one_line_word)
next
  case (Accepted n v)
  then show "entry_ok e \<Longrightarrow> ?thesis"
    by (intro exI [of _ "''accepted'' @ [space] @ show_uint (prop_n n) @ [space] @ prop_m n @ [space] @ v"])
      (auto intro: one_line_word)
qed

lemma dump_entries:
  "list_all entry_ok es \<Longrightarrow> dump_lines (istream_of (concat (map render es))) res = res @ concat (map render es)"
proof (induction es arbitrary: res)
  case Nil
  then show ?case by (subst dump_lines.simps) (simp add: stream_getline_def)
next
  case (Cons e es)
  then obtain l where "render e = l @ [newline]" "one_line l" using render_line by auto
  then show ?case using Cons dump_line [of l "concat (map render es)" res] by simp
qed

lemma logged_dump: "logged acc0 acc \<Longrightarrow> log_dump acc = ac_log acc"
  using dump_entries by (fastforce simp: logged_def log_dump_def)

subsection \<open>Properties\<close>

text \<open>(C9) Recovery: an acceptor that is restarted from its log after serving any sequence of
  requests has the state it had before: the same promise, the same accepted proposal and value, the
  same instance and the same decided values (proposal names without white space, values without
  newlines; a proposal numbered zero means that there is none, its name is not restored).\<close>

theorem log_recovery:
  assumes "acceptor_new cfg first me value [] = Inr acc0" "one_line value" "list_all op_ok xs"
    "acc_run xs acc0 = Inr acc"
  shows "\<exists>acc'. acceptor_new cfg first me value (ac_log acc) = Inr acc' \<and> same_state acc' acc \<and>
     ac_log acc' = ac_log acc"
proof -
  have l: "logged (blank cfg me []) acc"
    using logged_run [OF logged_new(1) [OF assms(1,2)] assms(3,4)] .
  have "\<exists>acc'. logread (blank cfg me (ac_log acc)) = Inr acc' \<and> same_state acc' acc \<and> ac_log acc' = ac_log acc"
    by (rule logged_logread [OF l]) (simp_all add: same_state_def)
  then obtain acc' where acc': "logread (blank cfg me (ac_log acc)) = Inr acc'" "same_state acc' acc"
    "ac_log acc' = ac_log acc" by blast
  have "\<not> (ac_instance_h acc' = 0 \<and> first)"
    using acc'(2) instance_mono [OF assms(4)] logged_new(2) [OF assms(1,2)]
    by (auto simp: same_state_def)
  then show ?thesis using acc' by (auto simp: acceptor_new_def)
qed

text \<open>A node that joins gets the history: restoring the dump of an acceptor's log in a fresh
  acceptor gives the state of the acceptor whose log was dumped.\<close>

theorem log_transfer:
  assumes "acceptor_new cfg first me value [] = Inr acc0" "one_line value" "list_all op_ok xs"
    "acc_run xs acc0 = Inr acc" "acceptor_new cfg' False me' value' [] = Inr fresh"
  shows "\<exists>acc'. acceptor_restore (log_dump acc) fresh = Inr acc' \<and> same_state acc' acc"
proof -
  have l: "logged (blank cfg me []) acc"
    using logged_run [OF logged_new(1) [OF assms(1,2)] assms(3,4)] .
  have "fresh = blank cfg' me' []"
    using assms(5) logread_Nil [of "blank cfg' me' []"] by (auto simp: acceptor_new_def)
  then have "same_state (log_restore (log_dump acc) fresh) (blank cfg me [])"
    by (simp add: log_restore_def same_state_def same_prop_def)
  then have "\<exists>acc'. logread (log_restore (log_dump acc) fresh) = Inr acc' \<and> same_state acc' acc \<and>
      ac_log acc' = ac_log acc"
    by (rule logged_logread [OF l]) (simp add: log_restore_def logged_dump [OF l])
  then show ?thesis by (auto simp: acceptor_restore_def)
qed

text \<open>An acceptor that has promised and accepted a proposal.\<close>

definition sample_ops :: "acc_op list" where
  "sample_ops = [Op_prepare \<lparr>pr_oldinstance = False, pr_accept = False, pr_n_a = Prop 0 [], pr_v_a = []\<rparr> ''a''
     \<lparr>pa_instance = 2, pa_n = Prop 1 ''a''\<rparr>,
   Op_accept ''a'' \<lparr>aa_instance = 2, aa_n = Prop 1 ''a'', aa_v = ''a b''\<rparr>]"

lemma sample_ops_run:
  "\<exists>acc0 acc. acceptor_new True True ''a'' ''a'' [] = Inr acc0 \<and> acc_run sample_ops acc0 = Inr acc \<and>
     ac_v_a acc = ''a b'' \<and> ac_n_h acc = Prop 1 ''a''"
  using logread_Nil [of "blank True ''a'' []"]
  by (simp add: acceptor_new_def sample_ops_def preparereq_def acceptreq_def loginstance_def logprop_def
    logaccept_def word_le_nat_alt prop_gt_def prop_ge_def Let_def del: prop_gt_less prop_ge_le)

lemma sample_ops_ok: "list_all op_ok sample_ops" "one_line ''a''"
  by (simp_all add: sample_ops_def is_word_def is_space_def)

theorem log_recovery_witness:
  "\<exists>acc acc'. ac_v_a acc = ''a b'' \<and> acceptor_new True True ''a'' ''a'' (ac_log acc) = Inr acc' \<and> same_state acc' acc"
proof -
  obtain acc0 acc where "acceptor_new True True ''a'' ''a'' [] = Inr acc0" "acc_run sample_ops acc0 = Inr acc"
    "ac_v_a acc = ''a b''" using sample_ops_run by blast
  with log_recovery [OF this(1) sample_ops_ok(2,1) this(2)] show ?thesis by blast
qed

theorem log_transfer_witness:
  "\<exists>acc acc' fresh. ac_v_a acc = ''a b'' \<and> acceptor_restore (log_dump acc) fresh = Inr acc' \<and> same_state acc' acc"
proof -
  obtain acc0 acc where a: "acceptor_new True True ''a'' ''a'' [] = Inr acc0" "acc_run sample_ops acc0 = Inr acc"
    "ac_v_a acc = ''a b''" using sample_ops_run by blast
  have "acceptor_new True False ''b'' [] [] = Inr (blank True ''b'' [])"
    by (simp add: acceptor_new_def logread_Nil)
  with log_transfer [OF a(1) sample_ops_ok(2,1) a(2) this] a(3) show ?thesis by blast
qed

end
