(* ===== verification/Paxos_Safety.thy ===== *)
theory Paxos_Safety
  imports Paxos_Log
begin

text \<open>
  Agreement for one instance of Paxos. The nodes, the network and any number of proposers form a
  step relation whose steps call the handlers and loops of the theory \<open>Paxos\<close>: messages are
  delivered in any order, any number of times or never, nodes restart from their logs at any time.
  The proof follows the classical argument; quorum intersection enters through the locale
  \<open>quorum_system\<close>.
\<close>

subsection \<open>Votes\<close>

text \<open>
  \<open>P\<close>: promises (node, proposal, reply); \<open>A\<close>: acceptances (node, proposal, value);
  \<open>I\<close>: proposals issued in accept requests (proposal, value, the nodes asked).
\<close>

type_synonym 'node promise = "'node \<times> prop_t \<times> prepareres"
type_synonym 'node vote = "'node \<times> prop_t \<times> string"
type_synonym 'node issue = "prop_t \<times> string \<times> 'node list"

definition promise_ok :: "'node vote set \<Rightarrow> 'node promise \<Rightarrow> bool" where
  "promise_ok A p = (case p of (a, n, r) \<Rightarrow> prop_n n \<noteq> 0 \<and>
     (\<forall>m v. (a, m, v) \<in> A \<and> m < n \<longrightarrow> m \<le> pr_n_a r) \<and>
     ((a, pr_n_a r, pr_v_a r) \<in> A \<and> pr_n_a r < n \<or> prop_n (pr_n_a r) = 0 \<and> pr_v_a r = []))"

definition best_of :: "'node promise set \<Rightarrow> prop_t \<Rightarrow> string \<Rightarrow> ('node \<times> prepareres) list \<Rightarrow> bool" where
  "best_of P n v R \<longleftrightarrow> (\<forall>x \<in> set R. (fst x, n, snd x) \<in> P) \<and>
     ((\<forall>x \<in> set R. pr_v_a (snd x) = []) \<or>
      (\<exists>x \<in> set R. v = pr_v_a (snd x) \<and> (\<forall>y \<in> set R. pr_n_a (snd y) \<le> pr_n_a (snd x))))"

definition issue_ok :: "('node list \<Rightarrow> bool) \<Rightarrow> 'node promise set \<Rightarrow> 'node issue \<Rightarrow> bool" where
  "issue_ok quorum P p = (case p of (n, v, Q) \<Rightarrow> quorum Q \<and> v \<noteq> [] \<and> prop_n n \<noteq> 0 \<and>
     (\<exists>R. Q = map fst R \<and> best_of P n v R))"

definition votes_ok :: "('node list \<Rightarrow> bool) \<Rightarrow> 'node promise set \<Rightarrow> 'node vote set \<Rightarrow> 'node issue set \<Rightarrow> bool" where
  "votes_ok quorum P A I \<longleftrightarrow> finite I \<and> (\<forall>p \<in> P. promise_ok A p) \<and> (\<forall>p \<in> I. issue_ok quorum P p) \<and>
     (\<forall>a n v. (a, n, v) \<in> A \<longrightarrow> (\<exists>Q. (n, v, Q) \<in> I \<and> a \<in> set Q)) \<and>
     (\<forall>n v v' Q Q'. (n, v, Q) \<in> I \<longrightarrow> (n, v', Q') \<in> I \<longrightarrow> v = v')"

definition chosen :: "('node list \<Rightarrow> bool) \<Rightarrow> 'node vote set \<Rightarrow> prop_t \<Rightarrow> string \<Rightarrow> bool" where
  "chosen quorum A n v \<longleftrightarrow> (\<exists>S. quorum S \<and> (\<forall>a \<in> set S. (a, n, v) \<in> A))"

lemma votes_okD:
  assumes "votes_ok quorum P A I"
  shows "p \<in> P \<Longrightarrow> promise_ok A p" "q \<in> I \<Longrightarrow> issue_ok quorum P q" "finite I"
    "(a, n, v) \<in> A \<Longrightarrow> \<exists>Q. (n, v, Q) \<in> I \<and> a \<in> set Q"
    "(n, v, Q) \<in> I \<Longrightarrow> (n, v', Q') \<in> I \<Longrightarrow> v = v'"
  using assms unfolding votes_ok_def by blast+

lemma vote_nonzero:
  assumes "votes_ok quorum P A I" "(a, n, v) \<in> A"
  shows "prop_n n \<noteq> 0" "v \<noteq> []"
  using votes_okD(4) [OF assms] votes_okD(2) [OF assms(1)] by (fastforce simp: issue_ok_def)+

lemma above_nonzero: "m \<le> k \<Longrightarrow> prop_n m \<noteq> 0 \<Longrightarrow> prop_n k \<noteq> 0"
  using prop_n_mono [of m k] by (metis word_coorder.extremum_uniqueI)

context quorum_system
begin

text \<open>A proposal issued after a value was chosen carries that value.\<close>

lemma issued_safe:
  assumes "votes_ok quorum P A I" "(n, v, Q) \<in> I" "m < n" "chosen quorum A m w"
  shows "v = w"
  using assms(2,3)
proof (induction "card {k. k < n \<and> (\<exists>v Q. (k, v, Q) \<in> I)}" arbitrary: n v Q rule: less_induct)
  case less
  obtain S where S: "quorum S" "\<forall>a \<in> set S. (a, m, w) \<in> A" using assms(4) by (auto simp: chosen_def)
  obtain R where R: "quorum Q" "Q = map fst R" "\<forall>x \<in> set R. (fst x, n, snd x) \<in> P"
    "(\<forall>x \<in> set R. pr_v_a (snd x) = []) \<or>
     (\<exists>x \<in> set R. v = pr_v_a (snd x) \<and> (\<forall>y \<in> set R. pr_n_a (snd y) \<le> pr_n_a (snd x)))"
    using votes_okD(2) [OF assms(1) less.prems(1)] by (auto simp: issue_ok_def best_of_def)
  obtain a where "a \<in> set S" "a \<in> set Q" using quorums_meet [OF S(1) R(1)] by blast
  then obtain z where z: "z \<in> set R" "(fst z, m, w) \<in> A" using S(2) R(2) by auto
  note pz = votes_okD(1) [OF assms(1), of "(fst z, n, snd z)"]
  have "m \<le> pr_n_a (snd z)" using pz R(3) z less.prems(2) by (auto simp: promise_ok_def)
  have m0: "prop_n m \<noteq> 0" using vote_nonzero [OF assms(1) z(2)] by simp
  have "pr_v_a (snd z) \<noteq> []"
    using pz R(3) z vote_nonzero [OF assms(1)] above_nonzero [OF \<open>m \<le> _\<close> m0]
    by (fastforce simp: promise_ok_def)
  then obtain x where x: "x \<in> set R" "v = pr_v_a (snd x)" "pr_n_a (snd z) \<le> pr_n_a (snd x)"
    using R(4) z(1) by blast
  define k where "k = pr_n_a (snd x)"
  have k: "m \<le> k" using \<open>m \<le> _\<close> x(3) by (simp add: k_def)
  have "(fst x, k, v) \<in> A" "k < n"
    using votes_okD(1) [OF assms(1), of "(fst x, n, snd x)"] R(3) x(1,2) above_nonzero [OF k m0]
    by (auto simp: promise_ok_def k_def)
  then obtain Q' where Q': "(k, v, Q') \<in> I" using votes_okD(4) [OF assms(1)] by blast
  show ?case
  proof (cases "m = k")
    case True
    obtain Q'' where "(m, w, Q'') \<in> I" using votes_okD(4) [OF assms(1) z(2)] by blast
    then show ?thesis using Q' True votes_okD(5) [OF assms(1)] by blast
  next
    case False
    have fin: "finite {k. k < n \<and> (\<exists>v Q. (k, v, Q) \<in> I)}"
      by (rule finite_subset [OF _ finite_imageI [OF votes_okD(3) [OF assms(1)], of fst]]) force
    have "card {j. j < k \<and> (\<exists>v Q. (j, v, Q) \<in> I)} < card {j. j < n \<and> (\<exists>v Q. (j, v, Q) \<in> I)}"
      by (rule psubset_card_mono [OF fin]) (use Q' \<open>k < n\<close> in \<open>auto dest: less_trans\<close>)
    then show ?thesis using less.hyps Q' False k by auto
  qed
qed

lemma chosen_issued:
  assumes "votes_ok quorum P A I" "chosen quorum A n v"
  shows "\<exists>Q. (n, v, Q) \<in> I"
proof -
  obtain S where "quorum S" "\<forall>a \<in> set S. (a, n, v) \<in> A" using assms(2) by (auto simp: chosen_def)
  moreover then obtain a where "a \<in> set S" using quorums_meet by blast
  ultimately show ?thesis using votes_okD(4) [OF assms(1)] by blast
qed

lemma chosen_unique:
  assumes "votes_ok quorum P A I" "chosen quorum A m w" "chosen quorum A n v"
  shows "v = w"
proof -
  obtain Q Q' where "(m, w, Q) \<in> I" "(n, v, Q') \<in> I" using chosen_issued assms by blast
  then show ?thesis
    using issued_safe assms votes_okD(5) [OF assms(1)] by (metis linorder_less_linear)
qed

end

subsection \<open>The nodes and the network\<close>

record world =
  w_acc :: "string \<Rightarrow> acceptor"
  w_promises :: "string promise set"
  w_votes :: "string vote set"
  w_issued :: "string issue set"
  w_decided :: "(string list \<times> string) set"
  w_old :: "string set"

text \<open>
  The steps of instance \<open>i\<close> among the members \<open>C\<close>.
  \<open>px_prepare\<close>: a prepare request reaches node \<open>a\<close>.
  \<open>px_issue\<close>: a proposer ends its prepare loop with a majority, for a proposal number it uses for
  the first time, and sends accept requests to the nodes that promised.
  \<open>px_accept\<close>: an accept request reaches one of them; with \<open>g\<close>, only before it has finished
  the instance, which \<^verbatim>\<open>acceptreq\<close> does not check.
  \<open>px_decide\<close>: a proposer ends its accept loop with a majority and sends decide requests.
  \<open>px_decided\<close>: a decide request is served.
  \<open>px_learn\<close>: the node of a proposer that was told the instance is over commits the value.
  \<open>px_restart\<close>: a node restarts and recovers its state from the log.
\<close>

inductive px_step :: "bool \<Rightarrow> string list \<Rightarrow> u32 \<Rightarrow> world \<Rightarrow> world \<Rightarrow> bool" for g C i where
  px_prepare: "px_step g C i w (w\<lparr>w_acc := (w_acc w)(a := acc'),
      w_promises := (if pr_accept r then insert (a, n, r) (w_promises w) else w_promises w),
      w_old := (if pr_oldinstance r then insert (pr_v_a r) (w_old w) else w_old w)\<rparr>)"
  if "preparereq r0 src \<lparr>pa_instance = i, pa_n = n\<rparr> (w_acc w a) = Inr (st, r, acc')" "prop_n n \<noteq> 0"
| px_issue: "px_step g C i w (w\<lparr>w_issued := insert (n, if v = [] then newv else v, accepts) (w_issued w)\<rparr>)"
  if "map fst outs = C" "\<forall>(q, r) \<in> set (promises_in outs). (q, n, r) \<in> w_promises w"
    "prepare outs = Inr (accepts, v)" "majority C accepts" "newv \<noteq> []"
    "\<forall>v' Q. (n, v', Q) \<notin> w_issued w"
| px_accept: "px_step g C i w (w\<lparr>w_acc := (w_acc w)(a := acc'),
      w_votes := (if r then insert (a, n, v) (w_votes w) else w_votes w)\<rparr>)"
  if "(n, v, Q) \<in> w_issued w" "a \<in> set Q" "g \<longrightarrow> ac_instance_h (w_acc w a) < i"
    "acceptreq src \<lparr>aa_instance = i, aa_n = n, aa_v = v\<rparr> (w_acc w a) = Inr (st, r, acc')"
| px_decide: "px_step g C i w (w\<lparr>w_decided := insert (accept_loop outs [], v) (w_decided w)\<rparr>)"
  if "(n, v, map fst outs) \<in> w_issued w" "majority C (accept_loop outs [])"
    "\<forall>a. (a, Returned paxos_OK True) \<in> set outs \<longrightarrow> (a, n, v) \<in> w_votes w"
| px_decided: "px_step g C i w (w\<lparr>w_acc := (w_acc w)(a := acc')\<rparr>)"
  if "(S, v) \<in> w_decided w" "a \<in> set S"
    "decidereq src \<lparr>da_instance = i, da_v = v\<rparr> r0 (w_acc w a) = Inr (st, r, acc')"
| px_learn: "px_step g C i w (w\<lparr>w_acc := (w_acc w)(a := acceptor_commit i v (w_acc w a))\<rparr>)"
  if "v \<in> w_old w"
| px_restart: "px_step g C i w (w\<lparr>w_acc := (w_acc w)(a := acc')\<rparr>)"
  if "same_state acc' (w_acc w a)"

text \<open>Before the instance: every node has finished the previous one.\<close>

definition px_initial :: "u32 \<Rightarrow> world \<Rightarrow> bool" where
  "px_initial i w \<longleftrightarrow> i \<noteq> 0 \<and> w_promises w = {} \<and> w_votes w = {} \<and> w_issued w = {} \<and> w_decided w = {}
     \<and> w_old w = {} \<and> (\<forall>a. ac_instance_h (w_acc w a) = i - 1 \<and> prop_n (ac_n_a (w_acc w a)) = 0
     \<and> ac_v_a (w_acc w a) = [])"

inductive px_reachable :: "bool \<Rightarrow> string list \<Rightarrow> u32 \<Rightarrow> world \<Rightarrow> bool" for g C i where
  px_start: "px_initial i w \<Longrightarrow> px_reachable g C i w"
| px_next: "px_reachable g C i w \<Longrightarrow> px_step g C i w w' \<Longrightarrow> px_reachable g C i w'"

subsection \<open>The invariant\<close>

text \<open>An acceptor that works on the instance remembers its promises and its last vote.\<close>

definition active_ok :: "string promise set \<Rightarrow> string vote set \<Rightarrow> string \<Rightarrow> acceptor \<Rightarrow> bool" where
  "active_ok P A a acc \<longleftrightarrow> (\<forall>n r. (a, n, r) \<in> P \<longrightarrow> n \<le> ac_n_h acc) \<and>
     (\<forall>m v. (a, m, v) \<in> A \<longrightarrow> m \<le> ac_n_a acc) \<and>
     ((a, ac_n_a acc, ac_v_a acc) \<in> A \<or> prop_n (ac_n_a acc) = 0 \<and> ac_v_a acc = [])"

definition node_ok :: "string list \<Rightarrow> u32 \<Rightarrow> string promise set \<Rightarrow> string vote set \<Rightarrow> string \<Rightarrow> acceptor \<Rightarrow> bool" where
  "node_ok C i P A a acc \<longleftrightarrow>
     ac_instance_h acc = i - 1 \<and> active_ok P A a acc \<or>
     ac_instance_h acc = i \<and> (\<exists>n. chosen (majority C) A n (smap_val [] i (ac_values acc)))"

definition px_inv :: "string list \<Rightarrow> u32 \<Rightarrow> world \<Rightarrow> bool" where
  "px_inv C i w \<longleftrightarrow> i \<noteq> 0 \<and> votes_ok (majority C) (w_promises w) (w_votes w) (w_issued w) \<and>
     (\<forall>a. node_ok C i (w_promises w) (w_votes w) a (w_acc w a)) \<and>
     (\<forall>S v. (S, v) \<in> w_decided w \<longrightarrow> majority C S \<and> (\<exists>n. \<forall>a \<in> set S. (a, n, v) \<in> w_votes w)) \<and>
     (\<forall>v \<in> w_old w. \<exists>n. chosen (majority C) (w_votes w) n v)"

lemma chosen_mono: "chosen q A n v \<Longrightarrow> A \<subseteq> A' \<Longrightarrow> chosen q A' n v"
  unfolding chosen_def by blast

lemma pred_less: "i \<noteq> 0 \<Longrightarrow> i - 1 < (i :: u32)"
  by uint_arith

lemma node_ok_other:
  assumes "node_ok C i P A a acc" "b \<noteq> a"
  shows "node_ok C i (insert (b, n, r) P) A a acc" "node_ok C i P (insert (b, n, v) A) a acc"
  using assms chosen_mono [of _ A _ _ "insert (b, n, v) A"]
  by (fastforce simp: node_ok_def active_ok_def)+

lemma inv_acc:
  "px_inv C i w \<Longrightarrow> node_ok C i (w_promises w) (w_votes w) a acc' \<Longrightarrow> px_inv C i (w\<lparr>w_acc := (w_acc w)(a := acc')\<rparr>)"
  by (simp add: px_inv_def)

lemma vote_promised:
  assumes "votes_ok q P A I" "(a, n, v) \<in> A"
  shows "\<exists>r. (a, n, r) \<in> P"
proof -
  obtain Q where Q: "(n, v, Q) \<in> I" "a \<in> set Q" using votes_okD(4) [OF assms] by blast
  obtain R where R: "Q = map fst R" "best_of P n v R"
    using votes_okD(2) [OF assms(1) Q(1)] by (auto simp: issue_ok_def)
  obtain x where "x \<in> set R" "a = fst x" using Q(2) R(1) by auto
  then have "(a, n, snd x) \<in> P" using R(2) by (simp add: best_of_def)
  then show ?thesis ..
qed

lemma same_prop_above: "n \<le> b \<Longrightarrow> prop_n n \<noteq> 0 \<Longrightarrow> same_prop c b \<Longrightarrow> c = b"
  using above_nonzero by (auto simp: same_prop_def)

lemma node_ok_same:
  assumes "votes_ok q P A I" "node_ok C i P A a acc" "same_state acc' acc"
  shows "node_ok C i P A a acc'"
proof (cases "ac_instance_h acc = i - 1 \<and> active_ok P A a acc")
  case True
  have p: "prop_n n \<noteq> 0" if "(a, n, r) \<in> P" for n r
    using votes_okD(1) [OF assms(1) that] by (simp add: promise_ok_def)
  have v: "prop_n n \<noteq> 0" if "(a, n, v) \<in> A" for n v using vote_nonzero [OF assms(1) that] by simp
  have "active_ok P A a acc'"
    unfolding active_ok_def
  proof (intro conjI allI impI)
    fix n r assume "(a, n, r) \<in> P"
    then have "n \<le> ac_n_h acc" "prop_n n \<noteq> 0" using True p by (auto simp: active_ok_def)
    then show "n \<le> ac_n_h acc'"
      using assms(3) same_prop_above [of n "ac_n_h acc" "ac_n_h acc'"] by (simp add: same_state_def)
  next
    fix m v' assume "(a, m, v') \<in> A"
    then have "m \<le> ac_n_a acc" "prop_n m \<noteq> 0" using True v by (auto simp: active_ok_def)
    then show "m \<le> ac_n_a acc'"
      using assms(3) same_prop_above [of m "ac_n_a acc" "ac_n_a acc'"] by (simp add: same_state_def)
  next
    show "(a, ac_n_a acc', ac_v_a acc') \<in> A \<or> prop_n (ac_n_a acc') = 0 \<and> ac_v_a acc' = []"
      using True assms(3) v [of "ac_n_a acc" "ac_v_a acc"]
      unfolding active_ok_def same_state_def same_prop_def by auto
  qed
  then show ?thesis using True assms(3) by (simp add: node_ok_def same_state_def)
next
  case False
  then show ?thesis using assms(2,3) by (auto simp: node_ok_def same_state_def)
qed

lemma node_ok_commit:
  assumes "node_ok C i P A a acc" "chosen (majority C) A n v" "i \<noteq> 0"
  shows "node_ok C i P A a (commit_wo i v acc)"
proof (cases "i > ac_instance_h acc")
  case True
  then have "ac_instance_h (commit_wo i v acc) = i" "smap_val [] i (ac_values (commit_wo i v acc)) = v"
    by (simp_all add: commit_wo_def loginstance_def Let_def)
  then show ?thesis using assms(2) by (auto simp: node_ok_def)
qed (use assms(1) in \<open>simp add: commit_wo_def\<close>)

lemma inv_learn: "px_inv C i w \<Longrightarrow> v \<in> w_old w \<Longrightarrow> px_inv C i (w\<lparr>w_acc := (w_acc w)(a := acceptor_commit i v (w_acc w a))\<rparr>)"
  using node_ok_commit by (intro inv_acc) (auto simp: px_inv_def acceptor_commit_def)

lemma inv_restart:
  assumes "px_inv C i w" "same_state acc' (w_acc w a)"
  shows "px_inv C i (w\<lparr>w_acc := (w_acc w)(a := acc')\<rparr>)"
proof -
  have "votes_ok (majority C) (w_promises w) (w_votes w) (w_issued w)"
    "node_ok C i (w_promises w) (w_votes w) a (w_acc w a)"
    using assms(1) by (simp_all add: px_inv_def)
  then show ?thesis using inv_acc [OF assms(1)] node_ok_same assms(2) by blast
qed

lemma inv_decided:
  assumes "px_inv C i w" "(S, v) \<in> w_decided w"
    "decidereq src \<lparr>da_instance = i, da_v = v\<rparr> r0 (w_acc w a) = Inr (st, r, acc')"
  shows "px_inv C i (w\<lparr>w_acc := (w_acc w)(a := acc')\<rparr>)"
proof (rule inv_acc [OF assms(1)])
  have "\<exists>n. chosen (majority C) (w_votes w) n v"
    using assms(1,2) unfolding px_inv_def chosen_def by blast
  moreover have "acc' = w_acc w a \<or> acc' = commit_wo i v (w_acc w a)"
    using assms(3) by (auto simp: decidereq_def split: if_splits)
  ultimately show "node_ok C i (w_promises w) (w_votes w) a acc'"
    using assms(1) node_ok_commit by (auto simp: px_inv_def)
qed

lemma inv_decide:
  assumes "px_inv C i w" "majority C (accept_loop outs [])"
    "\<forall>a. (a, Returned paxos_OK True) \<in> set outs \<longrightarrow> (a, n, v) \<in> w_votes w"
  shows "px_inv C i (w\<lparr>w_decided := insert (accept_loop outs [], v) (w_decided w)\<rparr>)"
  using assms by (auto simp: px_inv_def accept_loop_set)

lemma best_of_mono: "best_of P n v R \<Longrightarrow> P \<subseteq> P' \<Longrightarrow> best_of P' n v R"
  unfolding best_of_def by blast

lemma issue_ok_mono: "issue_ok q P p \<Longrightarrow> P \<subseteq> P' \<Longrightarrow> issue_ok q P' p"
  by (cases p) (auto simp: issue_ok_def intro: best_of_mono)

lemma votes_ok_promise:
  assumes "votes_ok q P A I" "promise_ok A p"
  shows "votes_ok q (insert p P) A I"
proof -
  have "issue_ok q (insert p P) x" if "x \<in> I" for x
    by (rule issue_ok_mono [OF votes_okD(2) [OF assms(1) that]]) blast
  then show ?thesis using assms unfolding votes_ok_def by blast
qed

text \<open>A new promise: the node raises its number and reports its last vote.\<close>

lemma inv_promise:
  assumes "px_inv C i w" "prop_n n \<noteq> 0" "\<not> i \<le> ac_instance_h (w_acc w a)" "ac_n_h (w_acc w a) < n"
    "pr_n_a r = ac_n_a (w_acc w a)" "pr_v_a r = ac_v_a (w_acc w a)"
  shows "px_inv C i (w\<lparr>w_acc := (w_acc w)(a := logprop n ((w_acc w a)\<lparr>ac_n_h := n\<rparr>)),
      w_promises := insert (a, n, r) (w_promises w)\<rparr>)"
proof -
  let ?acc = "w_acc w a" and ?P = "w_promises w" and ?A = "w_votes w"
  let ?acc' = "logprop n (?acc\<lparr>ac_n_h := n\<rparr>)"
  have votes: "votes_ok (majority C) ?P ?A (w_issued w)" using assms(1) by (simp add: px_inv_def)
  have act: "active_ok ?P ?A a ?acc" "ac_instance_h ?acc = i - 1"
    using assms(1,3) by (auto simp: px_inv_def node_ok_def)
  have "(a, ac_n_a ?acc, ac_v_a ?acc) \<in> ?A \<Longrightarrow> ac_n_a ?acc < n"
    using vote_promised [OF votes] act(1) assms(4) unfolding active_ok_def by (meson le_less_trans)
  then have "promise_ok ?A (a, n, r)"
    using act(1) assms(2,5,6) by (auto simp: promise_ok_def active_ok_def)
  then have v: "votes_ok (majority C) (insert (a, n, r) ?P) ?A (w_issued w)"
    by (rule votes_ok_promise [OF votes])
  have "node_ok C i (insert (a, n, r) ?P) ?A a ?acc'"
    using act assms(4) by (auto simp: node_ok_def active_ok_def logprop_def intro: order_trans less_imp_le)
  then have "\<forall>b. node_ok C i (insert (a, n, r) ?P) ?A b (((w_acc w)(a := ?acc')) b)"
    using assms(1) node_ok_other(1) by (auto simp: px_inv_def)
  with v show ?thesis using assms(1) by (simp add: px_inv_def)
qed

lemma inv_prepare:
  assumes "px_inv C i w" "prop_n n \<noteq> 0"
    "preparereq r0 src \<lparr>pa_instance = i, pa_n = n\<rparr> (w_acc w a) = Inr (st, r, acc')"
  shows "px_inv C i (w\<lparr>w_acc := (w_acc w)(a := acc'),
      w_promises := (if pr_accept r then insert (a, n, r) (w_promises w) else w_promises w),
      w_old := (if pr_oldinstance r then insert (pr_v_a r) (w_old w) else w_old w)\<rparr>)"
proof -
  let ?acc = "w_acc w a"
  have node: "node_ok C i (w_promises w) (w_votes w) a ?acc" and i0: "i \<noteq> 0"
    using assms(1) by (simp_all add: px_inv_def)
  consider (old) "i \<le> ac_instance_h ?acc" | (new) "\<not> i \<le> ac_instance_h ?acc" "ac_n_h ?acc < n"
    | (no) "\<not> i \<le> ac_instance_h ?acc" "\<not> ac_n_h ?acc < n" by blast
  then show ?thesis
  proof cases
    case old
    then have acc': "r = r0\<lparr>pr_oldinstance := True, pr_accept := False, pr_v_a := smap_val [] i (ac_values ?acc)\<rparr>"
      "acc' = ?acc\<lparr>ac_values := snd (smap_index [] i (ac_values ?acc))\<rparr>"
      using assms(3) by (auto simp: preparereq_def Let_def split_beta)
    have "\<not> i \<le> i - 1" using pred_less [OF i0] by simp
    then have ch: "\<exists>m. chosen (majority C) (w_votes w) m (smap_val [] i (ac_values ?acc))" "ac_instance_h ?acc = i"
      using node old by (auto simp: node_ok_def)
    then have "node_ok C i (w_promises w) (w_votes w) a acc'" using acc'(2) by (simp add: node_ok_def)
    from inv_acc [OF assms(1) this] show ?thesis using ch(1) acc'(1) by (simp add: px_inv_def)
  next
    case new
    then have r: "r = r0\<lparr>pr_oldinstance := False, pr_accept := True, pr_n_a := ac_n_a ?acc, pr_v_a := ac_v_a ?acc\<rparr>"
      "acc' = logprop n (?acc\<lparr>ac_n_h := n\<rparr>)"
      using assms(3) by (auto simp: preparereq_def Let_def)
    then show ?thesis using inv_promise [OF assms(1,2) new, of r] by simp
  next
    case no
    then have "r = r0\<lparr>pr_oldinstance := False, pr_accept := False\<rparr>" "acc' = ?acc"
      using assms(3) by (auto simp: preparereq_def Let_def)
    then show ?thesis using assms(1) by (simp add: px_inv_def)
  qed
qed

lemma inv_issue:
  assumes "px_inv C i w" "\<forall>(q, r) \<in> set (promises_in outs). (q, n, r) \<in> w_promises w"
    "prepare outs = Inr (accepts, v)" "majority C accepts" "newv \<noteq> []"
    "\<forall>v' Q. (n, v', Q) \<notin> w_issued w"
  shows "px_inv C i (w\<lparr>w_issued := insert (n, if v = [] then newv else v, accepts) (w_issued w)\<rparr>)"
proof -
  let ?P = "w_promises w" and ?A = "w_votes w" and ?R = "promises_in outs"
  have votes: "votes_ok (majority C) ?P ?A (w_issued w)" using assms(1) by (simp add: px_inv_def)
  have R: "accepts = map fst ?R" "best_vote (set ?R) (Prop 0 []) [] v"
    using prepare_loop_ok assms(3) unfolding prepare_def by fastforce+
  have P: "\<forall>x \<in> set ?R. (fst x, n, snd x) \<in> ?P" using assms(2) by auto
  have vote: "promise_ok ?A (fst x, n, snd x)" if "x \<in> set ?R" for x
    using votes_okD(1) [OF votes] P that by blast
  have zero: "pr_v_a (snd y) = []" if "y \<in> set ?R" "pr_n_a (snd y) \<le> k" "prop_n k = 0" for y k
    using vote [OF that(1)] that(3) above_nonzero [OF that(2)] vote_nonzero(1) [OF votes]
    by (auto simp: promise_ok_def)
  have "best_of ?P n (if v = [] then newv else v) ?R"
  proof (cases "\<exists>x \<in> set ?R. v = pr_v_a (snd x) \<and> v \<noteq> [] \<and> (\<forall>y \<in> set ?R. pr_n_a (snd y) \<le> pr_n_a (snd x))")
    case True
    then show ?thesis using P by (auto simp: best_of_def)
  next
    case False
    have "\<exists>k. prop_n k = 0 \<and> (\<forall>y \<in> set ?R. pr_n_a (snd y) \<le> k)"
    proof (cases "\<forall>x \<in> set ?R. pr_n_a (snd x) \<le> Prop 0 []")
      case True
      then show ?thesis by (intro exI [of _ "Prop 0 []"]) simp
    next
      case nF: False
      then obtain x where x: "x \<in> set ?R" "v = pr_v_a (snd x)" "\<forall>y \<in> set ?R. pr_n_a (snd y) \<le> pr_n_a (snd x)"
        using R(2) unfolding best_vote_def by blast
      then have "pr_v_a (snd x) = []" using False by auto
      then have "prop_n (pr_n_a (snd x)) = 0"
        using vote [OF x(1)] vote_nonzero(2) [OF votes] by (auto simp: promise_ok_def)
      then show ?thesis using x(3) by blast
    qed
    then show ?thesis using zero P by (auto simp: best_of_def)
  qed
  moreover obtain a where "a \<in> set accepts" using mq.quorums_meet [OF assms(4,4)] by blast
  then have "prop_n n \<noteq> 0" using R(1) vote by (auto simp: promise_ok_def)
  ultimately have "issue_ok (majority C) ?P (n, if v = [] then newv else v, accepts)"
    using R(1) assms(4,5) by (auto simp: issue_ok_def)
  then have "votes_ok (majority C) ?P ?A (insert (n, if v = [] then newv else v, accepts) (w_issued w))"
    using votes assms(6) unfolding votes_ok_def by blast
  then show ?thesis using assms(1) by (simp add: px_inv_def)
qed

lemma inv_accept:
  assumes "px_inv C i w" "(n, v, Q) \<in> w_issued w" "a \<in> set Q" "ac_instance_h (w_acc w a) < i"
    "acceptreq src \<lparr>aa_instance = i, aa_n = n, aa_v = v\<rparr> (w_acc w a) = Inr (st, r, acc')"
  shows "px_inv C i (w\<lparr>w_acc := (w_acc w)(a := acc'),
      w_votes := (if r then insert (a, n, v) (w_votes w) else w_votes w)\<rparr>)"
proof (cases "ac_n_h (w_acc w a) \<le> n")
  case True
  let ?acc = "w_acc w a" and ?P = "w_promises w" and ?A = "w_votes w" and ?A' = "insert (a, n, v) (w_votes w)"
  have acc': "r" "acc' = logaccept n v (?acc\<lparr>ac_n_a := n, ac_v_a := v\<rparr>)"
    using assms(5) True by (auto simp: acceptreq_def)
  have votes: "votes_ok (majority C) ?P ?A (w_issued w)" using assms(1) by (simp add: px_inv_def)
  have act: "active_ok ?P ?A a ?acc" "ac_instance_h ?acc = i - 1"
    using assms(1,4) by (auto simp: px_inv_def node_ok_def)
  have prom: "m \<le> n" if "(a, m, r') \<in> ?P" for m r'
    using act(1) True that by (auto simp: active_ok_def intro: order_trans)
  have "promise_ok ?A' p" if "p \<in> ?P" for p
  proof (cases p)
    case (fields b m r')
    then show ?thesis using votes_okD(1) [OF votes that] prom [of m r'] that by (auto simp: promise_ok_def)
  qed
  then have v: "votes_ok (majority C) ?P ?A' (w_issued w)"
    using votes assms(2,3) unfolding votes_ok_def by auto
  have "m \<le> n" if "(a, m, v') \<in> ?A" for m v' using vote_promised [OF votes that] prom by blast
  then have "node_ok C i ?P ?A' a acc'"
    using act acc'(2) by (auto simp: node_ok_def active_ok_def logaccept_def)
  then have "\<forall>b. node_ok C i ?P ?A' b (((w_acc w)(a := acc')) b)"
    using assms(1) node_ok_other(2) by (auto simp: px_inv_def)
  moreover have "\<exists>m. chosen (majority C) ?A' m x" if "x \<in> w_old w" for x
    using assms(1) that chosen_mono [of _ ?A _ _ ?A'] unfolding px_inv_def by blast
  moreover have "majority C S \<and> (\<exists>m. \<forall>b \<in> set S. (b, m, x) \<in> ?A')" if "(S, x) \<in> w_decided w" for S x
    using assms(1) that unfolding px_inv_def by blast
  ultimately show ?thesis using v acc'(1) assms(1) by (simp add: px_inv_def)
next
  case False
  then show ?thesis using assms(1,5) by (auto simp: acceptreq_def px_inv_def)
qed

lemma inv_step: "px_step True C i w w' \<Longrightarrow> px_inv C i w \<Longrightarrow> px_inv C i w'"
proof (induction rule: px_step.induct)
  case (px_prepare r0 src n w a st r acc')
  then show ?case by (intro inv_prepare)
next
  case (px_issue outs n w accepts v newv)
  then show ?case by (intro inv_issue)
next
  case (px_accept n v Q w a src st r acc')
  then show ?case by (intro inv_accept) simp_all
next
  case (px_decide n v outs w)
  then show ?case by (intro inv_decide)
next
  case (px_decided S v w a src r0 st r acc')
  then show ?case by (intro inv_decided)
next
  case (px_learn v w a)
  then show ?case by (intro inv_learn)
next
  case (px_restart acc' w a)
  then show ?case by (intro inv_restart)
qed

lemma inv_reachable: "px_reachable True C i w \<Longrightarrow> px_inv C i w"
proof (induction rule: px_reachable.induct)
  case (px_start w)
  then show ?case by (auto simp: px_initial_def px_inv_def votes_ok_def node_ok_def active_ok_def)
qed (rule inv_step)

lemma decide_agrees:
  assumes "px_inv C i w" "(S, v) \<in> w_decided w" "a \<in> set S" "ac_instance_h (w_acc w a) = i - 1"
  shows "ac_v_a (w_acc w a) = v"
proof -
  let ?acc = "w_acc w a" and ?A = "w_votes w"
  have votes: "votes_ok (majority C) (w_promises w) ?A (w_issued w)" using assms(1) by (simp add: px_inv_def)
  have "i - 1 \<noteq> i" using assms(1) pred_less [of i] by (auto simp: px_inv_def)
  then have act: "active_ok (w_promises w) ?A a ?acc"
    using assms(1,4) unfolding px_inv_def node_ok_def by metis
  obtain n where n: "majority C S" "\<forall>b \<in> set S. (b, n, v) \<in> ?A" using assms(1,2) unfolding px_inv_def by blast
  then have ch: "chosen (majority C) ?A n v" by (auto simp: chosen_def)
  have av: "(a, n, v) \<in> ?A" using n(2) assms(3) by blast
  then have le: "n \<le> ac_n_a ?acc" using act by (auto simp: active_ok_def)
  then have "prop_n (ac_n_a ?acc) \<noteq> 0" using above_nonzero vote_nonzero(1) [OF votes av] by blast
  then have "(a, ac_n_a ?acc, ac_v_a ?acc) \<in> ?A" using act by (auto simp: active_ok_def)
  then obtain Q where Q: "(ac_n_a ?acc, ac_v_a ?acc, Q) \<in> w_issued w" using votes_okD(4) [OF votes] by blast
  show ?thesis
  proof (cases "n = ac_n_a ?acc")
    case True
    then show ?thesis using Q votes_okD(4) [OF votes av] votes_okD(5) [OF votes] by blast
  next
    case False
    then show ?thesis using mq.issued_safe [OF votes Q _ ch] le by simp
  qed
qed

subsection \<open>Runs of the handlers\<close>

lemma log_sel [simp]:
  "ac_n_h (logprop n acc) = ac_n_h acc" "ac_n_a (logprop n acc) = ac_n_a acc" "ac_v_a (logprop n acc) = ac_v_a acc"
  "ac_instance_h (logprop n acc) = ac_instance_h acc"
  "ac_n_h (logaccept n v acc) = ac_n_h acc" "ac_n_a (logaccept n v acc) = ac_n_a acc"
  "ac_v_a (logaccept n v acc) = ac_v_a acc" "ac_instance_h (logaccept n v acc) = ac_instance_h acc"
  "ac_values (logprop n acc) = ac_values acc" "ac_values (logaccept n v acc) = ac_values acc"
  by (simp_all add: logprop_def logaccept_def)

lemma run_promise:
  assumes "px_reachable g C i w" "prop_n n \<noteq> 0" "\<not> i \<le> ac_instance_h (w_acc w a)" "ac_n_h (w_acc w a) < n"
  shows "px_reachable g C i (w\<lparr>w_acc := (w_acc w)(a := logprop n ((w_acc w a)\<lparr>ac_n_h := n\<rparr>)),
     w_promises := insert (a, n, \<lparr>pr_oldinstance = False, pr_accept = True, pr_n_a = ac_n_a (w_acc w a),
       pr_v_a = ac_v_a (w_acc w a)\<rparr>) (w_promises w)\<rparr>)"
proof -
  have "preparereq \<lparr>pr_oldinstance = False, pr_accept = False, pr_n_a = Prop 0 [], pr_v_a = []\<rparr> []
      \<lparr>pa_instance = i, pa_n = n\<rparr> (w_acc w a) = Inr (paxos_OK, \<lparr>pr_oldinstance = False, pr_accept = True,
        pr_n_a = ac_n_a (w_acc w a), pr_v_a = ac_v_a (w_acc w a)\<rparr>, logprop n ((w_acc w a)\<lparr>ac_n_h := n\<rparr>))"
    using assms(3,4) by (simp add: preparereq_def)
  from px_next [OF assms(1) px_prepare [OF this assms(2)]] show ?thesis by simp
qed

lemma run_vote:
  assumes "px_reachable g C i w" "(n, v, Q) \<in> w_issued w" "a \<in> set Q"
    "g \<longrightarrow> ac_instance_h (w_acc w a) < i" "ac_n_h (w_acc w a) \<le> n"
  shows "px_reachable g C i (w\<lparr>w_acc := (w_acc w)(a := logaccept n v ((w_acc w a)\<lparr>ac_n_a := n, ac_v_a := v\<rparr>)),
     w_votes := insert (a, n, v) (w_votes w)\<rparr>)"
proof -
  have "acceptreq [] \<lparr>aa_instance = i, aa_n = n, aa_v = v\<rparr> (w_acc w a)
      = Inr (paxos_OK, True, logaccept n v ((w_acc w a)\<lparr>ac_n_a := n, ac_v_a := v\<rparr>))"
    using assms(5) by (simp add: acceptreq_def)
  from px_next [OF assms(1) px_accept [OF assms(2-4) this]] show ?thesis by simp
qed

lemma run_commit:
  assumes "px_reachable g C i w" "(S, v) \<in> w_decided w" "a \<in> set S" "i = ac_instance_h (w_acc w a) + 1"
    "ac_v_a (w_acc w a) = v"
  shows "px_reachable g C i (w\<lparr>w_acc := (w_acc w)(a := commit_wo i v (w_acc w a))\<rparr>)"
proof -
  have "decidereq [] \<lparr>da_instance = i, da_v = v\<rparr> 0 (w_acc w a) = Inr (paxos_OK, 0, commit_wo i v (w_acc w a))"
    using assms(4,5) by (simp add: decidereq_def)
  from px_next [OF assms(1) px_decided [OF assms(2,3) this]] show ?thesis .
qed

lemma run_issue:
  assumes "px_reachable g C i w" "map fst outs = C" "\<forall>(q, r) \<in> set (promises_in outs). (q, n, r) \<in> w_promises w"
    "prepare outs = Inr (accepts, [])" "majority C accepts" "v \<noteq> []" "\<forall>v' Q. (n, v', Q) \<notin> w_issued w"
  shows "px_reachable g C i (w\<lparr>w_issued := insert (n, v, accepts) (w_issued w)\<rparr>)"
  using px_next [OF assms(1) px_issue [OF assms(2-7)]] by simp

lemma run_decide:
  assumes "px_reachable g C i w" "(n, v, S) \<in> w_issued w" "majority C S" "\<forall>a \<in> set S. (a, n, v) \<in> w_votes w"
  shows "px_reachable g C i (w\<lparr>w_decided := insert (S, v) (w_decided w)\<rparr>)"
proof -
  let ?outs = "map (\<lambda>a. (a, Returned paxos_OK True)) S"
  have "accept_loop (map (\<lambda>a. (a, Returned paxos_OK True)) S) acc = acc @ S" for acc S
    by (induction S arbitrary: acc) auto
  then have l: "accept_loop ?outs [] = S" by simp
  have "(n, v, map fst ?outs) \<in> w_issued w" using assms(2) by (simp add: comp_def)
  from px_next [OF assms(1) px_decide [OF this]] show ?thesis using assms(3,4) l by auto
qed

text \<open>Three nodes; the proposer of \<open>b\<close> gets a value chosen by \<open>a\<close> and \<open>b\<close>, after \<open>a\<close> and
  \<open>c\<close> have made a promise to the proposer of \<open>c\<close>.\<close>

definition abc :: "string list" where
  "abc = [''a'', ''b'', ''c'']"

definition empty_reply :: "string \<Rightarrow> prepareres" where
  "empty_reply m = \<lparr>pr_oldinstance = False, pr_accept = True, pr_n_a = Prop 0 m, pr_v_a = []\<rparr>"

definition start_world :: world where
  "start_world = \<lparr>w_acc = (\<lambda>m. (blank True m [])\<lparr>ac_instance_h := 1\<rparr>), w_promises = {}, w_votes = {},
     w_issued = {}, w_decided = {}, w_old = {}\<rparr>"

lemmas eval_prop = less_prop_t_def less_eq_prop_t_def prop_gt_def prop_ge_def word_le_nat_alt

lemma sample_promises:
  "\<exists>w. px_reachable g abc 2 w \<and> w_issued w = {} \<and> w_votes w = {} \<and> w_decided w = {} \<and>
     {(''a'', Prop 1 ''c'', empty_reply ''a''), (''c'', Prop 1 ''c'', empty_reply ''c''),
      (''a'', Prop 2 ''b'', empty_reply ''a''), (''b'', Prop 2 ''b'', empty_reply ''b'')} \<subseteq> w_promises w \<and>
     (\<forall>m. ac_instance_h (w_acc w m) = 1 \<and> ac_n_a (w_acc w m) = Prop 0 m \<and> ac_v_a (w_acc w m) = []) \<and>
     ac_n_h (w_acc w ''a'') = Prop 2 ''b'' \<and> ac_n_h (w_acc w ''b'') = Prop 2 ''b'' \<and> ac_n_h (w_acc w ''c'') = Prop 1 ''c''"
proof -
  have r0: "px_reachable g abc 2 start_world"
    by (rule px_start) (simp add: px_initial_def start_world_def)
  note ev = eval_prop start_world_def
  have r1: "px_reachable g abc 2 (start_world\<lparr>w_acc := (w_acc start_world)(''a'' :=
      logprop (Prop 1 ''c'') ((w_acc start_world ''a'')\<lparr>ac_n_h := Prop 1 ''c''\<rparr>)),
      w_promises := {(''a'', Prop 1 ''c'', empty_reply ''a'')}\<rparr>)" (is "px_reachable _ _ _ ?w1")
    using run_promise [OF r0, of "Prop 1 ''c''" "''a''"]
    by (simp add: ev empty_reply_def del: prop_gt_less prop_ge_le)
  have r2: "px_reachable g abc 2 (?w1\<lparr>w_acc := (w_acc ?w1)(''c'' :=
      logprop (Prop 1 ''c'') ((w_acc ?w1 ''c'')\<lparr>ac_n_h := Prop 1 ''c''\<rparr>)),
      w_promises := insert (''c'', Prop 1 ''c'', empty_reply ''c'') (w_promises ?w1)\<rparr>)" (is "px_reachable _ _ _ ?w2")
    using run_promise [OF r1, of "Prop 1 ''c''" "''c''"]
    by (simp add: ev empty_reply_def del: prop_gt_less prop_ge_le)
  have r3: "px_reachable g abc 2 (?w2\<lparr>w_acc := (w_acc ?w2)(''a'' :=
      logprop (Prop 2 ''b'') ((w_acc ?w2 ''a'')\<lparr>ac_n_h := Prop 2 ''b''\<rparr>)),
      w_promises := insert (''a'', Prop 2 ''b'', empty_reply ''a'') (w_promises ?w2)\<rparr>)" (is "px_reachable _ _ _ ?w3")
    using run_promise [OF r2, of "Prop 2 ''b''" "''a''"]
    by (simp add: ev empty_reply_def del: prop_gt_less prop_ge_le)
  have r4: "px_reachable g abc 2 (?w3\<lparr>w_acc := (w_acc ?w3)(''b'' :=
      logprop (Prop 2 ''b'') ((w_acc ?w3 ''b'')\<lparr>ac_n_h := Prop 2 ''b''\<rparr>)),
      w_promises := insert (''b'', Prop 2 ''b'', empty_reply ''b'') (w_promises ?w3)\<rparr>)" (is "px_reachable _ _ _ ?w4")
    using run_promise [OF r3, of "Prop 2 ''b''" "''b''"]
    by (simp add: ev empty_reply_def del: prop_gt_less prop_ge_le)
  show ?thesis
    by (rule exI [of _ ?w4], intro conjI, rule r4) (simp_all add: start_world_def)
qed

lemma majority_abc: "majority abc [''a'', ''b'']" "majority abc [''a'', ''c'']"
  by (simp_all add: majority_def abc_def)

lemma commit_sel:
  assumes "ac_instance_h acc < i"
  shows "ac_instance_h (commit_wo i v acc) = i" "smap_val [] i (ac_values (commit_wo i v acc)) = v"
    "prop_n (ac_n_h (commit_wo i v acc)) = 0"
  using assms by (simp_all add: commit_wo_def loginstance_def Let_def)

lemma sample_commit:
  "\<exists>w. px_reachable g abc 2 w \<and> w_issued w = {(Prop 2 ''b'', ''v'', [''a'', ''b''])} \<and>
     ([''a'', ''b''], ''v'') \<in> w_decided w \<and>
     {(''a'', Prop 1 ''c'', empty_reply ''a''), (''c'', Prop 1 ''c'', empty_reply ''c'')} \<subseteq> w_promises w \<and>
     ac_instance_h (w_acc w ''a'') = 2 \<and> smap_val [] 2 (ac_values (w_acc w ''a'')) = ''v'' \<and>
     prop_n (ac_n_h (w_acc w ''a'')) = 0 \<and>
     ac_instance_h (w_acc w ''b'') = 2 \<and> smap_val [] 2 (ac_values (w_acc w ''b'')) = ''v'' \<and>
     ac_instance_h (w_acc w ''c'') = 1 \<and> ac_n_h (w_acc w ''c'') = Prop 1 ''c''"
proof -
  obtain w where w: "px_reachable g abc 2 w" "w_issued w = {}" "w_votes w = {}" "w_decided w = {}"
    "{(''a'', Prop 1 ''c'', empty_reply ''a''), (''c'', Prop 1 ''c'', empty_reply ''c''),
      (''a'', Prop 2 ''b'', empty_reply ''a''), (''b'', Prop 2 ''b'', empty_reply ''b'')} \<subseteq> w_promises w"
    "\<forall>m. ac_instance_h (w_acc w m) = 1 \<and> ac_n_a (w_acc w m) = Prop 0 m \<and> ac_v_a (w_acc w m) = []"
    "ac_n_h (w_acc w ''a'') = Prop 2 ''b''" "ac_n_h (w_acc w ''b'') = Prop 2 ''b''"
    "ac_n_h (w_acc w ''c'') = Prop 1 ''c''"
    using sample_promises by blast
  let ?n = "Prop 2 ''b''"
  let ?outs = "[(''a'', Returned paxos_OK (empty_reply ''a'')), (''b'', Returned paxos_OK (empty_reply ''b'')), (''c'', Unbound)]"
  have "prepare ?outs = Inr ([''a'', ''b''], [])" by (simp add: prepare_def empty_reply_def)
  then have r1: "px_reachable g abc 2 (w\<lparr>w_issued := {(?n, ''v'', [''a'', ''b''])}\<rparr>)" (is "px_reachable _ _ _ ?w1")
    using run_issue [OF w(1), of ?outs ?n "[''a'', ''b'']" "''v''"] w(2,5) majority_abc
    by (simp add: abc_def empty_reply_def)
  have r2: "px_reachable g abc 2 (?w1\<lparr>w_acc := (w_acc w)(''a'' := logaccept ?n ''v'' ((w_acc w ''a'')\<lparr>ac_n_a := ?n, ac_v_a := ''v''\<rparr>)),
      w_votes := {(''a'', ?n, ''v'')}\<rparr>)" (is "px_reachable _ _ _ ?w2")
    using run_vote [OF r1, of ?n "''v''" "[''a'', ''b'']" "''a''"] w(3,6,7) by simp
  have r3: "px_reachable g abc 2 (?w2\<lparr>w_acc := (w_acc ?w2)(''b'' := logaccept ?n ''v'' ((w_acc w ''b'')\<lparr>ac_n_a := ?n, ac_v_a := ''v''\<rparr>)),
      w_votes := {(''b'', ?n, ''v''), (''a'', ?n, ''v'')}\<rparr>)" (is "px_reachable _ _ _ ?w3")
    using run_vote [OF r2, of ?n "''v''" "[''a'', ''b'']" "''b''"] w(6,8) by simp
  have r4: "px_reachable g abc 2 (?w3\<lparr>w_decided := {([''a'', ''b''], ''v'')}\<rparr>)" (is "px_reachable _ _ _ ?w4")
    using run_decide [OF r3, of ?n "''v''" "[''a'', ''b'']"] w(4) majority_abc by simp
  have r5: "px_reachable g abc 2 (?w4\<lparr>w_acc := (w_acc ?w4)(''a'' := commit_wo 2 ''v'' (w_acc ?w4 ''a''))\<rparr>)" (is "px_reachable _ _ _ ?w5")
    using run_commit [OF r4, of "[''a'', ''b'']" "''v''" "''a''"] w(6) by simp
  have r6: "px_reachable g abc 2 (?w5\<lparr>w_acc := (w_acc ?w5)(''b'' := commit_wo 2 ''v'' (w_acc ?w5 ''b''))\<rparr>)" (is "px_reachable _ _ _ ?w6")
    using run_commit [OF r5, of "[''a'', ''b'']" "''v''" "''b''"] w(6) by simp
  show ?thesis
    by (rule exI [of _ ?w6], intro conjI, rule r6) (use w in \<open>simp_all add: commit_sel\<close>)
qed

text \<open>Then the accept request of the proposer of \<open>c\<close>, delayed until now, reaches \<open>a\<close> and \<open>c\<close>.\<close>

lemma stale_accept_run:
  "\<exists>w. px_reachable False abc 2 w \<and> ac_instance_h (w_acc w ''a'') = 2 \<and> ac_instance_h (w_acc w ''c'') = 2 \<and>
     smap_val [] 2 (ac_values (w_acc w ''a'')) = ''v'' \<and> smap_val [] 2 (ac_values (w_acc w ''c'')) = ''w''"
proof -
  obtain w where w: "px_reachable False abc 2 w" "w_issued w = {(Prop 2 ''b'', ''v'', [''a'', ''b''])}"
    "{(''a'', Prop 1 ''c'', empty_reply ''a''), (''c'', Prop 1 ''c'', empty_reply ''c'')} \<subseteq> w_promises w"
    "ac_instance_h (w_acc w ''a'') = 2" "smap_val [] 2 (ac_values (w_acc w ''a'')) = ''v''"
    "prop_n (ac_n_h (w_acc w ''a'')) = 0"
    "ac_instance_h (w_acc w ''c'') = 1" "ac_n_h (w_acc w ''c'') = Prop 1 ''c''"
    using sample_commit by blast
  let ?n = "Prop 1 ''c''"
  let ?outs = "[(''a'', Returned paxos_OK (empty_reply ''a'')), (''b'', Unbound), (''c'', Returned paxos_OK (empty_reply ''c''))]"
  have le: "ac_n_h (w_acc w ''a'') \<le> ?n"
    using w(6) by (simp add: less_eq_prop_t_def prop_ge_def del: prop_ge_le)
  have "prepare ?outs = Inr ([''a'', ''c''], [])" by (simp add: prepare_def empty_reply_def)
  then have r1: "px_reachable False abc 2 (w\<lparr>w_issued := insert (?n, ''w'', [''a'', ''c'']) (w_issued w)\<rparr>)" (is "px_reachable _ _ _ ?w1")
    using run_issue [OF w(1), of ?outs ?n "[''a'', ''c'']" "''w''"] w(2,3) majority_abc
    by (simp add: abc_def empty_reply_def)
  have r2: "px_reachable False abc 2 (?w1\<lparr>w_acc := (w_acc w)(''a'' := logaccept ?n ''w'' ((w_acc w ''a'')\<lparr>ac_n_a := ?n, ac_v_a := ''w''\<rparr>)),
      w_votes := insert (''a'', ?n, ''w'') (w_votes w)\<rparr>)" (is "px_reachable _ _ _ ?w2")
    using run_vote [OF r1, of ?n "''w''" "[''a'', ''c'']" "''a''"] le by simp
  have r3: "px_reachable False abc 2 (?w2\<lparr>w_acc := (w_acc ?w2)(''c'' := logaccept ?n ''w'' ((w_acc w ''c'')\<lparr>ac_n_a := ?n, ac_v_a := ''w''\<rparr>)),
      w_votes := insert (''c'', ?n, ''w'') (w_votes ?w2)\<rparr>)" (is "px_reachable _ _ _ ?w3")
    using run_vote [OF r2, of ?n "''w''" "[''a'', ''c'']" "''c''"] w(8) by simp
  have r4: "px_reachable False abc 2 (?w3\<lparr>w_decided := insert ([''a'', ''c''], ''w'') (w_decided w)\<rparr>)" (is "px_reachable _ _ _ ?w4")
    using run_decide [OF r3, of ?n "''w''" "[''a'', ''c'']"] majority_abc by simp
  have r5: "px_reachable False abc 2 (?w4\<lparr>w_acc := (w_acc ?w4)(''c'' := commit_wo 2 ''w'' (w_acc ?w4 ''c''))\<rparr>)" (is "px_reachable _ _ _ ?w5")
    using run_commit [OF r4, of "[''a'', ''c'']" "''w''" "''c''"] w(7) by simp
  show ?thesis
    by (rule exI [of _ ?w5], intro conjI, rule r5) (use w in \<open>simp_all add: commit_sel\<close>)
qed

subsection \<open>Properties\<close>





text \<open>(C33) The proviso of the agreement theorem is needed, and the code does not establish it: \<^verbatim>\<open>acceptreq\<close> does
  not look at the instance, and a node that commits resets \<^verbatim>\<open>n_h\<close>, so it accepts a delayed
  accept request of the instance it has finished. There is a run of three nodes in which two values
  are committed for the same instance.\<close>

theorem stale_accept_disagreement:
  "\<exists>C i w a b. px_reachable False C i w \<and> ac_instance_h (w_acc w a) = i \<and> ac_instance_h (w_acc w b) = i \<and>
     smap_val [] i (ac_values (w_acc w a)) \<noteq> smap_val [] i (ac_values (w_acc w b))"
proof -
  obtain w where "px_reachable False abc 2 w" "ac_instance_h (w_acc w ''a'') = 2" "ac_instance_h (w_acc w ''c'') = 2"
    "smap_val [] 2 (ac_values (w_acc w ''a'')) = ''v''" "smap_val [] 2 (ac_values (w_acc w ''c'')) = ''w''"
    using stale_accept_run by blast
  then show ?thesis by (intro exI [of _ abc] exI [of _ 2] exI [of _ w] exI [of _ "''a''"] exI [of _ "''c''"]) simp
qed

end
