(* ===== verification/Lock_Server_Rsm.thy ===== *)
theory Lock_Server_Rsm
  imports Protocols
begin

text \<open>
  The replicated caching lock server, \<^verbatim>\<open>lock_server_cache_rsm\<close>. For every lock it keeps
  a queue of clients; the front of the queue may hold the lock. Requests carry a sequence number
  per client and lock. A condition variable is a flag: it is set by a broadcast, and the thread
  that waits on it clears it when it has made a pass. All the operations run under one mutex.
\<close>

subsection \<open>State\<close>

definition lock_OK :: int where "lock_OK = 0"
definition lock_RETRY :: int where "lock_RETRY = 1"

record lock_server =
  lk_nacquire :: u32
  lk_locks :: "(u64, bool) smap"
  lk_lock_client_list :: "(u64, string list) smap"
  lk_client_lock_id :: "(int, (u64, u64) smap) smap"
  lk_revoke_cond :: bool
  lk_retry_cond :: bool

definition lock_server_new :: lock_server where
  "lock_server_new = \<lparr>lk_nacquire = 0, lk_locks = [], lk_lock_client_list = [],
     lk_client_lock_id = [], lk_revoke_cond = False, lk_retry_cond = False\<rparr>"

subsection \<open>Requests\<close>

text \<open>\<^verbatim>\<open>client_lock_id[clt][lid] = xid\<close>\<close>

definition set_lock_xid :: "int \<Rightarrow> u64 \<Rightarrow> u64 \<Rightarrow> lock_server \<Rightarrow> lock_server" where
  "set_lock_xid clt lid xid s = s\<lparr>lk_client_lock_id :=
     smap_set clt (smap_set lid xid (smap_val [] clt (lk_client_lock_id s))) (lk_client_lock_id s)\<rparr>"

definition lock_xid :: "int \<Rightarrow> u64 \<Rightarrow> lock_server \<Rightarrow> u64" where
  "lock_xid clt lid s = smap_val 0 lid (smap_val [] clt (lk_client_lock_id s))"

text \<open>The search loop of \<^verbatim>\<open>acquire\<close>: the position of \<open>dst\<close>, if it is in the queue.\<close>

fun find_client :: "string \<Rightarrow> nat \<Rightarrow> string list \<Rightarrow> nat option" where
  "find_client dst i [] = None"
| "find_client dst i (c # cs) = (if c = dst then Some i else find_client dst (i + 1) cs)"

text \<open>The entry of the client in \<^verbatim>\<open>client_lock_id\<close>, created at its first request.\<close>

definition acquire_entry :: "int \<Rightarrow> u64 \<Rightarrow> lock_server \<Rightarrow> lock_server" where
  "acquire_entry clt lid s = (if \<not> smap_has clt (lk_client_lock_id s)
     \<or> \<not> smap_has lid (smap_val [] clt (lk_client_lock_id s)) then set_lock_xid clt lid 0 s else s)"

text \<open>The first argument is the result variable as the caller passes it.\<close>

definition acquire :: "u32 \<Rightarrow> int \<Rightarrow> u64 \<Rightarrow> string \<Rightarrow> u64 \<Rightarrow> lock_server
    \<Rightarrow> int \<times> u32 \<times> lock_server" where
  "acquire r clt lid dst xid s =
     (let s = acquire_entry clt lid s
      in if xid < lock_xid clt lid s then (lock_OK, r, s)
         else if xid = lock_xid clt lid s then (lock_OK, r, s\<lparr>lk_revoke_cond := True\<rparr>)
         else
           let s = s\<lparr>lk_nacquire := lk_nacquire s + 1\<rparr>;
               r = lk_nacquire s;
               queue = smap_val [] lid (lk_lock_client_list s);
               (position, queue) = (case find_client dst 0 queue of
                   Some i \<Rightarrow> (i, queue) | None \<Rightarrow> (length queue, queue @ [dst]));
               s = s\<lparr>lk_lock_client_list := smap_set lid queue (lk_lock_client_list s)\<rparr>;
               s = (if length queue > 1 then s\<lparr>lk_revoke_cond := True\<rparr> else s)
           in if position = 0
              then (lock_OK, r, s\<lparr>lk_locks := smap_set lid True (lk_locks s)\<rparr>)
              else (lock_RETRY, r, s))"

text \<open>\<^verbatim>\<open>client_lock_id[clt][lid]\<close> is read with \<^verbatim>\<open>operator[]\<close>, which inserts zero.\<close>

definition release :: "u32 \<Rightarrow> int \<Rightarrow> u64 \<Rightarrow> string \<Rightarrow> u64 \<Rightarrow> lock_server
    \<Rightarrow> int \<times> u32 \<times> lock_server" where
  "release r clt lid dst xid s =
     (let r = lk_nacquire s;
          s = set_lock_xid clt lid (lock_xid clt lid s) s
      in if xid < lock_xid clt lid s then (lock_OK, r, s)
         else if xid = lock_xid clt lid s then (lock_OK, r, s\<lparr>lk_retry_cond := True\<rparr>)
         else
           let s = set_lock_xid clt lid xid s;
               s = s\<lparr>lk_nacquire := lk_nacquire s - 1\<rparr>;
               (queue, lists) = smap_index [] lid (lk_lock_client_list s);
               s = s\<lparr>lk_lock_client_list := lists\<rparr>;
               s = (if queue \<noteq> [] \<and> hd queue = dst
                    then s\<lparr>lk_locks := smap_set lid False (lk_locks s),
                           lk_lock_client_list := smap_set lid (tl queue) (lk_lock_client_list s)\<rparr>
                    else s)
           in (lock_OK, r, s\<lparr>lk_retry_cond := True\<rparr>))"

definition lock_stat :: "u32 \<Rightarrow> u64 \<Rightarrow> lock_server \<Rightarrow> int \<times> u32 \<times> lock_server" where
  "lock_stat r lid s = (lock_OK, lk_nacquire s, s)"

subsection \<open>Revoker and retryer\<close>

text \<open>
  One pass over \<^verbatim>\<open>locks\<close> of a background thread at the primary, up to its wait.
  \<open>call dst lid\<close> is the outcome of the call to client \<open>dst\<close>; a null \<^verbatim>\<open>rpcc\<close> is
  dereferenced, and a call that fails aborts the server. The pass returns the calls it made.
\<close>

fun notify_loop :: "(bool \<Rightarrow> bool) \<Rightarrow> nat \<Rightarrow> (string \<Rightarrow> u64 \<Rightarrow> unit outcome) \<Rightarrow> (u64 \<times> bool) list
    \<Rightarrow> lock_server \<Rightarrow> ((string \<times> u64) list \<times> lock_server) res" where
  "notify_loop sel least call [] s = Inr ([], s)"
| "notify_loop sel least call ((lid, b) # iter) s =
     (if sel b then
        let (vec, lists) = smap_index [] lid (lk_lock_client_list s);
            s = s\<lparr>lk_lock_client_list := lists\<rparr>
        in if length vec > least then
             (case call (hd vec) lid of
                Unbound \<Rightarrow> Inl Undefined_behaviour
              | Returned ret _ \<Rightarrow>
                  if ret \<noteq> lock_OK then Inl Verify_failed
                  else res_bind (notify_loop sel least call iter s)
                    (\<lambda>(sent, s). Inr ((hd vec, lid) # sent, s)))
           else notify_loop sel least call iter s
      else notify_loop sel least call iter s)"

text \<open>The revoker calls the holders of the locks that other clients wait for, the retryer the
  next clients of the locks that are free.\<close>

definition revoker_pass :: "bool \<Rightarrow> (string \<Rightarrow> u64 \<Rightarrow> unit outcome) \<Rightarrow> lock_server
    \<Rightarrow> ((string \<times> u64) list \<times> lock_server) res" where
  "revoker_pass amiprimary call s =
     res_bind (if amiprimary then notify_loop (\<lambda>b. b) 1 call (lk_locks s) s else Inr ([], s))
       (\<lambda>(sent, s). Inr (sent, s\<lparr>lk_revoke_cond := False\<rparr>))"

definition retryer_pass :: "bool \<Rightarrow> (string \<Rightarrow> u64 \<Rightarrow> unit outcome) \<Rightarrow> lock_server
    \<Rightarrow> ((string \<times> u64) list \<times> lock_server) res" where
  "retryer_pass amiprimary call s =
     res_bind (if amiprimary then notify_loop (\<lambda>b. \<not> b) 0 call (lk_locks s) s else Inr ([], s))
       (\<lambda>(sent, s). Inr (sent, s\<lparr>lk_retry_cond := False\<rparr>))"

subsection \<open>State transfer\<close>

definition marshal_state :: "lock_server \<Rightarrow> string" where
  "marshal_state s =
     (let rep = put_uint (of_nat (length (lk_lock_client_list s))) marshall_new;
          rep = fold (\<lambda>(name, vec) rep. put_vector put_string vec (put_ull name rep))
            (lk_lock_client_list s) rep;
          rep = put_uint (of_nat (length (lk_locks s))) rep;
          rep = fold (\<lambda>(name, value) rep. put_bool value (put_ull name rep)) (lk_locks s) rep;
          rep = put_uint (of_nat (length (lk_client_lock_id s))) rep;
          rep = fold (\<lambda>(clt, xids) rep.
              fold (\<lambda>(name, value) rep. put_ull value (put_ull name rep)) xids
                (put_uint (of_nat (length xids)) (put_int clt rep)))
            (lk_client_lock_id s) rep
      in m_str rep)"

fun unmarshal_queues :: "nat \<Rightarrow> unmarshall \<Rightarrow> (u64, string list) smap
    \<Rightarrow> unmarshall \<times> (u64, string list) smap" where
  "unmarshal_queues 0 rep d = (rep, d)"
| "unmarshal_queues (Suc n) rep d =
     (let (name, rep) = get_ull rep; (vec, rep) = get_vector get_string rep
      in unmarshal_queues n rep (smap_set name vec d))"

fun unmarshal_locks :: "nat \<Rightarrow> unmarshall \<Rightarrow> (u64, bool) smap
    \<Rightarrow> unmarshall \<times> (u64, bool) smap" where
  "unmarshal_locks 0 rep d = (rep, d)"
| "unmarshal_locks (Suc n) rep d =
     (let (name, rep) = get_ull rep; (value, rep) = get_bool rep
      in unmarshal_locks n rep (smap_set name value d))"

fun unmarshal_xids :: "nat \<Rightarrow> int \<Rightarrow> unmarshall \<Rightarrow> (int, (u64, u64) smap) smap
    \<Rightarrow> unmarshall \<times> (int, (u64, u64) smap) smap" where
  "unmarshal_xids 0 clt rep d = (rep, d)"
| "unmarshal_xids (Suc n) clt rep d =
     (let (name, rep) = get_ull rep; (value, rep) = get_ull rep
      in unmarshal_xids n clt rep (smap_set clt (smap_set name value (smap_val [] clt d)) d))"

fun unmarshal_clients :: "nat \<Rightarrow> unmarshall \<Rightarrow> (int, (u64, u64) smap) smap
    \<Rightarrow> unmarshall \<times> (int, (u64, u64) smap) smap" where
  "unmarshal_clients 0 rep d = (rep, d)"
| "unmarshal_clients (Suc n) rep d =
     (let (clt, rep) = get_int rep; (size4, rep) = get_uint rep;
          (rep, d) = unmarshal_xids (unat size4) clt rep d
      in unmarshal_clients n rep d)"

text \<open>The entries are added to the maps of the receiver, which are not cleared first.\<close>

definition unmarshal_state :: "string \<Rightarrow> lock_server \<Rightarrow> lock_server" where
  "unmarshal_state state s =
     (let rep = take_content state;
          (size1, rep) = get_uint rep;
          (rep, lists) = unmarshal_queues (unat size1) rep (lk_lock_client_list s);
          (size2, rep) = get_uint rep;
          (rep, locks) = unmarshal_locks (unat size2) rep (lk_locks s);
          (size3, rep) = get_uint rep;
          (rep, ids) = unmarshal_clients (unat size3) rep (lk_client_lock_id s)
      in s\<lparr>lk_lock_client_list := lists, lk_locks := locks, lk_client_lock_id := ids\<rparr>)"

subsection \<open>The lock service as its clients see it\<close>

definition queue :: "u64 \<Rightarrow> lock_server \<Rightarrow> string list" where
  "queue lid s = smap_val [] lid (lk_lock_client_list s)"

definition held :: "u64 \<Rightarrow> lock_server \<Rightarrow> bool" where
  "held lid s = smap_val False lid (lk_locks s)"

datatype lock_req = Acquire int u64 string u64 | Release int u64 string u64 | Stat u64

definition lock_exec :: "u32 \<Rightarrow> lock_req \<Rightarrow> lock_server \<Rightarrow> int \<times> u32 \<times> lock_server" where
  "lock_exec r q s = (case q of Acquire clt lid dst xid \<Rightarrow> acquire r clt lid dst xid s
     | Release clt lid dst xid \<Rightarrow> release r clt lid dst xid s | Stat lid \<Rightarrow> lock_stat r lid s)"

text \<open>The specification: a queue, a flag and the number of the last release, nothing else.\<close>

record lock_spec =
  sp_queue :: "u64 \<Rightarrow> string list"
  sp_held :: "u64 \<Rightarrow> bool"
  sp_last :: "int \<Rightarrow> u64 \<Rightarrow> u64"

definition lock_abs :: "lock_server \<Rightarrow> lock_spec" where
  "lock_abs s = \<lparr>sp_queue = (\<lambda>lid. queue lid s), sp_held = (\<lambda>lid. held lid s),
     sp_last = (\<lambda>clt lid. lock_xid clt lid s)\<rparr>"

definition spec_acquire :: "int \<Rightarrow> u64 \<Rightarrow> string \<Rightarrow> u64 \<Rightarrow> lock_spec \<Rightarrow> int \<times> lock_spec" where
  "spec_acquire clt lid dst xid a =
     (if xid \<le> sp_last a clt lid then (lock_OK, a)
      else let q = (if dst \<in> set (sp_queue a lid) then sp_queue a lid else sp_queue a lid @ [dst]);
               a = a\<lparr>sp_queue := (sp_queue a)(lid := q)\<rparr>
        in if hd q = dst then (lock_OK, a\<lparr>sp_held := (sp_held a)(lid := True)\<rparr>)
           else (lock_RETRY, a))"

definition spec_release :: "int \<Rightarrow> u64 \<Rightarrow> string \<Rightarrow> u64 \<Rightarrow> lock_spec \<Rightarrow> int \<times> lock_spec" where
  "spec_release clt lid dst xid a =
     (if xid \<le> sp_last a clt lid then (lock_OK, a)
      else let a = a\<lparr>sp_last := (sp_last a)(clt := (sp_last a clt)(lid := xid))\<rparr>
        in (lock_OK, if sp_queue a lid \<noteq> [] \<and> hd (sp_queue a lid) = dst
             then a\<lparr>sp_held := (sp_held a)(lid := False),
                    sp_queue := (sp_queue a)(lid := tl (sp_queue a lid))\<rparr>
             else a))"

definition spec_exec :: "lock_req \<Rightarrow> lock_spec \<Rightarrow> int \<times> lock_spec" where
  "spec_exec q a = (case q of Acquire clt lid dst xid \<Rightarrow> spec_acquire clt lid dst xid a
     | Release clt lid dst xid \<Rightarrow> spec_release clt lid dst xid a | Stat lid \<Rightarrow> (lock_OK, a))"

subsection \<open>Refinement\<close>

lemma find_client_None [simp]: "find_client dst i cs = None \<longleftrightarrow> dst \<notin> set cs"
  by (induction cs arbitrary: i) auto

lemma find_client_ge: "find_client dst i cs = Some j \<Longrightarrow> i \<le> j"
  by (induction cs arbitrary: i) (force split: if_splits)+

lemma find_client_0: "find_client dst 0 cs = Some j \<Longrightarrow> j = 0 \<longleftrightarrow> hd cs = dst"
  by (cases cs) (auto dest: find_client_ge split: if_splits)

lemma lock_abs_eq:
  "lock_abs s = a \<longleftrightarrow> sp_queue a = (\<lambda>lid. queue lid s) \<and> sp_held a = (\<lambda>lid. held lid s)
     \<and> sp_last a = (\<lambda>clt lid. lock_xid clt lid s)"
  by (auto simp: lock_abs_def)

lemma lock_xid_set [simp]:
  "lock_xid clt' lid' (set_lock_xid clt lid xid s)
     = (if clt' = clt \<and> lid' = lid then xid else lock_xid clt' lid' s)"
  by (simp add: lock_xid_def set_lock_xid_def)

lemma set_lock_xid_sel [simp]:
  "queue lid' (set_lock_xid clt lid xid s) = queue lid' s"
  "held lid' (set_lock_xid clt lid xid s) = held lid' s"
  "lk_lock_client_list (set_lock_xid clt lid xid s) = lk_lock_client_list s"
  "lk_locks (set_lock_xid clt lid xid s) = lk_locks s"
  by (simp_all add: queue_def held_def set_lock_xid_def)

lemma lock_xid_fresh:
  "\<not> smap_has clt (lk_client_lock_id s) \<or> \<not> smap_has lid (smap_val [] clt (lk_client_lock_id s))
   \<Longrightarrow> lock_xid clt lid s = 0"
  by (auto simp: lock_xid_def smap_has_def smap_val_def split: option.splits)

lemma lock_abs_update [simp]:
  "lock_abs (s\<lparr>lk_nacquire := n\<rparr>) = lock_abs s"
  "lock_abs (s\<lparr>lk_revoke_cond := b\<rparr>) = lock_abs s"
  "lock_abs (s\<lparr>lk_retry_cond := b\<rparr>) = lock_abs s"
  "lock_abs (s\<lparr>lk_locks := smap_set lid b (lk_locks s)\<rparr>)
     = (lock_abs s)\<lparr>sp_held := (sp_held (lock_abs s))(lid := b)\<rparr>"
  "lock_abs (s\<lparr>lk_lock_client_list := smap_set lid q (lk_lock_client_list s)\<rparr>)
     = (lock_abs s)\<lparr>sp_queue := (sp_queue (lock_abs s))(lid := q)\<rparr>"
  "lock_abs (s\<lparr>lk_lock_client_list := snd (smap_index [] lid (lk_lock_client_list s))\<rparr>) = lock_abs s"
  by (auto simp: lock_abs_def queue_def held_def lock_xid_def fun_eq_iff)

lemma lock_abs_set_xid:
  "lock_abs (set_lock_xid clt lid xid s)
     = (lock_abs s)\<lparr>sp_last := (sp_last (lock_abs s))(clt := (sp_last (lock_abs s) clt)(lid := xid))\<rparr>"
  by (auto simp: lock_abs_def fun_eq_iff)

lemma lock_abs_sel [simp]:
  "sp_queue (lock_abs s) lid = queue lid s" "sp_held (lock_abs s) lid = held lid s"
  "sp_last (lock_abs s) clt lid = lock_xid clt lid s"
  by (simp_all add: lock_abs_def)

lemma lock_abs_touch:
  "lock_xid clt lid s = xid \<Longrightarrow> lock_abs (set_lock_xid clt lid xid s) = lock_abs s"
  by (auto simp: lock_abs_def fun_eq_iff)

lemma acquire_entry_abs [simp]: "lock_abs (acquire_entry clt lid s) = lock_abs s"
  by (simp add: acquire_entry_def lock_abs_touch lock_xid_fresh)

lemma acquire_entry_sel [simp]:
  "lock_xid clt' lid' (acquire_entry clt lid s) = lock_xid clt' lid' s"
  "queue lid' (acquire_entry clt lid s) = queue lid' s"
  using acquire_entry_abs [of clt lid s] by (auto simp: lock_abs_eq fun_eq_iff lock_abs_def)

lemma acquire_entry_maps:
  "lk_lock_client_list (acquire_entry clt lid s) = lk_lock_client_list s"
  "lk_locks (acquire_entry clt lid s) = lk_locks s"
  by (simp_all add: acquire_entry_def)

lemma acquire_old:
  "xid \<le> lock_xid clt lid s \<Longrightarrow> acquire r clt lid dst xid s
     = (lock_OK, r, if xid < lock_xid clt lid s then acquire_entry clt lid s
        else (acquire_entry clt lid s)\<lparr>lk_revoke_cond := True\<rparr>)"
  by (auto simp: acquire_def Let_def)

text \<open>What a request that is not a duplicate does\<close>

lemma acquire_fresh:
  fixes dst :: string
  assumes "lock_xid clt lid s < xid"
  defines "s1 \<equiv> acquire_entry clt lid s"
    and "q \<equiv> if dst \<in> set (queue lid s) then queue lid s else queue lid s @ [dst]"
  shows "acquire r clt lid dst xid s =
     (if hd q = dst then lock_OK else lock_RETRY, lk_nacquire s1 + 1,
      s1\<lparr>lk_nacquire := lk_nacquire s1 + 1,
         lk_lock_client_list := smap_set lid q (lk_lock_client_list s1),
         lk_revoke_cond := lk_revoke_cond s1 \<or> length q > 1,
         lk_locks := if hd q = dst then smap_set lid True (lk_locks s1) else lk_locks s1\<rparr>)"
proof -
  have x: "\<not> xid < lock_xid clt lid s1" "xid \<noteq> lock_xid clt lid s1"
    using assms(1) by (auto simp: s1_def)
  have q: "smap_val [] lid (lk_lock_client_list s1) = queue lid s"
    using acquire_entry_sel(2) [of lid clt lid s] by (simp add: queue_def s1_def)
  show ?thesis
  proof (cases "find_client dst 0 (queue lid s)")
    case None
    then have n: "dst \<notin> set (queue lid s)" by simp
    then have "hd q = dst \<longleftrightarrow> length (queue lid s) = 0" "q = queue lid s @ [dst]"
      by (cases "queue lid s"; auto simp: q_def)+
    then show ?thesis using None x q
      by (simp add: acquire_def Let_def s1_def [symmetric] del: find_client_None)
  next
    case (Some j)
    then have "dst \<in> set (queue lid s)" using find_client_None [of dst 0 "queue lid s"] by auto
    then have "q = queue lid s" "hd q = dst \<longleftrightarrow> j = 0"
      using find_client_0 [OF Some] by (simp_all add: q_def)
    then show ?thesis using Some x q
      by (auto simp: acquire_def Let_def s1_def [symmetric])
  qed
qed

lemma release_old:
  "xid \<le> lock_xid clt lid s \<Longrightarrow> release r clt lid dst xid s
     = (lock_OK, lk_nacquire s, if xid < lock_xid clt lid s
        then set_lock_xid clt lid (lock_xid clt lid s) s
        else (set_lock_xid clt lid (lock_xid clt lid s) s)\<lparr>lk_retry_cond := True\<rparr>)"
  by (simp add: release_def Let_def)

lemma set_lock_xid_twice [simp]:
  "set_lock_xid clt lid xid (set_lock_xid clt lid xid' s) = set_lock_xid clt lid xid s"
  by (simp add: set_lock_xid_def)

lemma release_fresh:
  fixes dst :: string
  assumes "lock_xid clt lid s < xid"
  defines "s1 \<equiv> set_lock_xid clt lid xid s"
    and "pop \<equiv> queue lid s \<noteq> [] \<and> hd (queue lid s) = dst"
  shows "release r clt lid dst xid s = (lock_OK, lk_nacquire s,
     s1\<lparr>lk_nacquire := lk_nacquire s1 - 1,
        lk_lock_client_list := if pop then smap_set lid (tl (queue lid s)) (lk_lock_client_list s)
          else snd (smap_index [] lid (lk_lock_client_list s)),
        lk_locks := if pop then smap_set lid False (lk_locks s) else lk_locks s,
        lk_retry_cond := True\<rparr>)"
proof -
  obtain L where i: "smap_index [] lid (lk_lock_client_list s) = (queue lid s, L)"
    by (metis fst_smap_index prod.collapse queue_def)
  have "queue lid s \<noteq> [] \<Longrightarrow> L = lk_lock_client_list s"
    using i by (auto simp: queue_def smap_val_def smap_index_def split: option.splits)
  then show ?thesis using assms(1) i
    by (cases pop) (auto simp: release_def s1_def pop_def Let_def)
qed

lemma acquire_abs:
  "(fst (acquire r clt lid dst xid s), lock_abs (snd (snd (acquire r clt lid dst xid s))))
     = spec_acquire clt lid dst xid (lock_abs s)"
proof (cases "xid \<le> lock_xid clt lid s")
  case True
  then show ?thesis by (simp add: acquire_old spec_acquire_def)
next
  case False
  have "lock_abs (s\<lparr>lk_nacquire := n, lk_lock_client_list := smap_set lid q (lk_lock_client_list s),
        lk_revoke_cond := b, lk_locks := if c then smap_set lid True (lk_locks s) else lk_locks s\<rparr>)
      = (let a = (lock_abs s)\<lparr>sp_queue := (sp_queue (lock_abs s))(lid := q)\<rparr>
         in if c then a\<lparr>sp_held := (sp_held a)(lid := True)\<rparr> else a)" for s n q b c
    by (auto simp: lock_abs_def Let_def fun_eq_iff queue_def held_def lock_xid_def)
  with False show ?thesis
    by (simp add: acquire_fresh spec_acquire_def Let_def)
qed

lemma release_abs:
  "(fst (release r clt lid dst xid s), lock_abs (snd (snd (release r clt lid dst xid s))))
     = spec_release clt lid dst xid (lock_abs s)"
proof (cases "xid \<le> lock_xid clt lid s")
  case True
  then show ?thesis by (simp add: release_old spec_release_def lock_abs_touch)
next
  case False
  have "lock_abs (s\<lparr>lk_nacquire := n, lk_lock_client_list := l, lk_locks := k, lk_retry_cond := b\<rparr>)
      = (lock_abs s)\<lparr>sp_queue := (\<lambda>lid. smap_val [] lid l), sp_held := (\<lambda>lid. smap_val False lid k)\<rparr>"
    for s n l k b
    by (auto simp: lock_abs_def fun_eq_iff queue_def held_def lock_xid_def)
  moreover have "(\<lambda>lid'. smap_val [] lid' (smap_set lid q (lk_lock_client_list s)))
      = (sp_queue (lock_abs s))(lid := q)"
    "(\<lambda>lid'. smap_val [] lid' (snd (smap_index [] lid (lk_lock_client_list s)))) = sp_queue (lock_abs s)"
    "(\<lambda>lid'. smap_val False lid' (smap_set lid b (lk_locks s))) = (sp_held (lock_abs s))(lid := b)"
    "(\<lambda>lid'. smap_val False lid' (lk_locks s)) = sp_held (lock_abs s)" for q b
    by (auto simp: fun_eq_iff queue_def held_def)
  ultimately show ?thesis using False
    by (simp add: release_fresh spec_release_def Let_def lock_abs_set_xid)
qed

lemma lock_exec_abs:
  "fst (lock_exec r q s) = fst (spec_exec q (lock_abs s))"
  "lock_abs (snd (snd (lock_exec r q s))) = snd (spec_exec q (lock_abs s))"
  using acquire_abs release_abs
  by (cases q; simp add: lock_exec_def spec_exec_def lock_stat_def flip: prod.sel; metis fst_conv snd_conv)+

subsection \<open>Sequences of requests\<close>

text \<open>Requests with the result variable each of them is called with\<close>

definition lock_run :: "(u32 \<times> lock_req) list \<Rightarrow> lock_server \<Rightarrow> lock_server" where
  "lock_run reqs s = fold (\<lambda>(r, q) s. snd (snd (lock_exec r q s))) reqs s"

lemma lock_run_simps [simp]:
  "lock_run [] s = s"
  "lock_run ((r, q) # reqs) s = lock_run reqs (snd (snd (lock_exec r q s)))"
  by (simp_all add: lock_run_def)

text \<open>A release that takes its client off the queue of \<open>lid\<close>\<close>

definition pop_step :: "u64 \<Rightarrow> lock_req \<Rightarrow> lock_server \<Rightarrow> bool" where
  "pop_step lid q s = (case q of
     Release clt lid' dst xid \<Rightarrow> lid' = lid \<and> lock_xid clt lid s < xid \<and> queue lid s \<noteq> []
       \<and> hd (queue lid s) = dst
   | _ \<Rightarrow> False)"

fun pops :: "u64 \<Rightarrow> (u32 \<times> lock_req) list \<Rightarrow> lock_server \<Rightarrow> nat" where
  "pops lid [] s = 0"
| "pops lid ((r, q) # reqs) s =
     (if pop_step lid q s then 1 else 0) + pops lid reqs (snd (snd (lock_exec r q s)))"

text \<open>Every request leaves the queue of a lock as it is, appends a client, or pops the front.\<close>

lemma queue_exec:
  "queue lid (snd (snd (lock_exec r q s))) =
     (if pop_step lid q s then tl (queue lid s)
      else case q of Acquire clt lid' dst xid \<Rightarrow>
          if lid' = lid \<and> lock_xid clt lid s < xid \<and> dst \<notin> set (queue lid s)
          then queue lid s @ [dst] else queue lid s
        | _ \<Rightarrow> queue lid s)"
proof -
  have "queue lid (snd (snd (lock_exec r q s))) = sp_queue (snd (spec_exec q (lock_abs s))) lid"
    using lock_exec_abs(2) [of r q s] by (metis lock_abs_sel(1))
  then show ?thesis
    by (cases q) (auto simp: spec_exec_def spec_acquire_def spec_release_def pop_step_def Let_def)
qed

lemma acquire_status:
  "fst (acquire r clt lid dst xid s) =
     (if xid \<le> lock_xid clt lid s \<or> queue lid s = [] \<or> hd (queue lid s) = dst then lock_OK
      else lock_RETRY)"
proof -
  have "fst (acquire r clt lid dst xid s) = fst (spec_acquire clt lid dst xid (lock_abs s))"
    using acquire_abs by (metis fst_conv)
  then show ?thesis
    by (cases "queue lid s") (auto simp: spec_acquire_def Let_def)
qed

lemma distinct_run: "distinct (queue lid s) \<Longrightarrow> distinct (queue lid (lock_run reqs s))"
proof (induction reqs arbitrary: s)
  case (Cons e reqs)
  then show ?case
    by (cases e) (auto simp: queue_exec distinct_tl split: lock_req.splits)
qed simp

lemma queue_position:
  assumes "n < length (queue lid s)" "pops lid reqs s \<le> n"
  shows "n - pops lid reqs s < length (queue lid (lock_run reqs s))
     \<and> queue lid (lock_run reqs s) ! (n - pops lid reqs s) = queue lid s ! n"
  using assms
proof (induction reqs arbitrary: s n)
  case (Cons e reqs)
  obtain r q where e: "e = (r, q)" by (cases e)
  let ?s = "snd (snd (lock_exec r q s))" and ?k = "if pop_step lid q s then 1 else 0 :: nat"
  have k: "?k \<le> n" using Cons.prems e by simp
  have "n - ?k < length (queue lid ?s)" "queue lid ?s ! (n - ?k) = queue lid s ! n"
    using Cons.prems(1) k
    by (auto simp: queue_exec nth_tl nth_append split: lock_req.splits if_splits)
  then show ?case using Cons.IH [of "n - ?k" ?s] Cons.prems e by (simp split: if_splits)
qed simp

subsection \<open>Reachable states\<close>

text \<open>Client numbers are sent as \<^verbatim>\<open>int\<close>.\<close>

definition lock_req_ok :: "lock_req \<Rightarrow> bool" where
  "lock_req_ok q = (case q of Acquire clt lid dst xid \<Rightarrow> fits_int clt
     | Release clt lid dst xid \<Rightarrow> fits_int clt | Stat lid \<Rightarrow> True)"

inductive lock_reachable :: "lock_server \<Rightarrow> bool" where
  init: "lock_reachable lock_server_new"
| exec: "lock_reachable s \<Longrightarrow> lock_req_ok q \<Longrightarrow> lock_reachable (snd (snd (lock_exec r q s)))"
| revoker: "lock_reachable s \<Longrightarrow> revoker_pass p call s = Inr (sent, s') \<Longrightarrow> lock_reachable s'"
| retryer: "lock_reachable s \<Longrightarrow> retryer_pass p call s = Inr (sent, s') \<Longrightarrow> lock_reachable s'"

definition xids_ok :: "(int, (u64, u64) smap) smap \<Rightarrow> bool" where
  "xids_ok d \<longleftrightarrow> smap_ok d \<and> (\<forall>(clt, xids) \<in> set d. fits_int clt \<and> xids \<noteq> [] \<and> smap_ok xids)"

definition lock_inv :: "lock_server \<Rightarrow> bool" where
  "lock_inv s \<longleftrightarrow> smap_ok (lk_lock_client_list s) \<and> smap_ok (lk_locks s) \<and> xids_ok (lk_client_lock_id s)
     \<and> (\<forall>lid. distinct (queue lid s) \<and> (held lid s \<longrightarrow> queue lid s \<noteq> [])
          \<and> (queue lid s \<noteq> [] \<longrightarrow> smap_has lid (lk_locks s)))"

lemma set_smap_set: "set (smap_set k v m) \<subseteq> insert (k, v) (set m)"
  by (induction k v m rule: smap_set.induct) auto

lemma smap_set_nonempty [simp]: "smap_set k v m \<noteq> []"
  by (cases "(k, v, m)" rule: smap_set.cases) auto

lemma xids_ok_set:
  assumes "xids_ok d" "fits_int clt"
  shows "xids_ok (smap_set clt (smap_set lid xid (smap_val [] clt d)) d)" (is "xids_ok (smap_set _ ?v _)")
proof -
  have "smap_ok (smap_val [] clt d)"
    using assms(1) by (auto simp: smap_val_def xids_ok_def dest!: map_of_SomeD split: option.splits)
  then have "smap_ok ?v" by (rule smap_ok_set)
  then have "fits_int (fst e) \<and> snd e \<noteq> [] \<and> smap_ok (snd e)" if "e \<in> set (smap_set clt ?v d)" for e
    using assms that set_smap_set [of clt ?v d] by (cases "e = (clt, ?v)") (auto simp: xids_ok_def case_prod_unfold)
  then show ?thesis
    using assms smap_ok_set [of d clt ?v] by (simp add: xids_ok_def case_prod_unfold)
qed

lemma lock_inv_xid: "lock_inv s \<Longrightarrow> fits_int clt \<Longrightarrow> lock_inv (set_lock_xid clt lid xid s)"
  unfolding lock_inv_def set_lock_xid_sel by (simp add: set_lock_xid_def xids_ok_set)

lemma lock_inv_entry: "lock_inv s \<Longrightarrow> fits_int clt \<Longrightarrow> lock_inv (acquire_entry clt lid s)"
  by (simp add: acquire_entry_def lock_inv_xid)

text \<open>The queues and the flags after a request, for the invariant\<close>

definition queue_ok :: "string list \<Rightarrow> bool \<Rightarrow> bool \<Rightarrow> bool" where
  "queue_ok q h k \<longleftrightarrow> distinct q \<and> (h \<longrightarrow> q \<noteq> []) \<and> (q \<noteq> [] \<longrightarrow> k)"

lemma lock_inv_alt:
  "lock_inv s \<longleftrightarrow> smap_ok (lk_lock_client_list s) \<and> smap_ok (lk_locks s) \<and> xids_ok (lk_client_lock_id s)
     \<and> (\<forall>lid. queue_ok (queue lid s) (held lid s) (smap_has lid (lk_locks s)))"
  by (simp add: lock_inv_def queue_ok_def)

lemma lock_inv_acquire:
  assumes "lock_inv s" "fits_int clt"
  shows "lock_inv (snd (snd (acquire r clt lid dst xid s)))"
proof (cases "xid \<le> lock_xid clt lid s")
  case True
  then show ?thesis
    using lock_inv_entry [OF assms, of lid]
    by (simp add: acquire_old lock_inv_def queue_def held_def)
next
  case False
  let ?s = "acquire_entry clt lid s"
  have i: "lock_inv ?s" using assms by (rule lock_inv_entry)
  then show ?thesis using False
    by (auto simp: acquire_fresh acquire_entry_maps lock_inv_alt queue_def held_def queue_ok_def
        hd_append split: if_splits)
qed

lemma lock_inv_release:
  assumes "lock_inv s" "fits_int clt"
  shows "lock_inv (snd (snd (release r clt lid dst xid s)))"
proof (cases "xid \<le> lock_xid clt lid s")
  case True
  then show ?thesis
    using lock_inv_xid [OF assms, of lid "lock_xid clt lid s"]
    by (simp add: release_old lock_inv_def queue_def held_def)
next
  case False
  then show ?thesis using lock_inv_xid [OF assms, of lid xid]
    by (auto simp: release_fresh lock_inv_alt queue_def held_def queue_ok_def distinct_tl smap_ok_index)
qed

text \<open>A pass only adds empty queues.\<close>

definition same_lists :: "lock_server \<Rightarrow> lock_server \<Rightarrow> bool" where
  "same_lists s s' \<longleftrightarrow> (\<exists>l. s' = s\<lparr>lk_lock_client_list := l\<rparr> \<and>
     (smap_ok (lk_lock_client_list s) \<longrightarrow> smap_ok l) \<and> (\<forall>lid. queue lid s' = queue lid s))"

lemma same_lists_refl: "same_lists s s"
  unfolding same_lists_def by (rule exI [of _ "lk_lock_client_list s"]) simp

lemma same_lists_trans: "same_lists s s' \<Longrightarrow> same_lists s' s'' \<Longrightarrow> same_lists s s''"
  by (auto simp: same_lists_def)

lemma same_lists_index:
  obtains L where "smap_index [] lid (lk_lock_client_list s) = (queue lid s, L)"
    "same_lists s (s\<lparr>lk_lock_client_list := L\<rparr>)"
proof
  show "smap_index [] lid (lk_lock_client_list s)
      = (queue lid s, snd (smap_index [] lid (lk_lock_client_list s)))"
    by (simp add: prod_eq_iff queue_def)
  show "same_lists s (s\<lparr>lk_lock_client_list := snd (smap_index [] lid (lk_lock_client_list s))\<rparr>)"
    by (auto simp: same_lists_def queue_def)
qed

lemma lock_inv_same: "same_lists s s' \<Longrightarrow> lock_inv s \<Longrightarrow> lock_inv s'"
  by (auto simp: same_lists_def lock_inv_def held_def)

lemma notify_loop_same:
  "notify_loop sel least call iter s = Inr (sent, s') \<Longrightarrow> same_lists s s'"
proof (induction iter arbitrary: s sent)
  case (Cons e iter)
  obtain lid b where e: "e = (lid, b)" by (cases e)
  obtain L where L: "smap_index [] lid (lk_lock_client_list s) = (queue lid s, L)"
    "same_lists s (s\<lparr>lk_lock_client_list := L\<rparr>)" by (rule same_lists_index)
  have "\<exists>sent'. notify_loop sel least call iter (if sel b then s\<lparr>lk_lock_client_list := L\<rparr> else s)
      = Inr (sent', s')"
    using Cons.prems e L(1) by (auto simp: Let_def res_bind_Inr split: if_splits outcome.splits)
  then show ?case using Cons.IH same_lists_trans [OF L(2)] by (auto split: if_splits)
qed (simp add: same_lists_refl)

text \<open>What a pass sends when every client can be reached and answers OK\<close>

definition clients_answer :: "(string \<Rightarrow> u64 \<Rightarrow> unit outcome) \<Rightarrow> bool" where
  "clients_answer call \<longleftrightarrow> (\<forall>dst lid. call dst lid = Returned lock_OK ())"

lemma notify_loop_sent:
  assumes "clients_answer call"
  shows "\<exists>s'. notify_loop sel least call iter s =
     Inr (map (\<lambda>(lid, b). (hd (queue lid s), lid))
            (filter (\<lambda>(lid, b). sel b \<and> length (queue lid s) > least) iter), s')"
proof (induction iter arbitrary: s)
  case (Cons e iter)
  obtain lid b where e: "e = (lid, b)" by (cases e)
  obtain L where L: "smap_index [] lid (lk_lock_client_list s) = (queue lid s, L)"
    "same_lists s (s\<lparr>lk_lock_client_list := L\<rparr>)" by (rule same_lists_index)
  then have "queue lid' (s\<lparr>lk_lock_client_list := L\<rparr>) = queue lid' s" for lid'
    by (auto simp: same_lists_def)
  then show ?case
    using Cons.IH [of s] Cons.IH [of "s\<lparr>lk_lock_client_list := L\<rparr>"] assms e L(1)
    by (auto simp: Let_def clients_answer_def)
qed simp

lemma lock_reachable_inv: "lock_reachable s \<Longrightarrow> lock_inv s"
proof (induction rule: lock_reachable.induct)
  case init
  show ?case by (simp add: lock_inv_def lock_server_new_def queue_def held_def smap_val_def xids_ok_def)
next
  case (exec s q r)
  then show ?case
    by (cases q) (auto simp: lock_exec_def lock_stat_def lock_req_ok_def lock_inv_acquire lock_inv_release)
next
  case (revoker s p call sent s')
  then obtain s1 where "same_lists s s1" "s' = s1\<lparr>lk_revoke_cond := False\<rparr>"
    by (auto simp: revoker_pass_def res_bind_Inr dest: notify_loop_same intro: same_lists_refl
        split: if_splits)
  then show ?case using lock_inv_same [OF _ revoker.IH]
    by (auto simp: lock_inv_def queue_def held_def)
next
  case (retryer s p call sent s')
  then obtain s1 where "same_lists s s1" "s' = s1\<lparr>lk_retry_cond := False\<rparr>"
    by (auto simp: retryer_pass_def res_bind_Inr dest: notify_loop_same intro: same_lists_refl
        split: if_splits)
  then show ?case using lock_inv_same [OF _ retryer.IH]
    by (auto simp: lock_inv_def queue_def held_def)
qed

subsection \<open>Properties\<close>

text \<open>(C17) The lock server implements the abstract lock service: for every request, fresh or
  duplicate, the status it returns and the queues, flags and sequence numbers it leaves behind are
  those the specification computes from the abstraction of the state.\<close>

theorem lock_server_refines:
  "(fst (lock_exec r q s), lock_abs (snd (snd (lock_exec r q s)))) = spec_exec q (lock_abs s)"
  using lock_exec_abs [of r q s] by (simp add: prod_eq_iff)

text \<open>(C8) Mutual exclusion: once a new acquire request of client \<open>dst\<close> has been answered
  OK, then whatever requests follow, as long as \<open>dst\<close> sends no release for that lock, every
  new acquire request of another client for the same lock is answered RETRY.\<close>

theorem mutual_exclusion:
  assumes "lock_xid clt lid s < xid" "fst (acquire r clt lid dst xid s) = lock_OK"
    and "s' = lock_run reqs (snd (snd (acquire r clt lid dst xid s)))"
    and "\<forall>r' c x. (r', Release c lid dst x) \<notin> set reqs"
    and "lock_xid clt' lid s' < xid'" "dst' \<noteq> dst"
  shows "fst (acquire r' clt' lid dst' xid' s') = lock_RETRY"
proof -
  let ?s1 = "snd (snd (acquire r clt lid dst xid s))"
  have "?s1 = snd (snd (lock_exec r (Acquire clt lid dst xid) s))" by (simp add: lock_exec_def)
  then have "queue lid ?s1 = (if dst \<in> set (queue lid s) then queue lid s else queue lid s @ [dst])"
    using assms(1) by (simp add: queue_exec pop_step_def)
  moreover have "queue lid s = [] \<or> hd (queue lid s) = dst"
    using assms(1,2) by (auto simp: acquire_status lock_OK_def lock_RETRY_def split: if_splits)
  ultimately have "queue lid ?s1 \<noteq> [] \<and> hd (queue lid ?s1) = dst"
    by (cases "queue lid s") auto
  moreover have "pops lid reqs t = 0" if "queue lid t \<noteq> []" "hd (queue lid t) = dst" for t
    using assms(4) that
  proof (induction reqs arbitrary: t)
    case (Cons e reqs)
    obtain r q where e: "e = (r, q)" by (cases e)
    have np: "\<not> pop_step lid q t"
      using Cons.prems e by (cases q) (auto simp: pop_step_def)
    then have "queue lid (snd (snd (lock_exec r q t))) \<noteq> []
        \<and> hd (queue lid (snd (snd (lock_exec r q t)))) = dst"
      using Cons.prems(2,3) by (auto simp: queue_exec split: lock_req.splits)
    then show ?case using Cons.IH Cons.prems np e by simp
  qed simp
  ultimately have "queue lid s' \<noteq> [] \<and> hd (queue lid s') = dst"
    using queue_position [of 0 lid ?s1 reqs] assms(3) by (auto simp: hd_conv_nth)
  then show ?thesis using assms(5,6) by (auto simp: acquire_status)
qed

text \<open>(C18) First come, first served: a client at position \<open>n\<close> of the queue of a lock gets
  OK for its next new acquire request exactly when \<open>n\<close> clients have left the front of the queue;
  as long as fewer have, it gets RETRY. No interleaving of other requests changes this.\<close>

theorem fifo_grant:
  assumes "lock_reachable s" "n < length (queue lid s)" "queue lid s ! n = dst"
    and "pops lid reqs s \<le> n" "s' = lock_run reqs s"
    and "lock_xid clt lid s' < xid"
  shows "fst (acquire r clt lid dst xid s') = (if pops lid reqs s = n then lock_OK else lock_RETRY)"
proof -
  let ?m = "n - pops lid reqs s"
  have m: "?m < length (queue lid s')" "queue lid s' ! ?m = dst"
    using queue_position [OF assms(2,4)] assms(3,5) by simp_all
  have "hd (queue lid s') = dst \<longleftrightarrow> ?m = 0"
  proof -
    have "queue lid s' \<noteq> []" using m by auto
    then have "hd (queue lid s') = queue lid s' ! 0" by (simp add: hd_conv_nth)
    moreover have "distinct (queue lid s')"
      using lock_reachable_inv [OF assms(1)] assms(5) by (simp add: lock_inv_def distinct_run)
    ultimately show ?thesis
      using m \<open>queue lid s' \<noteq> []\<close> nth_eq_iff_index_eq [of "queue lid s'" 0 ?m] by auto
  qed
  then show ?thesis using m(1) assms(4,6) by (auto simp: acquire_status)
qed


text \<open>Two clients ask for lock 7: the first gets it, the second is queued.\<close>

definition sample_queue :: lock_server where
  "sample_queue = lock_run [(0, Acquire 1 7 ''a'' 1), (0, Acquire 2 7 ''b'' 1)] lock_server_new"

lemma sample_queue_reachable: "lock_reachable sample_queue"
  unfolding sample_queue_def lock_run_simps
  by (intro lock_reachable.exec lock_reachable.init) (simp_all add: lock_req_ok_def fits_int_def)

theorem mutual_exclusion_witness:
  "fst (acquire 0 3 7 ''c'' 1 (lock_run [(0, Acquire 2 7 ''b'' 1)]
     (snd (snd (acquire 0 1 7 ''a'' 1 lock_server_new))))) = lock_RETRY"
  by (rule mutual_exclusion [where clt = 1 and s = lock_server_new and xid = 1 and r = 0 and dst = "''a''"
        and reqs = "[(0, Acquire 2 7 ''b'' 1)]"]) (simp, code_simp, code_simp, rule refl, simp, code_simp, simp)

theorem fifo_grant_witness:
  "fst (acquire 0 2 7 ''b'' 2 (lock_run [(0, Release 1 7 ''a'' 1)] sample_queue)) = lock_OK"
proof -
  have "fst (acquire 0 2 7 ''b'' 2 (lock_run [(0, Release 1 7 ''a'' 1)] sample_queue))
      = (if pops 7 [(0, Release 1 7 ''a'' 1)] sample_queue = 1 then lock_OK else lock_RETRY)"
    by (rule fifo_grant [OF sample_queue_reachable _ _ _ refl]; code_simp)
  moreover have "pops 7 [(0, Release 1 7 ''a'' 1)] sample_queue = 1" by code_simp
  ultimately show ?thesis by simp
qed


subsection \<open>State transfer\<close>

interpretation m_queues: map_codec put_ull get_ull enc_ull "\<lambda>_. True"
    "put_vector put_string" "get_vector get_string" "enc_vector enc_string"
    "\<lambda>v. length v < 2 ^ 32 \<and> list_all (\<lambda>_. True) v"
  by (intro map_codec.intro c_ull.codec_axioms c_string.codec_vector)

interpretation m_locks: map_codec put_ull get_ull enc_ull "\<lambda>_. True"
    put_bool get_bool enc_bool "\<lambda>_. True"
  by (intro map_codec.intro c_ull.codec_axioms c_bool.codec_axioms)

interpretation m_xids: map_codec put_ull get_ull enc_ull "\<lambda>_. True"
    put_ull get_ull enc_ull "\<lambda>_. True"
  by (intro map_codec.intro c_ull.codec_axioms)

interpretation m_clients: map_codec put_int get_int "\<lambda>x. enc_uint (word_of_int x)" fits_int
    "put_map put_ull put_ull" "get_map get_ull get_ull" "enc_map enc_ull enc_ull"
    "\<lambda>d. length d < 2 ^ 32 \<and> smap_ok d \<and> (\<forall>(k, v) \<in> set d. True \<and> True)"
  by (intro map_codec.intro c_int.codec_axioms m_xids.codec_map)

definition enc_state :: "lock_server \<Rightarrow> byte list" where
  "enc_state s = enc_map enc_ull (enc_vector enc_string) (lk_lock_client_list s)
     @ enc_map enc_ull enc_bool (lk_locks s)
     @ enc_map (\<lambda>x. enc_uint (word_of_int x)) (enc_map enc_ull enc_ull) (lk_client_lock_id s)"

lemmas put_state = codec.put_ok codec.put_content

lemma marshal_state_enc: "marshal_state s = map char_of_byte (enc_state s)"
proof -
  have "marshal_state s = m_str (put_map put_int (put_map put_ull put_ull) (lk_client_lock_id s)
      (put_map put_ull put_bool (lk_locks s)
        (put_map put_ull (put_vector put_string) (lk_lock_client_list s) marshall_new)))"
    by (simp add: marshal_state_def put_map_def Let_def)
  then show ?thesis
    using put_state [OF m_queues.codec_map] put_state [OF m_locks.codec_map]
      put_state [OF m_clients.codec_map]
    by (simp add: m_str_def enc_state_def)
qed

text \<open>The reading loops are those of \<^verbatim>\<open>std::map\<close>, on maps that are not empty.\<close>

lemma unmarshal_queues_entries:
  "unmarshal_queues n rep d = prod.swap (get_entries n get_ull (get_vector get_string) d rep)"
  by (induction n arbitrary: rep d) (auto simp: Let_def split: prod.splits)

lemma unmarshal_locks_entries:
  "unmarshal_locks n rep d = prod.swap (get_entries n get_ull get_bool d rep)"
  by (induction n arbitrary: rep d) (auto simp: Let_def split: prod.splits)

lemma unmarshal_xids_entries:
  "unmarshal_xids n clt rep d =
     (let (e, u) = get_entries n get_ull get_ull (smap_val [] clt d) rep
      in (u, if n = 0 then d else smap_set clt e d))"
  by (induction n arbitrary: rep d) (auto simp: Let_def split: prod.splits)

lemma map_of_fold_set:
  "distinct (map fst v) \<Longrightarrow> map_of (fold (\<lambda>(k, v). smap_set k v) v e) = map_of e ++ map_of v"
proof (induction v arbitrary: e)
  case (Cons x v)
  moreover obtain a b where x: "x = (a, b)" by (cases x)
  ultimately have "map_of v a = None" by (simp add: map_of_eq_None_iff)
  then show ?case using Cons x
    by (auto simp: fun_eq_iff map_add_def split: option.splits)
qed simp

lemma unmarshal_clients_enc:
  assumes "\<forall>(clt, v) \<in> set d. fits_int clt \<and> length v < 2 ^ 32 \<and> smap_ok v" "smap_ok d"
    and "length pre + length (concat (map (\<lambda>(k, v). enc_uint (word_of_int k) @ enc_map enc_ull enc_ull v) d))
      + length bs < 2 ^ 32"
  shows "\<exists>d'. unmarshal_clients (length d)
      (ustate pre (concat (map (\<lambda>(k, v). enc_uint (word_of_int k) @ enc_map enc_ull enc_ull v) d) @ bs)) d0
     = (ustate (pre @ map Some
          (concat (map (\<lambda>(k, v). enc_uint (word_of_int k) @ enc_map enc_ull enc_ull v) d))) bs, d')
     \<and> (\<forall>clt. map_of (smap_val [] clt d') = map_of (smap_val [] clt d0) ++ map_of (smap_val [] clt d))"
  using assms
proof (induction d arbitrary: d0 pre)
  case (Cons e d)
  obtain clt v where e: "e = (clt, v)" by (cases e)
  let ?enc = "\<lambda>d. concat (map (\<lambda>(k, v). enc_uint (word_of_int k) @ enc_map enc_ull enc_ull v) d)"
  let ?k = "enc_uint (word_of_int clt)" and ?n = "enc_uint (of_nat (length v))"
    and ?es = "concat (map (\<lambda>(k, v). enc_ull k @ enc_ull v) v)"
  let ?v' = "fold (\<lambda>(k, v). smap_set k v) v (smap_val [] clt d0)"
  let ?d1 = "if length v = 0 then d0 else smap_set clt ?v' d0"
  have f: "fits_int clt" "length v < 2 ^ 32" "smap_ok v" using Cons.prems e by auto
  have len: "length pre + (4 + (4 + length ?es)) + length (?enc d) + length bs < 2 ^ 32"
    using Cons.prems(3) e by (simp add: enc_map_def)
  have "get_int (ustate pre (?k @ ?n @ ?es @ ?enc d @ bs))
      = (clt, ustate (pre @ map Some ?k) (?n @ ?es @ ?enc d @ bs))"
    using f len by (intro c_int.get_enc) auto
  moreover have "get_uint (ustate (pre @ map Some ?k) (?n @ ?es @ ?enc d @ bs))
      = (of_nat (length v), ustate ((pre @ map Some ?k) @ map Some ?n) (?es @ ?enc d @ bs))"
    using len by (intro c_uint.get_enc) auto
  moreover have "get_entries (length v) get_ull get_ull (smap_val [] clt d0)
        (ustate ((pre @ map Some ?k) @ map Some ?n) (?es @ ?enc d @ bs))
      = (?v', ustate (((pre @ map Some ?k) @ map Some ?n) @ map Some ?es) (?enc d @ bs))"
    using len by (intro m_xids.get_entries_enc) auto
  moreover have "\<exists>d'. unmarshal_clients (length d)
        (ustate (((pre @ map Some ?k) @ map Some ?n) @ map Some ?es) (?enc d @ bs)) ?d1
      = (ustate ((((pre @ map Some ?k) @ map Some ?n) @ map Some ?es) @ map Some (?enc d)) bs, d')
      \<and> (\<forall>c. map_of (smap_val [] c d') = map_of (smap_val [] c ?d1) ++ map_of (smap_val [] c d))"
    using Cons.prems e len by (intro Cons.IH) auto
  moreover have "map_of (smap_val [] c ?d1) ++ map_of (smap_val [] c d)
      = map_of (smap_val [] c d0) ++ map_of (smap_val [] c (e # d))" for c
  proof (cases "c = clt")
    case True
    have "map_of d clt = None"
      using Cons.prems(2) e by (force simp: map_of_eq_None_iff)
    then show ?thesis
      using True e map_of_fold_set [OF smap_ok_distinct [OF f(3)], of "smap_val [] clt d0"]
      by (auto simp: smap_val_def)
  qed (use e in \<open>auto simp: smap_val_def\<close>)
  ultimately show ?case
    using f(2) e by (simp add: enc_map_def unmarshal_xids_entries unat_of_nat_u32)
qed (simp add: smap_val_def)

text \<open>The counts that are sent fit, because every entry takes at least one byte.\<close>

lemma length_concat_ge:
  "(\<And>x. x \<in> set xs \<Longrightarrow> f x \<noteq> []) \<Longrightarrow> length xs \<le> length (concat (map f xs))"
proof (induction xs)
  case (Cons x xs)
  then have "f x \<noteq> []" "length xs \<le> length (concat (map f xs))" by simp_all
  then show ?case by (cases "f x") simp_all
qed simp

lemma length_concat_mem: "x \<in> set xs \<Longrightarrow> length (f x) \<le> length (concat (map f xs))"
  by (induction xs) auto

lemma enc_uint_nonempty [simp]: "enc_uint x \<noteq> []"
  using length_enc_uint [of x] by (metis list.size(3) zero_neq_numeral)

lemma enc_ull_nonempty [simp]: "enc_ull x \<noteq> []"
  by (simp add: enc_ull_def)

lemma length_le_enc_vector: "length v \<le> length (enc_vector enc_string v)"
  using length_concat_ge [of v enc_string] by (simp add: enc_vector_def enc_string_def)

lemma length_le_enc_map: "(\<And>k. enck k \<noteq> []) \<Longrightarrow> length d \<le> length (enc_map enck encv d)"
  using length_concat_ge [of d "\<lambda>(k, v). enck k @ encv v"] by (fastforce simp: enc_map_def)

lemma enc_map_mem: "(k, v) \<in> set d \<Longrightarrow> length (encv v) \<le> length (enc_map enck encv d)"
  using length_concat_mem [of "(k, v)" d "\<lambda>(k, v). enck k @ encv v"] by (simp add: enc_map_def)

lemma read_count:
  assumes "length pre + length (enc_map enck encv d) + length bs < 2 ^ 32"
  shows "get_uint (ustate pre (enc_map enck encv d @ bs)) = (of_nat (length d),
     ustate (pre @ map Some (enc_uint (of_nat (length d)))) (concat (map (\<lambda>(k, v). enck k @ encv v) d) @ bs))"
  using assms c_uint.get_enc [of pre "of_nat (length d)" "concat (map (\<lambda>(k, v). enck k @ encv v) d) @ bs"]
  by (simp add: enc_map_def)

lemma unmarshal_state_enc:
  assumes "lock_inv s" "length (enc_state s) + RPC_HEADER_SZ < 2 ^ 32"
  shows "\<exists>ids. unmarshal_state (map char_of_byte (enc_state s)) t =
     t\<lparr>lk_lock_client_list := fold (\<lambda>(k, v). smap_set k v) (lk_lock_client_list s) (lk_lock_client_list t),
       lk_locks := fold (\<lambda>(k, v). smap_set k v) (lk_locks s) (lk_locks t), lk_client_lock_id := ids\<rparr>
     \<and> (\<forall>clt. map_of (smap_val [] clt ids) = map_of (smap_val [] clt (lk_client_lock_id t))
            ++ map_of (smap_val [] clt (lk_client_lock_id s)))"
proof -
  let ?A = "enc_map enc_ull (enc_vector enc_string) (lk_lock_client_list s)"
    and ?B = "enc_map enc_ull enc_bool (lk_locks s)"
    and ?C = "enc_map (\<lambda>x. enc_uint (word_of_int x)) (enc_map enc_ull enc_ull) (lk_client_lock_id s)"
    and ?h = "replicate RPC_HEADER_SZ None :: cell list"
  have len: "RPC_HEADER_SZ + (length ?A + (length ?B + length ?C)) < 2 ^ 32"
    using assms(2) by (simp add: enc_state_def)
  have n: "unat (of_nat (length (lk_lock_client_list s)) :: u32) = length (lk_lock_client_list s)"
    "unat (of_nat (length (lk_locks s)) :: u32) = length (lk_locks s)"
    "unat (of_nat (length (lk_client_lock_id s)) :: u32) = length (lk_client_lock_id s)"
    using len length_le_enc_map [of enc_ull "lk_lock_client_list s" "enc_vector enc_string"]
      length_le_enc_map [of enc_ull "lk_locks s" enc_bool]
      length_le_enc_map [of "\<lambda>x. enc_uint (word_of_int x)" "lk_client_lock_id s" "enc_map enc_ull enc_ull"]
    by (auto intro!: unat_of_nat_u32)
  have v: "\<forall>(k, v) \<in> set (lk_lock_client_list s). length v < 2 ^ 32"
    using len length_le_enc_vector enc_map_mem [of _ _ "lk_lock_client_list s" "enc_vector enc_string" enc_ull]
    by (fastforce intro: le_less_trans)
  have w: "\<forall>(k, v) \<in> set (lk_client_lock_id s). length v < 2 ^ 32"
    using len length_le_enc_map [of enc_ull _ enc_ull]
      enc_map_mem [of _ _ "lk_client_lock_id s" "enc_map enc_ull enc_ull" "\<lambda>x. enc_uint (word_of_int x)"]
    by (fastforce intro: le_less_trans)
  let ?a = "enc_uint (of_nat (length (lk_lock_client_list s)))" and ?b = "enc_uint (of_nat (length (lk_locks s)))"
    and ?c = "enc_uint (of_nat (length (lk_client_lock_id s)))"
    and ?A' = "concat (map (\<lambda>(k, v). enc_ull k @ enc_vector enc_string v) (lk_lock_client_list s))"
    and ?B' = "concat (map (\<lambda>(k, v). enc_ull k @ enc_bool v) (lk_locks s))"
    and ?C' = "concat (map (\<lambda>(k, v). enc_uint (word_of_int k) @ enc_map enc_ull enc_ull v) (lk_client_lock_id s))"
  have split: "?A = ?a @ ?A'" "?B = ?b @ ?B'" "?C = ?c @ ?C'" by (simp_all add: enc_map_def)
  have 1: "get_uint (ustate ?h (?A @ ?B @ ?C))
      = (of_nat (length (lk_lock_client_list s)), ustate (?h @ map Some ?a) (?A' @ ?B @ ?C))"
    using len by (intro read_count) simp
  have 2: "get_entries (length (lk_lock_client_list s)) get_ull (get_vector get_string)
        (lk_lock_client_list t) (ustate (?h @ map Some ?a) (?A' @ ?B @ ?C))
      = (fold (\<lambda>(k, v). smap_set k v) (lk_lock_client_list s) (lk_lock_client_list t),
         ustate ((?h @ map Some ?a) @ map Some ?A') (?B @ ?C))"
    using v len split(1) by (intro m_queues.get_entries_enc) (auto simp: list_all_iff)
  have 3: "get_uint (ustate ((?h @ map Some ?a) @ map Some ?A') (?B @ ?C))
      = (of_nat (length (lk_locks s)), ustate (((?h @ map Some ?a) @ map Some ?A') @ map Some ?b) (?B' @ ?C))"
    using len split(1) by (intro read_count) simp
  have 4: "get_entries (length (lk_locks s)) get_ull get_bool (lk_locks t)
        (ustate (((?h @ map Some ?a) @ map Some ?A') @ map Some ?b) (?B' @ ?C))
      = (fold (\<lambda>(k, v). smap_set k v) (lk_locks s) (lk_locks t),
         ustate ((((?h @ map Some ?a) @ map Some ?A') @ map Some ?b) @ map Some ?B') ?C)"
    using len split(1,2) by (intro m_locks.get_entries_enc) auto
  have 5: "get_uint (ustate ((((?h @ map Some ?a) @ map Some ?A') @ map Some ?b) @ map Some ?B') (?C @ []))
      = (of_nat (length (lk_client_lock_id s)),
         ustate (((((?h @ map Some ?a) @ map Some ?A') @ map Some ?b) @ map Some ?B') @ map Some ?c) (?C' @ []))"
    using len split(1,2) by (intro read_count) simp
  obtain ids where 6: "unmarshal_clients (length (lk_client_lock_id s))
        (ustate (((((?h @ map Some ?a) @ map Some ?A') @ map Some ?b) @ map Some ?B') @ map Some ?c) (?C' @ []))
        (lk_client_lock_id t)
      = (ustate ((((((?h @ map Some ?a) @ map Some ?A') @ map Some ?b) @ map Some ?B') @ map Some ?c)
           @ map Some ?C') [], ids)"
    "\<forall>clt. map_of (smap_val [] clt ids) = map_of (smap_val [] clt (lk_client_lock_id t))
        ++ map_of (smap_val [] clt (lk_client_lock_id s))"
    using unmarshal_clients_enc [of "lk_client_lock_id s"
        "((((?h @ map Some ?a) @ map Some ?A') @ map Some ?b) @ map Some ?B') @ map Some ?c" "[]"
        "lk_client_lock_id t"] w assms(1) len split
    by (fastforce simp: lock_inv_def xids_ok_def)
  have "take_content (map char_of_byte (enc_state s)) = ustate ?h (?A @ ?B @ ?C)"
    by (simp add: take_content_ustate enc_state_def comp_def)
  then have "unmarshal_state (map char_of_byte (enc_state s)) t =
     t\<lparr>lk_lock_client_list := fold (\<lambda>(k, v). smap_set k v) (lk_lock_client_list s) (lk_lock_client_list t),
       lk_locks := fold (\<lambda>(k, v). smap_set k v) (lk_locks s) (lk_locks t), lk_client_lock_id := ids\<rparr>"
    using 1 2 3 4 5 6(1)
    by (simp add: unmarshal_state_def unmarshal_queues_entries unmarshal_locks_entries n)
  with 6(2) show ?thesis by blast
qed

text \<open>(C11) State transfer: after a replica has unmarshalled the state of a reachable lock server,
  every queue, lock flag and sequence number the sender knows about is the sender's; what only the
  receiver knows about is kept, since \<^verbatim>\<open>unmarshal_state\<close> does not clear the maps. A new
  replica thereby becomes a copy of the sender.\<close>

theorem state_transfer:
  assumes "lock_reachable s" "length (marshal_state s) + RPC_HEADER_SZ < 2 ^ 32"
    and "t' = unmarshal_state (marshal_state s) t"
  shows "map_of (lk_lock_client_list t') = map_of (lk_lock_client_list t) ++ map_of (lk_lock_client_list s)
    \<and> map_of (lk_locks t') = map_of (lk_locks t) ++ map_of (lk_locks s)
    \<and> (\<forall>clt. map_of (smap_val [] clt (lk_client_lock_id t'))
      = map_of (smap_val [] clt (lk_client_lock_id t)) ++ map_of (smap_val [] clt (lk_client_lock_id s)))"
proof -
  have inv: "lock_inv s" using assms(1) by (rule lock_reachable_inv)
  then have "distinct (map fst (lk_lock_client_list s))" "distinct (map fst (lk_locks s))"
    by (simp_all add: lock_inv_def smap_ok_distinct)
  then show ?thesis
    using unmarshal_state_enc [OF inv, of t] assms(2,3)
    by (auto simp: marshal_state_enc map_of_fold_set)
qed

theorem state_transfer_witness:
  "map_of (lk_lock_client_list (unmarshal_state (marshal_state sample_queue) lock_server_new)) 7
     = Some [''a'', ''b'']"
proof -
  have "lk_lock_client_list sample_queue = [(7, [''a'', ''b''])]" "lk_locks sample_queue = [(7, True)]"
    "lk_client_lock_id sample_queue = [(1, [(7, 0)]), (2, [(7, 0)])]"
    by code_simp+
  then have "length (marshal_state sample_queue) + RPC_HEADER_SZ < 2 ^ 32"
    by (simp add: marshal_state_enc enc_state_def enc_map_def enc_vector_def enc_string_def enc_bool_def
        RPC_HEADER_SZ_def)
  from state_transfer [OF sample_queue_reachable this refl, of lock_server_new]
  have "map_of (lk_lock_client_list (unmarshal_state (marshal_state sample_queue) lock_server_new))
      = map_of (lk_lock_client_list sample_queue)"
    by (simp add: lock_server_new_def)
  moreover have "map_of (lk_lock_client_list sample_queue) 7 = Some [''a'', ''b'']" by code_simp
  ultimately show ?thesis by simp
qed

end
