(* ===== verification/Lock_Client.thy ===== *)
theory Lock_Client
  imports Lock_Server_Rsm "HOL-Library.Countable"
begin

text \<open>
  The caching lock clients \<^verbatim>\<open>lock_client_cache_rsm\<close> and \<^verbatim>\<open>lock_client_cache\<close>. All the state is
  guarded by one mutex; a method is cut where it waits on a condition or gives the mutex up for a
  call, and each piece is one definition. The result of a piece says how the thread goes on. The
  second half composes any number of clients and threads with the replicated lock server.
\<close>

subsection \<open>State\<close>

datatype lstatus = L_NONE | L_FREE | L_LOCKED | L_ACQUIRING | L_RELEASING | L_RETRY

record lock_cache =
  lc_status :: "(u64, lstatus) smap"
  lc_xid :: u64
  lc_revoke_cond :: bool

definition lock_cache_new :: lock_cache where
  "lock_cache_new = \<lparr>lc_status = [], lc_xid = 0, lc_revoke_cond = False\<rparr>"

definition lstatus_of :: "u64 \<Rightarrow> lock_cache \<Rightarrow> lstatus" where
  "lstatus_of lid c = smap_val L_NONE lid (lc_status c)"

definition set_lstatus :: "u64 \<Rightarrow> lstatus \<Rightarrow> lock_cache \<Rightarrow> lock_cache" where
  "set_lstatus lid st c = c\<lparr>lc_status := smap_set lid st (lc_status c)\<rparr>"

text \<open>How a thread goes on: it waits for a condition, it makes a call with a sequence number, or it has
  the lock.\<close>

datatype go = Go_wait | Go_call u64 | Go_granted

subsection \<open>The client of the replicated lock service\<close>

text \<open>\<^verbatim>\<open>acquire\<close> up to its wait or its call; it starts again here when the condition is signalled.\<close>

definition acquire_try :: "u64 \<Rightarrow> lock_cache \<Rightarrow> go \<times> lock_cache" where
  "acquire_try lid c =
     (let c = (if smap_has lid (lc_status c) then c else set_lstatus lid L_NONE c)
      in if lstatus_of lid c \<noteq> L_FREE \<and> lstatus_of lid c \<noteq> L_NONE then (Go_wait, c)
         else if lstatus_of lid c = L_NONE
           then let c = (set_lstatus lid L_ACQUIRING c)\<lparr>lc_xid := lc_xid c + 1\<rparr> in (Go_call (lc_xid c), c)
         else (Go_granted, set_lstatus lid L_LOCKED c))"

text \<open>The answer of the server\<close>

definition acquire_reply :: "u64 \<Rightarrow> int \<Rightarrow> lock_cache \<Rightarrow> (go \<times> lock_cache) res" where
  "acquire_reply lid ret c =
     (if ret = lock_RETRY then Inr (Go_wait, c)
      else if ret \<noteq> lock_OK then Inl Verify_failed
      else Inr (Go_granted, set_lstatus lid L_LOCKED c))"

text \<open>The inner loop: wait for the status RETRY, then call again.\<close>

definition acquire_again :: "u64 \<Rightarrow> lock_cache \<Rightarrow> go \<times> lock_cache" where
  "acquire_again lid c =
     (if lstatus_of lid c \<noteq> L_RETRY then (Go_wait, c)
      else let c = c\<lparr>lc_xid := lc_xid c + 1\<rparr> in (Go_call (lc_xid c), c))"

definition client_release :: "u64 \<Rightarrow> lock_cache \<Rightarrow> int \<times> lock_cache" where
  "client_release lid c = (lock_OK, set_lstatus lid L_FREE c)"

definition revoke_handler :: "u64 \<Rightarrow> lock_cache \<Rightarrow> int \<times> lock_cache" where
  "revoke_handler lid c = (0, c\<lparr>lc_revoke_cond := True\<rparr>)"

definition retry_handler :: "u64 \<Rightarrow> lock_cache \<Rightarrow> int \<times> lock_cache" where
  "retry_handler lid c = (0, set_lstatus lid L_RETRY c)"

text \<open>The releaser thread visits the locks in the order of the map: it waits for a lock that is in use,
  gives a free one back, and goes on to the next.\<close>

definition releaser_visit :: "u64 \<Rightarrow> lock_cache \<Rightarrow> go \<times> lock_cache" where
  "releaser_visit lid c =
     (if lstatus_of lid c \<noteq> L_FREE \<and> lstatus_of lid c \<noteq> L_NONE then (Go_wait, c)
      else if lstatus_of lid c = L_FREE
        then let c = (set_lstatus lid L_RELEASING c)\<lparr>lc_xid := lc_xid c + 1\<rparr> in (Go_call (lc_xid c), c)
      else (Go_granted, c))"

definition releaser_reply :: "u64 \<Rightarrow> int \<Rightarrow> lock_cache \<Rightarrow> lock_cache res" where
  "releaser_reply lid ret c = (if ret \<noteq> lock_OK then Inl Verify_failed else Inr (set_lstatus lid L_NONE c))"

definition releaser_next :: "u64 option \<Rightarrow> lock_cache \<Rightarrow> u64 option" where
  "releaser_next pos c = (case filter (\<lambda>lid. case pos of None \<Rightarrow> True | Some l \<Rightarrow> l < lid) (map fst (lc_status c)) of
     [] \<Rightarrow> None | lid # _ \<Rightarrow> Some lid)"

lemma lstatus_of_set [simp]: "lstatus_of l (set_lstatus lid st c) = (if l = lid then st else lstatus_of l c)"
  by (simp add: lstatus_of_def set_lstatus_def)

lemma lstatus_of_upd [simp]: "lstatus_of l (c\<lparr>lc_xid := x\<rparr>) = lstatus_of l c"
  "lstatus_of l (c\<lparr>lc_revoke_cond := b\<rparr>) = lstatus_of l c"
  by (simp_all add: lstatus_of_def)

lemma lc_xid_set [simp]: "lc_xid (set_lstatus lid st c) = lc_xid c"
  by (simp add: set_lstatus_def)

lemma lstatus_of_missing: "\<not> smap_has lid (lc_status c) \<Longrightarrow> lstatus_of lid c = L_NONE"
  by (simp add: lstatus_of_def smap_has_def smap_val_def split: option.splits)

subsection \<open>The client without replication\<close>

text \<open>Here \<^verbatim>\<open>acquire\<close> makes its second call with the mutex held and no third one; \<^verbatim>\<open>lu->dorelease\<close> is
  empty. The handler of revoke keeps the mutex locked when it finds no lock (\<open>Undefined_behaviour\<close>
  stands for the client that is stuck from then on).\<close>

definition cache_acquire_try :: "u64 \<Rightarrow> lock_cache \<Rightarrow> go \<times> lock_cache" where
  "cache_acquire_try lid c =
     (let c = (if smap_has lid (lc_status c) then c else set_lstatus lid L_NONE c)
      in if lstatus_of lid c \<noteq> L_FREE \<and> lstatus_of lid c \<noteq> L_NONE then (Go_wait, c)
         else if lstatus_of lid c = L_NONE then (Go_call 0, set_lstatus lid L_ACQUIRING c)
         else (Go_granted, set_lstatus lid L_LOCKED c))"

definition cache_acquire_reply :: "u64 \<Rightarrow> int \<Rightarrow> int \<Rightarrow> lock_cache \<Rightarrow> (go \<times> lock_cache) res" where
  "cache_acquire_reply lid ret ret2 c =
     (if ret = lock_RETRY \<and> lstatus_of lid c \<noteq> L_RETRY then Inr (Go_wait, c)
      else if (if ret = lock_RETRY then ret2 else ret) \<noteq> lock_OK then Inl Verify_failed
      else Inr (Go_granted, set_lstatus lid L_LOCKED c))"

definition cache_release :: "u64 \<Rightarrow> lock_cache \<Rightarrow> int \<times> lock_cache" where
  "cache_release lid c = (lock_OK, set_lstatus lid L_FREE c)"

definition cache_revoke_enter :: "u64 \<Rightarrow> lock_cache \<Rightarrow> (go \<times> lock_cache) res" where
  "cache_revoke_enter lid c =
     (if lstatus_of lid c \<noteq> L_FREE \<and> lstatus_of lid c \<noteq> L_NONE then Inr (Go_wait, c)
      else if lstatus_of lid c = L_FREE then Inr (Go_granted, set_lstatus lid L_RELEASING c)
      else Inl Undefined_behaviour)"

definition cache_revoke_end :: "u64 \<Rightarrow> lock_cache \<Rightarrow> int \<times> lock_cache" where
  "cache_revoke_end lid c = (0, set_lstatus lid L_NONE c)"

definition cache_retry_handler :: "u64 \<Rightarrow> lock_cache \<Rightarrow> int \<times> lock_cache" where
  "cache_retry_handler lid c = (0, set_lstatus lid L_RETRY c)"

subsection \<open>Clients, threads and the server\<close>

text \<open>Where a thread is. A thread that plays the releaser has its own places; the model lets every idle
  thread play it.\<close>

datatype pc = Idle | Want u64 | Calling u64 u64 | Answered u64 int | Retrying u64 | Holds u64
  | Rel_calling u64 u64 | Rel_answered u64 int

record node =
  nd_clt :: int
  nd_c :: lock_cache
  nd_pc :: "nat \<Rightarrow> pc"

definition put_node :: "string \<Rightarrow> nat \<Rightarrow> pc \<Rightarrow> lock_cache \<Rightarrow> (string \<Rightarrow> node) \<Rightarrow> string \<Rightarrow> node" where
  "put_node d t p c N = N(d := (N d)\<lparr>nd_c := c, nd_pc := (nd_pc (N d))(t := p)\<rparr>)"

text \<open>A call of the replicated service is executed once, at some moment between its start and its
  answer. Sequence numbers do not wrap around.\<close>

inductive lock_system :: "lock_server \<Rightarrow> (string \<Rightarrow> node) \<Rightarrow> bool" where
  init: "inj (\<lambda>d. nd_clt (N d)) \<Longrightarrow> (\<And>d. nd_c (N d) = lock_cache_new) \<Longrightarrow> (\<And>d t. nd_pc (N d) t = Idle)
    \<Longrightarrow> lock_system lock_server_new N"
| want: "lock_system s N \<Longrightarrow> nd_pc (N d) t = Idle \<Longrightarrow> lock_system s (put_node d t (Want lid) (nd_c (N d)) N)"
| attempt: "lock_system s N \<Longrightarrow> nd_pc (N d) t = Want lid \<Longrightarrow> lc_xid (nd_c (N d)) \<noteq> - 1
    \<Longrightarrow> acquire_try lid (nd_c (N d)) = (g, c)
    \<Longrightarrow> lock_system s (put_node d t (case g of Go_wait \<Rightarrow> Want lid | Go_call x \<Rightarrow> Calling lid x | Go_granted \<Rightarrow> Holds lid) c N)"
| serve: "lock_system s N \<Longrightarrow> nd_pc (N d) t = Calling lid x
    \<Longrightarrow> acquire r (nd_clt (N d)) lid d x s = (ret, r', s')
    \<Longrightarrow> lock_system s' (put_node d t (Answered lid ret) (nd_c (N d)) N)"
| reply: "lock_system s N \<Longrightarrow> nd_pc (N d) t = Answered lid ret \<Longrightarrow> acquire_reply lid ret (nd_c (N d)) = Inr (g, c)
    \<Longrightarrow> lock_system s (put_node d t (if g = Go_wait then Retrying lid else Holds lid) c N)"
| again: "lock_system s N \<Longrightarrow> nd_pc (N d) t = Retrying lid \<Longrightarrow> lc_xid (nd_c (N d)) \<noteq> - 1
    \<Longrightarrow> acquire_again lid (nd_c (N d)) = (g, c)
    \<Longrightarrow> lock_system s (put_node d t (case g of Go_call x \<Rightarrow> Calling lid x | _ \<Rightarrow> Retrying lid) c N)"
| release: "lock_system s N \<Longrightarrow> nd_pc (N d) t = Holds lid
    \<Longrightarrow> lock_system s (put_node d t Idle (snd (client_release lid (nd_c (N d)))) N)"
| retry: "lock_system s N \<Longrightarrow> lock_system s (put_node d t (nd_pc (N d) t) (snd (retry_handler lid (nd_c (N d)))) N)"
| revoke: "lock_system s N \<Longrightarrow> lock_system s (put_node d t (nd_pc (N d) t) (snd (revoke_handler lid (nd_c (N d)))) N)"
| visit: "lock_system s N \<Longrightarrow> nd_pc (N d) t = Idle \<Longrightarrow> lc_xid (nd_c (N d)) \<noteq> - 1
    \<Longrightarrow> releaser_visit lid (nd_c (N d)) = (g, c)
    \<Longrightarrow> lock_system s (put_node d t (case g of Go_call x \<Rightarrow> Rel_calling lid x | _ \<Rightarrow> Idle) c N)"
| serve_release: "lock_system s N \<Longrightarrow> nd_pc (N d) t = Rel_calling lid x
    \<Longrightarrow> release r (nd_clt (N d)) lid d x s = (ret, r', s')
    \<Longrightarrow> lock_system s' (put_node d t (Rel_answered lid ret) (nd_c (N d)) N)"
| released: "lock_system s N \<Longrightarrow> nd_pc (N d) t = Rel_answered lid ret \<Longrightarrow> releaser_reply lid ret (nd_c (N d)) = Inr c
    \<Longrightarrow> lock_system s (put_node d t Idle c N)"
| revoker: "lock_system s N \<Longrightarrow> revoker_pass p call s = Inr (sent, s') \<Longrightarrow> lock_system s' N"
| retryer: "lock_system s N \<Longrightarrow> retryer_pass p call s = Inr (sent, s') \<Longrightarrow> lock_system s' N"

subsection \<open>Invariant\<close>

text \<open>A thread is busy with a lock from its call to its release; it owns the lock when the server has
  given it the lock and has not got it back.\<close>

fun busy :: "u64 \<Rightarrow> pc \<Rightarrow> bool" where
  "busy l Idle = False"
| "busy l (Want lid) = False"
| "busy l (Calling lid x) = (l = lid)"
| "busy l (Answered lid ret) = (l = lid)"
| "busy l (Retrying lid) = (l = lid)"
| "busy l (Holds lid) = (l = lid)"
| "busy l (Rel_calling lid x) = (l = lid)"
| "busy l (Rel_answered lid ret) = (l = lid)"

fun owns :: "u64 \<Rightarrow> pc \<Rightarrow> bool" where
  "owns l (Answered lid ret) \<longleftrightarrow> l = lid \<and> ret = lock_OK"
| "owns l (Holds lid) \<longleftrightarrow> l = lid"
| "owns l (Rel_calling lid x) \<longleftrightarrow> l = lid"
| "owns l _ \<longleftrightarrow> False"

fun pending :: "u64 \<Rightarrow> pc \<Rightarrow> u64 option" where
  "pending l (Calling lid x) = (if l = lid then Some x else None)"
| "pending l (Rel_calling lid x) = (if l = lid then Some x else None)"
| "pending l _ = None"

definition usable :: "lstatus \<Rightarrow> bool" where
  "usable st \<longleftrightarrow> st = L_FREE \<or> st = L_NONE"

text \<open>For one lock and one client; \<open>q\<close> is the queue of the lock, \<open>x0\<close> the number of the last release.\<close>

definition node_inv :: "u64 \<Rightarrow> string \<Rightarrow> string list \<Rightarrow> u64 \<Rightarrow> node \<Rightarrow> bool" where
  "node_inv lid d q x0 n \<longleftrightarrow>
     (\<forall>t t'. busy lid (nd_pc n t) \<and> busy lid (nd_pc n t') \<longrightarrow> t = t') \<and>
     (\<forall>t. busy lid (nd_pc n t) \<longrightarrow> \<not> usable (lstatus_of lid (nd_c n))) \<and>
     (\<forall>t. owns lid (nd_pc n t) \<longrightarrow> q \<noteq> [] \<and> hd q = d) \<and>
     (lstatus_of lid (nd_c n) = L_FREE \<longrightarrow> q \<noteq> [] \<and> hd q = d) \<and>
     x0 \<le> lc_xid (nd_c n) \<and>
     (\<forall>t x. pending lid (nd_pc n t) = Some x \<longrightarrow> x0 < x \<and> x \<le> lc_xid (nd_c n))"

lemma owns_busy: "owns l p \<Longrightarrow> busy l p"
  by (cases p) auto

lemma pending_busy: "pending l p = Some x \<Longrightarrow> busy l p"
  by (cases p) (auto split: if_splits)

lemma xid_less:
  fixes x :: u64
  assumes "x \<noteq> - 1"
  shows "x < x + 1"
proof -
  have "(- 1 :: u64) = 0xFFFFFFFFFFFFFFFF" "unat (0xFFFFFFFFFFFFFFFF :: u64) = 2 ^ 64 - 1" by simp_all
  then have "unat x \<noteq> 2 ^ 64 - 1" using assms by (metis word_unat_eq_iff)
  moreover have "unat x < 2 ^ LENGTH(64)" by (rule unsigned_less)
  ultimately have "unat x + 1 < 2 ^ 64" by simp
  then have "unat (x + 1) = unat x + 1" by (simp add: unat_word_ariths)
  then show ?thesis by (simp add: word_less_nat_alt)
qed

subsubsection \<open>Steps of one thread\<close>

lemma node_inv_busy: "node_inv lid d q x0 n \<Longrightarrow> busy lid (nd_pc n t) \<Longrightarrow> \<not> usable (lstatus_of lid (nd_c n))"
  unfolding node_inv_def by blast

lemma node_inv_pending:
  "node_inv lid d q x0 n \<Longrightarrow> pending lid (nd_pc n t) = Some x \<Longrightarrow> x0 < x \<and> x \<le> lc_xid (nd_c n)"
  unfolding node_inv_def by blast

lemma node_inv_owns: "node_inv lid d q x0 n \<Longrightarrow> owns lid (nd_pc n t) \<Longrightarrow> q \<noteq> [] \<and> hd q = d"
  unfolding node_inv_def by blast

text \<open>For a lock that the step does not touch\<close>

lemma node_inv_other:
  assumes "node_inv lid d q x0 n" "\<not> busy lid p" "lstatus_of lid c = lstatus_of lid (nd_c n)"
    "lc_xid (nd_c n) \<le> lc_xid c"
  shows "node_inv lid d q x0 (n\<lparr>nd_c := c, nd_pc := (nd_pc n)(t := p)\<rparr>)"
  using assms order_trans [OF _ assms(4)]
  by (auto simp: node_inv_def dest: owns_busy pending_busy)

text \<open>A thread starts to be busy with the lock.\<close>

lemma node_inv_claim:
  assumes "node_inv lid d q x0 n" "usable (lstatus_of lid (nd_c n))" "\<not> usable (lstatus_of lid c)"
    "owns lid p \<longrightarrow> lstatus_of lid (nd_c n) = L_FREE" "lc_xid (nd_c n) \<le> lc_xid c"
    "\<forall>x. pending lid p = Some x \<longrightarrow> lc_xid (nd_c n) < x \<and> x \<le> lc_xid c"
  shows "node_inv lid d q x0 (n\<lparr>nd_c := c, nd_pc := (nd_pc n)(t := p)\<rparr>)"
proof -
  have "\<not> busy lid (nd_pc n t')" for t' using assms(1,2) by (auto simp: node_inv_def)
  then have "\<not> owns lid (nd_pc n t')" "pending lid (nd_pc n t') = None" for t'
    using owns_busy pending_busy by (blast, metis not_None_eq)
  then show ?thesis
    using assms \<open>\<And>t'. \<not> busy lid (nd_pc n t')\<close> order_trans [OF _ assms(5)]
    by (auto simp: node_inv_def usable_def intro: le_less_trans)
qed

text \<open>The busy thread goes on.\<close>

lemma node_inv_stay:
  assumes "node_inv lid d q x0 n" "busy lid (nd_pc n t)" "\<not> usable (lstatus_of lid c)"
    "owns lid p \<longrightarrow> owns lid (nd_pc n t) \<or> q \<noteq> [] \<and> hd q = d" "lc_xid (nd_c n) \<le> lc_xid c"
    "\<forall>x. pending lid p = Some x \<longrightarrow> lc_xid (nd_c n) < x \<and> x \<le> lc_xid c"
  shows "node_inv lid d q x0 (n\<lparr>nd_c := c, nd_pc := (nd_pc n)(t := p)\<rparr>)"
proof -
  have "\<not> busy lid (nd_pc n t')" if "t' \<noteq> t" for t' using assms(1,2) that by (auto simp: node_inv_def)
  then have "\<not> owns lid (nd_pc n t')" "pending lid (nd_pc n t') = None" if "t' \<noteq> t" for t'
    using owns_busy pending_busy that by (blast, metis not_None_eq)
  then show ?thesis
    using assms \<open>\<And>t'. t' \<noteq> t \<Longrightarrow> \<not> busy lid (nd_pc n t')\<close> order_trans [OF _ assms(5)]
    by (auto simp: node_inv_def usable_def intro: le_less_trans)
qed

text \<open>The busy thread is done with the lock.\<close>

lemma node_inv_leave:
  assumes "node_inv lid d q x0 n" "busy lid (nd_pc n t)" "\<not> busy lid p"
    "lstatus_of lid c = L_FREE \<longrightarrow> owns lid (nd_pc n t)" "lc_xid c = lc_xid (nd_c n)"
  shows "node_inv lid d q x0 (n\<lparr>nd_c := c, nd_pc := (nd_pc n)(t := p)\<rparr>)"
proof -
  have "\<not> busy lid (nd_pc n t')" if "t' \<noteq> t" for t' using assms(1,2) that by (auto simp: node_inv_def)
  then have "\<not> owns lid (nd_pc n t')" "pending lid (nd_pc n t') = None" if "t' \<noteq> t" for t'
    using owns_busy pending_busy that by (blast, metis not_None_eq)
  moreover have "\<not> owns lid p" "pending lid p = None" using assms(3) owns_busy pending_busy by (blast, metis not_None_eq)
  ultimately show ?thesis
    using assms \<open>\<And>t'. t' \<noteq> t \<Longrightarrow> \<not> busy lid (nd_pc n t')\<close> by (auto simp: node_inv_def)
qed

text \<open>The status becomes RETRY, or nothing changes but waiting.\<close>

lemma node_inv_status:
  assumes "node_inv lid d q x0 n" "lstatus_of lid c = L_RETRY \<or> lstatus_of lid c = lstatus_of lid (nd_c n)"
    "lc_xid c = lc_xid (nd_c n)"
  shows "node_inv lid d q x0 (n\<lparr>nd_c := c\<rparr>)"
  using assms by (auto simp: node_inv_def usable_def)

text \<open>The queue moves on, but not away from a client at its front.\<close>

lemma node_inv_queue:
  assumes "node_inv lid d q x0 n" "q \<noteq> [] \<and> hd q = d \<longrightarrow> q' \<noteq> [] \<and> hd q' = d"
  shows "node_inv lid d q' x0 n"
  using assms by (auto simp: node_inv_def)

subsubsection \<open>All steps\<close>

definition lock_sys_inv :: "lock_server \<Rightarrow> (string \<Rightarrow> node) \<Rightarrow> bool" where
  "lock_sys_inv s N \<longleftrightarrow> inj (\<lambda>d. nd_clt (N d)) \<and>
     (\<forall>d lid. node_inv lid d (queue lid s) (lock_xid (nd_clt (N d)) lid s) (N d))"

lemma nd_clt_put [simp]: "nd_clt (put_node d t p c N d') = nd_clt (N d')"
  by (simp add: put_node_def)

text \<open>A step at one node that leaves the server alone\<close>

lemma sys_inv_node:
  assumes "lock_sys_inv s N"
    and "\<And>lid. node_inv lid d (queue lid s) (lock_xid (nd_clt (N d)) lid s)
        ((N d)\<lparr>nd_c := c, nd_pc := (nd_pc (N d))(t := p)\<rparr>)"
  shows "lock_sys_inv s (put_node d t p c N)"
  using assms by (simp add: lock_sys_inv_def) (simp add: put_node_def)

lemma sys_inv_at: "lock_sys_inv s N \<Longrightarrow> node_inv lid d (queue lid s) (lock_xid (nd_clt (N d)) lid s) (N d)"
  by (simp add: lock_sys_inv_def)

lemma inv_attempt:
  assumes "lock_sys_inv s N" "nd_pc (N d) t = Want l" "lc_xid (nd_c (N d)) \<noteq> - 1" "acquire_try l (nd_c (N d)) = (g, c)"
  shows "lock_sys_inv s (put_node d t (case g of Go_wait \<Rightarrow> Want l | Go_call x \<Rightarrow> Calling l x | Go_granted \<Rightarrow> Holds l) c N)"
proof (rule sys_inv_node [OF assms(1)])
  fix lid
  note inv = sys_inv_at [OF assms(1), of lid d]
  have le: "lc_xid (nd_c (N d)) \<le> lc_xid (nd_c (N d)) + 1" using xid_less [OF assms(3)] by simp
  show "node_inv lid d (queue lid s) (lock_xid (nd_clt (N d)) lid s) ((N d)\<lparr>nd_c := c, nd_pc := (nd_pc (N d))
      (t := case g of Go_wait \<Rightarrow> Want l | Go_call x \<Rightarrow> Calling l x | Go_granted \<Rightarrow> Holds l)\<rparr>)"
  proof (cases "lid = l \<and> g \<noteq> Go_wait")
    case True
    then show ?thesis
      using assms(3,4) le by (intro node_inv_claim [OF inv])
        (auto simp: acquire_try_def usable_def Let_def xid_less lstatus_of_missing split: if_splits go.splits)
  next
    case False
    then show ?thesis
      using assms(4) le by (intro node_inv_other [OF inv])
        (auto simp: acquire_try_def Let_def lstatus_of_missing split: if_splits go.splits)
  qed
qed

lemma inv_reply:
  assumes "lock_sys_inv s N" "nd_pc (N d) t = Answered l ret" "acquire_reply l ret (nd_c (N d)) = Inr (g, c)"
  shows "lock_sys_inv s (put_node d t (if g = Go_wait then Retrying l else Holds l) c N)"
proof (rule sys_inv_node [OF assms(1)])
  fix lid
  note inv = sys_inv_at [OF assms(1), of lid d]
  show "node_inv lid d (queue lid s) (lock_xid (nd_clt (N d)) lid s) ((N d)\<lparr>nd_c := c, nd_pc := (nd_pc (N d))
      (t := if g = Go_wait then Retrying l else Holds l)\<rparr>)"
  proof (cases "lid = l")
    case True
    have "\<not> usable (lstatus_of l (nd_c (N d)))" using node_inv_busy [OF inv, of t] assms(2) True by simp
    then show ?thesis
      using assms(2,3) True by (intro node_inv_stay [OF inv])
        (auto simp: acquire_reply_def usable_def split: if_splits)
  next
    case False
    then show ?thesis
      using assms(3) by (intro node_inv_other [OF inv]) (auto simp: acquire_reply_def split: if_splits)
  qed
qed

lemma inv_again:
  assumes "lock_sys_inv s N" "nd_pc (N d) t = Retrying l" "lc_xid (nd_c (N d)) \<noteq> - 1" "acquire_again l (nd_c (N d)) = (g, c)"
  shows "lock_sys_inv s (put_node d t (case g of Go_call x \<Rightarrow> Calling l x | _ \<Rightarrow> Retrying l) c N)"
proof (rule sys_inv_node [OF assms(1)])
  fix lid
  note inv = sys_inv_at [OF assms(1), of lid d]
  have le: "lc_xid (nd_c (N d)) \<le> lc_xid (nd_c (N d)) + 1" using xid_less [OF assms(3)] by simp
  show "node_inv lid d (queue lid s) (lock_xid (nd_clt (N d)) lid s) ((N d)\<lparr>nd_c := c, nd_pc := (nd_pc (N d))
      (t := case g of Go_call x \<Rightarrow> Calling l x | _ \<Rightarrow> Retrying l)\<rparr>)"
  proof (cases "lid = l")
    case True
    have "\<not> usable (lstatus_of l (nd_c (N d)))" using node_inv_busy [OF inv, of t] assms(2) True by simp
    then show ?thesis
      using assms(2-4) True le by (intro node_inv_stay [OF inv])
        (auto simp: acquire_again_def Let_def xid_less split: if_splits)
  next
    case False
    then show ?thesis
      using assms(4) le by (intro node_inv_other [OF inv]) (auto simp: acquire_again_def Let_def split: if_splits)
  qed
qed

lemma inv_release:
  assumes "lock_sys_inv s N" "nd_pc (N d) t = Holds l"
  shows "lock_sys_inv s (put_node d t Idle (snd (client_release l (nd_c (N d)))) N)"
proof (rule sys_inv_node [OF assms(1)])
  fix lid
  note inv = sys_inv_at [OF assms(1), of lid d]
  show "node_inv lid d (queue lid s) (lock_xid (nd_clt (N d)) lid s)
      ((N d)\<lparr>nd_c := snd (client_release l (nd_c (N d))), nd_pc := (nd_pc (N d))(t := Idle)\<rparr>)"
  proof (cases "lid = l")
    case True
    then show ?thesis using assms(2) by (intro node_inv_leave [OF inv]) (auto simp: client_release_def)
  next
    case False
    then show ?thesis by (intro node_inv_other [OF inv]) (auto simp: client_release_def)
  qed
qed

lemma inv_visit:
  assumes "lock_sys_inv s N" "nd_pc (N d) t = Idle" "lc_xid (nd_c (N d)) \<noteq> - 1" "releaser_visit l (nd_c (N d)) = (g, c)"
  shows "lock_sys_inv s (put_node d t (case g of Go_call x \<Rightarrow> Rel_calling l x | _ \<Rightarrow> Idle) c N)"
proof (rule sys_inv_node [OF assms(1)])
  fix lid
  note inv = sys_inv_at [OF assms(1), of lid d]
  have le: "lc_xid (nd_c (N d)) \<le> lc_xid (nd_c (N d)) + 1" using xid_less [OF assms(3)] by simp
  show "node_inv lid d (queue lid s) (lock_xid (nd_clt (N d)) lid s) ((N d)\<lparr>nd_c := c, nd_pc := (nd_pc (N d))
      (t := case g of Go_call x \<Rightarrow> Rel_calling l x | _ \<Rightarrow> Idle)\<rparr>)"
  proof (cases "lid = l \<and> (\<exists>x. g = Go_call x)")
    case True
    then show ?thesis
      using assms(3,4) le by (intro node_inv_claim [OF inv])
        (auto simp: releaser_visit_def usable_def Let_def xid_less split: if_splits)
  next
    case False
    then show ?thesis
      using assms(4) le by (intro node_inv_other [OF inv])
        (auto simp: releaser_visit_def Let_def split: if_splits go.splits)
  qed
qed

lemma inv_released:
  assumes "lock_sys_inv s N" "nd_pc (N d) t = Rel_answered l ret" "releaser_reply l ret (nd_c (N d)) = Inr c"
  shows "lock_sys_inv s (put_node d t Idle c N)"
proof (rule sys_inv_node [OF assms(1)])
  fix lid
  note inv = sys_inv_at [OF assms(1), of lid d]
  show "node_inv lid d (queue lid s) (lock_xid (nd_clt (N d)) lid s) ((N d)\<lparr>nd_c := c, nd_pc := (nd_pc (N d))(t := Idle)\<rparr>)"
  proof (cases "lid = l")
    case True
    then show ?thesis
      using assms(2,3) by (intro node_inv_leave [OF inv]) (auto simp: releaser_reply_def split: if_splits)
  next
    case False
    then show ?thesis
      using assms(3) by (intro node_inv_other [OF inv]) (auto simp: releaser_reply_def split: if_splits)
  qed
qed

text \<open>A request of client \<open>d\<close> at the server, seen by the others\<close>

lemma inv_others:
  assumes "lock_sys_inv s N" "d' \<noteq> d"
    and "\<And>lid. queue lid s \<noteq> [] \<and> hd (queue lid s) = d' \<Longrightarrow> queue lid s' \<noteq> [] \<and> hd (queue lid s') = d'"
    and "\<And>c lid. c \<noteq> nd_clt (N d) \<Longrightarrow> lock_xid c lid s' = lock_xid c lid s"
  shows "node_inv lid d' (queue lid s') (lock_xid (nd_clt (N d')) lid s') (put_node d t p c N d')"
proof -
  have "nd_clt (N d') \<noteq> nd_clt (N d)" using assms(1,2) by (auto simp: lock_sys_inv_def inj_def)
  then show ?thesis
    using node_inv_queue [OF sys_inv_at [OF assms(1)] impI [OF assms(3)]] assms(2,4) by (simp add: put_node_def)
qed

lemma inv_serve:
  assumes "lock_sys_inv s N" "nd_pc (N d) t = Calling l x" "acquire r (nd_clt (N d)) l d x s = (ret, r', s')"
  shows "lock_sys_inv s' (put_node d t (Answered l ret) (nd_c (N d)) N)"
proof -
  let ?clt = "nd_clt (N d)" and ?q = "if d \<in> set (queue l s) then queue l s else queue l s @ [d]"
  have x: "lock_xid ?clt l s < x" using node_inv_pending [OF sys_inv_at [OF assms(1), of l d], of t] assms(2) by simp
  have abs: "(ret, lock_abs s') = spec_acquire ?clt l d x (lock_abs s)"
    using acquire_abs [of r ?clt l d x s] assms(3) by simp
  then have s': "queue lid s' = (if lid = l then ?q else queue lid s)" "lock_xid c lid s' = lock_xid c lid s"
    "ret = (if hd ?q = d then lock_OK else lock_RETRY)" for lid c
    using x by (auto simp: spec_acquire_def Let_def lock_abs_def fun_eq_iff split: if_splits)
  have "node_inv lid d' (queue lid s') (lock_xid (nd_clt (N d')) lid s') (put_node d t (Answered l ret) (nd_c (N d)) N d')" for d' lid
  proof (cases "d' = d")
    case False
    then show ?thesis using s' by (intro inv_others [OF assms(1)]) (auto split: if_splits)
  next
    case True
    have inv: "node_inv lid d (queue lid s') (lock_xid ?clt lid s') (N d)"
      by (rule node_inv_queue) (use sys_inv_at [OF assms(1), of lid d] s' in \<open>auto split: if_splits\<close>)
    have "node_inv lid d (queue lid s') (lock_xid ?clt lid s')
        ((N d)\<lparr>nd_c := nd_c (N d), nd_pc := (nd_pc (N d))(t := Answered l ret)\<rparr>)"
    proof (cases "lid = l")
      case True
      have "\<not> usable (lstatus_of l (nd_c (N d)))" using node_inv_busy [OF inv, of t] assms(2) True by simp
      then show ?thesis using True assms(2) s' by (intro node_inv_stay [OF inv]) (auto simp: lock_OK_def lock_RETRY_def)
    next
      case False
      then show ?thesis by (intro node_inv_other [OF inv]) auto
    qed
    then show ?thesis using True by (simp add: put_node_def)
  qed
  then show ?thesis using assms(1) by (simp add: lock_sys_inv_def)
qed

text \<open>The server takes a lock back from the client whose releaser returns it.\<close>

lemma node_inv_back:
  assumes "node_inv lid d q x0 n" "busy lid (nd_pc n t)" "\<not> owns lid p" "pending lid p = None" "x0' \<le> lc_xid (nd_c n)"
  shows "node_inv lid d q' x0' (n\<lparr>nd_c := nd_c n, nd_pc := (nd_pc n)(t := p)\<rparr>)"
proof -
  have b: "\<not> busy lid (nd_pc n t')" if "t' \<noteq> t" for t' using assms(1,2) that by (auto simp: node_inv_def)
  then have "\<not> owns lid (nd_pc n t')" "pending lid (nd_pc n t') = None" if "t' \<noteq> t" for t'
    using owns_busy pending_busy that by (blast, metis not_None_eq)
  moreover have "\<not> usable (lstatus_of lid (nd_c n))" by (rule node_inv_busy [OF assms(1,2)])
  ultimately show ?thesis using assms(3-5) b by (auto simp: node_inv_def usable_def)
qed

lemma inv_serve_release:
  assumes "lock_sys_inv s N" "nd_pc (N d) t = Rel_calling l x" "release r (nd_clt (N d)) l d x s = (ret, r', s')"
  shows "lock_sys_inv s' (put_node d t (Rel_answered l ret) (nd_c (N d)) N)"
proof -
  let ?clt = "nd_clt (N d)"
  note at = sys_inv_at [OF assms(1)]
  have x: "lock_xid ?clt l s < x" "x \<le> lc_xid (nd_c (N d))" using node_inv_pending [OF at [of l d], of t] assms(2) by simp_all
  have hd: "queue l s \<noteq> [] \<and> hd (queue l s) = d" using node_inv_owns [OF at [of l d], of t] assms(2) by simp
  have "(ret, lock_abs s') = spec_release ?clt l d x (lock_abs s)"
    using release_abs [of r ?clt l d x s] assms(3) by simp
  then have s': "queue lid s' = (if lid = l then tl (queue l s) else queue lid s)"
    "lock_xid c lid s' = (if c = ?clt \<and> lid = l then x else lock_xid c lid s)" for lid c
    using x(1) hd by (auto simp: spec_release_def Let_def lock_abs_def fun_eq_iff split: if_splits)
  have "node_inv lid d' (queue lid s') (lock_xid (nd_clt (N d')) lid s') (put_node d t (Rel_answered l ret) (nd_c (N d)) N d')" for d' lid
  proof (cases "d' = d")
    case False
    then show ?thesis using s' hd by (intro inv_others [OF assms(1)]) (auto split: if_splits)
  next
    case True
    have "node_inv lid d (queue lid s') (lock_xid ?clt lid s')
        ((N d)\<lparr>nd_c := nd_c (N d), nd_pc := (nd_pc (N d))(t := Rel_answered l ret)\<rparr>)"
    proof (cases "lid = l")
      case True
      then show ?thesis using s'(2) x(2) assms(2) by (intro node_inv_back [OF at]) auto
    next
      case False
      then have q: "queue lid s' = queue lid s" "lock_xid ?clt lid s' = lock_xid ?clt lid s" using s' by simp_all
      show ?thesis unfolding q by (rule node_inv_other [OF at]) (use False in simp_all)
    qed
    then show ?thesis using True by (simp add: put_node_def)
  qed
  then show ?thesis using assms(1) by (simp add: lock_sys_inv_def)
qed

lemma inv_server:
  assumes "lock_sys_inv s N" "same_lists s s1" "lk_lock_client_list s' = lk_lock_client_list s1"
    "lk_client_lock_id s' = lk_client_lock_id s1"
  shows "lock_sys_inv s' N"
proof -
  have "queue lid s' = queue lid s" "lock_xid c lid s' = lock_xid c lid s" for lid c
    using assms(2-4) by (auto simp: same_lists_def queue_def lock_xid_def)
  then show ?thesis using assms(1) by (simp add: lock_sys_inv_def)
qed

lemma inv_init:
  assumes "inj (\<lambda>d. nd_clt (N d))" "\<And>d. nd_c (N d) = lock_cache_new" "\<And>d t. nd_pc (N d) t = Idle"
  shows "lock_sys_inv lock_server_new N"
  using assms by (simp add: lock_sys_inv_def node_inv_def lock_cache_new_def lstatus_of_def smap_val_def
      lock_xid_def lock_server_new_def)

lemma lock_system_inv: "lock_system s N \<Longrightarrow> lock_sys_inv s N"
proof (induction rule: lock_system.induct)
  case (init N)
  then show ?case by (rule inv_init)
next
  case (want s N d t lid)
  show ?case by (rule sys_inv_node [OF want.IH], rule node_inv_other [OF sys_inv_at [OF want.IH]]) simp_all
next
  case (attempt s N d t lid g c)
  then show ?case using inv_attempt by blast
next
  case (serve s N d t lid x r ret r' s')
  then show ?case using inv_serve by blast
next
  case (reply s N d t lid ret g c)
  then show ?case using inv_reply by blast
next
  case (again s N d t lid g c)
  then show ?case using inv_again by blast
next
  case (release s N d t lid)
  then show ?case using inv_release by blast
next
  case (retry s N d t lid)
  show ?case
    by (rule sys_inv_node [OF retry.IH])
      (use node_inv_status [OF sys_inv_at [OF retry.IH]] in \<open>simp add: retry_handler_def\<close>)
next
  case (revoke s N d t lid)
  show ?case
    by (rule sys_inv_node [OF revoke.IH])
      (use node_inv_status [OF sys_inv_at [OF revoke.IH]] in \<open>simp add: revoke_handler_def\<close>)
next
  case (visit s N d t lid g c)
  then show ?case using inv_visit by blast
next
  case (serve_release s N d t lid x r ret r' s')
  then show ?case using inv_serve_release by blast
next
  case (released s N d t lid ret c)
  then show ?case using inv_released by blast
next
  case (revoker s N p call sent s')
  then obtain s1 where "same_lists s s1" "s' = s1\<lparr>lk_revoke_cond := False\<rparr>"
    by (auto simp: revoker_pass_def res_bind_Inr dest: notify_loop_same intro: same_lists_refl split: if_splits)
  then show ?case using inv_server [OF revoker.IH] by simp
next
  case (retryer s N p call sent s')
  then obtain s1 where "same_lists s s1" "s' = s1\<lparr>lk_retry_cond := False\<rparr>"
    by (auto simp: retryer_pass_def res_bind_Inr dest: notify_loop_same intro: same_lists_refl split: if_splits)
  then show ?case using inv_server [OF retryer.IH] by simp
qed

subsection \<open>Properties\<close>


text \<open>(C37) A late retry message blocks a lock: when it finds the lock cached and free, no thread of the client
  gets the lock any more and the releaser does not give it back, so the other clients wait as well.\<close>

theorem late_retry_blocks:
  assumes "lstatus_of lid c = L_FREE" "c' = snd (retry_handler lid c)"
  shows "fst (acquire_try lid c) = Go_granted \<and> fst (acquire_try lid c') = Go_wait
     \<and> fst (releaser_visit lid c') = Go_wait \<and> lstatus_of lid (snd (acquire_try lid c')) = L_RETRY
     \<and> lstatus_of lid (snd (releaser_visit lid c')) = L_RETRY"
proof -
  have "smap_has lid (lc_status c)" using assms(1) lstatus_of_missing by fastforce
  then show ?thesis
    using assms by (auto simp: acquire_try_def releaser_visit_def retry_handler_def Let_def set_lstatus_def lstatus_of_def)
qed

theorem late_retry_blocks_witness:
  "fst (acquire_try 7 (snd (retry_handler 7 (set_lstatus 7 L_FREE lock_cache_new)))) = Go_wait"
  using late_retry_blocks [of 7 "set_lstatus 7 L_FREE lock_cache_new", OF _ refl] by simp

text \<open>A client that has acquired lock 7\<close>

definition sample_nodes :: "string \<Rightarrow> node" where
  "sample_nodes d = \<lparr>nd_clt = int (to_nat d), nd_c = lock_cache_new, nd_pc = (\<lambda>t. Idle)\<rparr>"

lemma put_node_at [simp]: "nd_pc (put_node d t p c N d) t = p" "nd_c (put_node d t p c N d) = c"
  by (simp_all add: put_node_def)

lemma sample_holder: "\<exists>s N. lock_system s N \<and> nd_pc (N ''a'') 0 = Holds 7"
proof -
  have i: "inj (\<lambda>d. nd_clt (sample_nodes d))" by (rule injI) (simp add: sample_nodes_def)
  have n: "nd_c (sample_nodes d) = lock_cache_new" "nd_pc (sample_nodes d) t = Idle" for d t
    by (simp_all add: sample_nodes_def)
  note N0 = lock_system.init [OF i n]
  define N1 where "N1 = put_node ''a'' 0 (Want 7) lock_cache_new sample_nodes"
  have N1: "lock_system lock_server_new N1" "nd_pc (N1 ''a'') 0 = Want 7" "nd_c (N1 ''a'') = lock_cache_new"
    using lock_system.want [OF N0 n(2), of "''a''" 0 7] unfolding n(1) N1_def [symmetric] by (simp_all add: N1_def)
  define c where "c = snd (acquire_try 7 lock_cache_new)"
  have "acquire_try 7 lock_cache_new = (Go_call 1, c)" "lc_xid lock_cache_new \<noteq> - 1"
    by (simp_all add: c_def acquire_try_def lock_cache_new_def smap_has_def Let_def)
  from lock_system.attempt [OF N1(1,2), unfolded N1(3), OF this(2,1)]
  have a: "lock_system lock_server_new (put_node ''a'' 0 (Calling 7 1) c N1)" by simp
  obtain r s where "acquire 0 (nd_clt (put_node ''a'' 0 (Calling 7 1) c N1 ''a'')) 7 ''a'' 1 lock_server_new = (lock_OK, r, s)"
    by (simp add: acquire_fresh lock_xid_def lock_server_new_def smap_val_def queue_def)
  from lock_system.serve [OF a put_node_at(1) this]
  obtain N3 where N3: "lock_system s N3" "nd_pc (N3 ''a'') 0 = Answered 7 lock_OK" using put_node_at(1) by metis
  have "acquire_reply 7 lock_OK (nd_c (N3 ''a'')) = Inr (Go_granted, set_lstatus 7 L_LOCKED (nd_c (N3 ''a'')))"
    by (simp add: acquire_reply_def lock_OK_def lock_RETRY_def)
  from lock_system.reply [OF N3 this]
  have "lock_system s (put_node ''a'' 0 (Holds 7) (set_lstatus 7 L_LOCKED (nd_c (N3 ''a''))) N3)" by simp
  then show ?thesis by (intro exI conjI, assumption) (rule put_node_at(1))
qed


end
