(* ===== verification/Lock_Server_Old.thy ===== *)
theory Lock_Server_Old
  imports Lock_Server_Rsm
begin

text \<open>
  The two earlier lock servers, \<^verbatim>\<open>lock_server.cc\<close> (a flag per lock, waiting clients block in the
  server) and \<^verbatim>\<open>lock_server_cache.cc\<close> (a queue per lock, the server revokes cached locks), and the
  client of the first, \<^verbatim>\<open>lock_client.cc\<close>. Handlers are cut at their waits and calls.
\<close>

subsection \<open>Simple lock server\<close>

record simple_server =
  ss_nacquire :: int
  ss_lock_list :: "(u64, bool) smap"

definition ss_new :: simple_server where
  "ss_new = \<lparr>ss_nacquire = 0, ss_lock_list = []\<rparr>"

definition ss_stat :: "u64 \<Rightarrow> simple_server \<Rightarrow> int \<times> int \<times> simple_server" where
  "ss_stat lid s = (lock_OK, ss_nacquire s, s)"

text \<open>For a lock that is not in the list yet, the iterator \<^verbatim>\<open>it\<close> still is \<^verbatim>\<open>end()\<close> when \<^verbatim>\<open>it->second\<close> is
  read.\<close>

definition ss_acquire_enter :: "u64 \<Rightarrow> simple_server \<Rightarrow> simple_server res" where
  "ss_acquire_enter lid s =
     (let s = s\<lparr>ss_nacquire := ss_nacquire s + 1\<rparr>
      in if \<not> smap_has lid (ss_lock_list s) then Inl Undefined_behaviour else Inr s)"

text \<open>The loop of \<^verbatim>\<open>acquire\<close>: the request waits (\<open>None\<close>) while the lock is taken.\<close>

definition ss_acquire_try :: "u64 \<Rightarrow> simple_server \<Rightarrow> (int \<times> int \<times> simple_server) option" where
  "ss_acquire_try lid s =
     (if smap_val False lid (ss_lock_list s) then None
      else Some (lock_OK, lock_OK, s\<lparr>ss_lock_list := smap_set lid True (ss_lock_list s)\<rparr>))"

definition ss_release :: "u64 \<Rightarrow> simple_server \<Rightarrow> (int \<times> int \<times> simple_server) res" where
  "ss_release lid s =
     (let s = s\<lparr>ss_nacquire := ss_nacquire s - 1\<rparr>
      in if \<not> smap_has lid (ss_lock_list s) then Inl Undefined_behaviour
         else Inr (lock_OK, lock_OK, s\<lparr>ss_lock_list := smap_set lid False (ss_lock_list s)\<rparr>))"

text \<open>The client: the status and the result of the call are arguments.\<close>

definition lock_client_stat :: "int \<Rightarrow> int \<Rightarrow> int res" where
  "lock_client_stat ret r = (if ret \<noteq> lock_OK then Inl Verify_failed else Inr r)"

definition lock_client_acquire :: "int \<Rightarrow> int \<Rightarrow> int res" where
  "lock_client_acquire ret r = (if ret \<noteq> lock_OK then Inl Verify_failed else Inr r)"

definition lock_client_release :: "int \<Rightarrow> int \<Rightarrow> int res" where
  "lock_client_release ret r = (if ret \<noteq> lock_OK then Inl Verify_failed else Inr r)"

subsection \<open>Caching lock server\<close>

record cache_server =
  cs_nacquire :: int
  cs_lock_client_list :: "(u64, string list) smap"
  cs_connection :: "string list"

definition cs_new :: cache_server where
  "cs_new = \<lparr>cs_nacquire = 0, cs_lock_client_list = [], cs_connection = []\<rparr>"

definition cs_queue :: "u64 \<Rightarrow> cache_server \<Rightarrow> string list" where
  "cs_queue lid s = smap_val [] lid (cs_lock_client_list s)"

datatype cs_next = Cs_return int | Cs_revoke string

text \<open>\<^verbatim>\<open>acquire\<close> up to its return or its call of revoke; the client it revokes has left the queue.\<close>

definition cs_acquire_enter :: "u64 \<Rightarrow> string \<Rightarrow> cache_server \<Rightarrow> cs_next \<times> int \<times> cache_server" where
  "cs_acquire_enter lid dst s =
     (let s = s\<lparr>cs_nacquire := cs_nacquire s + 1\<rparr>; r = cs_nacquire s;
          s = s\<lparr>cs_connection := if dst \<in> set (cs_connection s) then cs_connection s else dst # cs_connection s\<rparr>;
          queue = cs_queue lid s;
          (position, queue) = (case find_client dst 0 queue of
             Some i \<Rightarrow> (i, queue) | None \<Rightarrow> (length queue, queue @ [dst]))
      in if position = 1
         then (Cs_revoke (hd queue), r, s\<lparr>cs_lock_client_list := smap_set lid (tl queue) (cs_lock_client_list s)\<rparr>)
         else (Cs_return (if position = 0 then lock_OK else lock_RETRY), r,
           s\<lparr>cs_lock_client_list := smap_set lid queue (cs_lock_client_list s)\<rparr>))"

text \<open>Revoke has returned; the client to send a retry to, if any. \<open>Inl\<close> is the failed \<^verbatim>\<open>VERIFY\<close>.\<close>

definition cs_acquire_revoked :: "u64 \<Rightarrow> int \<Rightarrow> cache_server \<Rightarrow> string option res" where
  "cs_acquire_revoked lid ret s =
     (if ret \<noteq> 0 then Inl Verify_failed
      else Inr (if length (cs_queue lid s) > 1 then Some (cs_queue lid s ! 1) else None))"

text \<open>After the retry the mutex, which was given up for the call, is unlocked a second time.\<close>

definition cs_acquire_retried :: "int \<Rightarrow> int res" where
  "cs_acquire_retried ret = (if ret \<noteq> 0 then Inl Verify_failed else Inl Undefined_behaviour)"

definition cs_release :: "u64 \<Rightarrow> string \<Rightarrow> cache_server \<Rightarrow> int \<times> int \<times> cache_server" where
  "cs_release lid dst s = (let s = s\<lparr>cs_nacquire := cs_nacquire s - 1\<rparr> in (lock_OK, cs_nacquire s, s))"

definition cs_stat :: "u64 \<Rightarrow> cache_server \<Rightarrow> int \<times> int \<times> cache_server" where
  "cs_stat lid s = (lock_OK, cs_nacquire s, s)"

subsection \<open>Properties\<close>

text \<open>The first request for a lock of the simple server, acquire or release, is undefined behaviour, so that
  no state in which a lock is listed can be reached from the initial one by defined steps.\<close>

inductive ss_reachable :: "simple_server \<Rightarrow> bool" where
  "ss_reachable ss_new"
| "ss_reachable s \<Longrightarrow> ss_acquire_enter lid s = Inr s' \<Longrightarrow> ss_reachable s'"
| "ss_reachable s \<Longrightarrow> smap_has lid (ss_lock_list s) \<Longrightarrow> ss_acquire_try lid s = Some (ret, r, s') \<Longrightarrow> ss_reachable s'"
| "ss_reachable s \<Longrightarrow> ss_release lid s = Inr (ret, r, s') \<Longrightarrow> ss_reachable s'"

lemma ss_no_locks: "ss_reachable s \<Longrightarrow> ss_lock_list s = []"
  by (induction rule: ss_reachable.induct)
    (auto simp: ss_new_def ss_acquire_enter_def ss_acquire_try_def ss_release_def smap_has_def Let_def)

text \<open>Every acquire of the simple lock server reads through the end iterator: from the initial state, no
  request for a lock has defined behaviour.\<close>

theorem simple_server_undefined:
  assumes "ss_reachable s"
  shows "ss_acquire_enter lid s = Inl Undefined_behaviour \<and> ss_release lid s = Inl Undefined_behaviour"
  using ss_no_locks [OF assms] by (simp add: ss_acquire_enter_def ss_release_def smap_has_def Let_def)

theorem simple_server_undefined_witness: "ss_acquire_enter 7 ss_new = Inl Undefined_behaviour"
  using simple_server_undefined [OF ss_reachable.intros(1)] by simp

text \<open>The caching server\<close>

lemma cs_queue_enter:
  assumes "cs_acquire_enter lid dst s = (nx, r, s')"
  shows "cs_queue l s' = (if l \<noteq> lid then cs_queue l s
     else let q = if dst \<in> set (cs_queue lid s) then cs_queue lid s else cs_queue lid s @ [dst]
       in case nx of Cs_revoke c \<Rightarrow> tl q | Cs_return _ \<Rightarrow> q)"
proof (cases "find_client dst 0 (cs_queue lid s)")
  case None
  then have "dst \<notin> set (cs_queue lid s)" by simp
  then show ?thesis using assms None
    by (auto simp: cs_acquire_enter_def Let_def cs_queue_def simp del: find_client_None split: if_splits)
next
  case (Some i)
  then have "dst \<in> set (cs_queue lid s)" using find_client_None [of dst 0 "cs_queue lid s"] by auto
  then show ?thesis using assms Some
    by (auto simp: cs_acquire_enter_def Let_def cs_queue_def split: if_splits)
qed

inductive cs_reachable :: "cache_server \<Rightarrow> bool" where
  init: "cs_reachable cs_new"
| acquire: "cs_reachable s \<Longrightarrow> cs_acquire_enter lid dst s = (nx, r, s') \<Longrightarrow> cs_reachable s'"
| release: "cs_reachable s \<Longrightarrow> cs_release lid dst s = (ret, r, s') \<Longrightarrow> cs_reachable s'"

lemma cs_distinct: "cs_reachable s \<Longrightarrow> distinct (cs_queue lid s)"
proof (induction rule: cs_reachable.induct)
  case init
  show ?case by (simp add: cs_new_def cs_queue_def smap_val_def)
next
  case (acquire s l dst nx r s')
  then show ?case using cs_queue_enter [OF acquire.hyps(2), of lid]
    by (auto simp: Let_def distinct_tl split: cs_next.splits)
next
  case (release s l dst ret r s')
  then show ?case by (auto simp: cs_release_def cs_queue_def Let_def)
qed

lemma find_client_1: "find_client dst i cs = Some (Suc i) \<Longrightarrow> \<exists>a b. cs = a # dst # b"
  by (cases cs; cases "tl cs") (auto split: if_splits dest: find_client_ge)

text \<open>The caching lock server revokes from exactly one client: when an acquire leads to a revoke, the
  revoked client was at the front and has left the queue, and the requesting client is the new front;
  when it is answered OK, the requesting client is at the front.\<close>

theorem cs_grant_front:
  assumes "cs_reachable s" "cs_acquire_enter lid dst s = (nx, r, s')"
  shows "case nx of
       Cs_revoke c \<Rightarrow> cs_queue lid s \<noteq> [] \<and> hd (cs_queue lid s) = c \<and> c \<noteq> dst \<and> c \<notin> set (cs_queue lid s')
         \<and> hd (cs_queue lid s') = dst
     | Cs_return st \<Rightarrow> (st = lock_OK \<longleftrightarrow> hd (cs_queue lid s') = dst)"
proof (cases "find_client dst 0 (cs_queue lid s)")
  case None
  then have n: "dst \<notin> set (cs_queue lid s)" by simp
  show ?thesis
  proof (cases "cs_queue lid s")
    case Nil
    then show ?thesis using assms(2)
      by (auto simp: cs_acquire_enter_def Let_def cs_queue_def lock_OK_def lock_RETRY_def)
  next
    case (Cons c q)
    then show ?thesis using assms(2) n None cs_distinct [OF assms(1), of lid] cs_queue_enter [OF assms(2), of lid]
      by (auto simp: cs_acquire_enter_def Let_def cs_queue_def lock_OK_def lock_RETRY_def split: if_splits)
  qed
next
  case (Some i)
  then have n: "dst \<in> set (cs_queue lid s)" using find_client_None [of dst 0 "cs_queue lid s"] by auto
  show ?thesis
    using assms(2) Some n cs_distinct [OF assms(1), of lid] cs_queue_enter [OF assms(2), of lid] find_client_0 [OF Some]
      find_client_1 [of dst 0 "cs_queue lid s"]
    by (auto simp: cs_acquire_enter_def Let_def cs_queue_def lock_OK_def lock_RETRY_def split: if_splits)
qed

theorem cs_grant_front_witness:
  "\<exists>s r s'. cs_reachable s \<and> cs_acquire_enter 7 ''b'' s = (Cs_revoke ''a'', r, s') \<and> hd (cs_queue 7 s') = ''b''"
proof -
  obtain nx r s where a: "cs_acquire_enter 7 ''a'' cs_new = (nx, r, s)" by (cases "cs_acquire_enter 7 ''a'' cs_new")
  have s: "cs_reachable s" by (rule cs_reachable.acquire [OF cs_reachable.init a])
  have "cs_queue 7 s = [''a'']" using a by (auto simp: cs_acquire_enter_def cs_new_def cs_queue_def smap_val_def Let_def)
  then obtain r' s' where "cs_acquire_enter 7 ''b'' s = (Cs_revoke ''a'', r', s')"
    by (simp add: cs_acquire_enter_def cs_queue_def Let_def)
  with s cs_grant_front [OF s this] show ?thesis by auto
qed

end
