(* ===== verification/Config.thy ===== *)
theory Config
  imports Paxos_Log
begin

text \<open>
  The configuration manager (\<^verbatim>\<open>config.h\<close>, \<^verbatim>\<open>config.cc\<close>): it turns the values Paxos
  agrees on into views, proposes views with one member more or one member less, and watches the
  members with heartbeats. The upcalls \<^verbatim>\<open>paxos_commit\<close> of the acceptor are recorded by the
  acceptor and delivered by \<open>deliver_commits\<close>; the upcalls \<^verbatim>\<open>vc->commit_change\<close> are recorded
  in \<open>cf_changes\<close>, newest first, for the replicated state machine. Handles that are deleted are
  recorded in \<open>cf_deleted\<close>. A method that unlocks \<^verbatim>\<open>cfg_mutex\<close> around a run of Paxos is one
  step here: no other method runs in between.
\<close>

subsection \<open>State\<close>

record config =
  cf_acc :: acceptor
  cf_pro :: proposer
  cf_myvid :: u32
  cf_first :: string
  cf_me :: string
  cf_vc :: bool
  cf_mems :: "string list"
  cf_changes :: "u32 list"
  cf_deleted :: "string list"

subsection \<open>Views as strings\<close>

function members_loop :: "istream \<Rightarrow> string \<Rightarrow> string list \<Rightarrow> string list" where
  "members_loop ist m view =
     (let (m, ist') = extract_word m ist
      in if \<not> st_ok ist' then view else members_loop ist' m (view @ [m]))"
  by pat_completeness auto

termination
  by (relation "measure (\<lambda>(ist, m, view). length (st_rest ist))") (auto dest: extract_word_shrinks [OF sym])

declare members_loop.simps [simp del]

definition members :: "string \<Rightarrow> string list" where
  "members v = members_loop (istream_of v) [] []"

fun view_value :: "string list \<Rightarrow> string" where
  "view_value [] = []"
| "view_value (m # ms) = m @ [space] @ view_value ms"

subsection \<open>Operations\<close>

text \<open>\<^verbatim>\<open>acc->value(instance)\<close> indexes the map of the acceptor, which inserts a missing key.\<close>

definition acceptor_value :: "u32 \<Rightarrow> acceptor \<Rightarrow> string \<times> acceptor" where
  "acceptor_value instance_no acc =
     (let (v, values) = smap_index [] instance_no (ac_values acc) in (v, acc\<lparr>ac_values := values\<rparr>))"

definition get_view :: "u32 \<Rightarrow> config \<Rightarrow> string list \<times> config" where
  "get_view instance_no cf =
     (let (v, acc) = acceptor_value instance_no (cf_acc cf) in (members v, cf\<lparr>cf_acc := acc\<rparr>))"

definition reconstruct :: "config \<Rightarrow> config" where
  "reconstruct cf =
     (if ac_instance_h (cf_acc cf) > 0 then
        let cf = cf\<lparr>cf_myvid := ac_instance_h (cf_acc cf)\<rparr>;
            (v, cf) = get_view (cf_myvid cf) cf
        in cf\<lparr>cf_mems := v\<rparr>
      else cf)"

text \<open>\<open>file\<close> is the content of the log of a previous run.\<close>

definition config_new :: "string \<Rightarrow> string \<Rightarrow> bool \<Rightarrow> string \<Rightarrow> config res" where
  "config_new first me vc file = res_bind (acceptor_new True (me = first) me me file)
     (\<lambda>acc. Inr (reconstruct \<lparr>cf_acc = acc, cf_pro = proposer_new me, cf_myvid = 0, cf_first = first,
        cf_me = me, cf_vc = vc, cf_mems = [], cf_changes = [], cf_deleted = []\<rparr>))"

definition config_restore :: "string \<Rightarrow> config \<Rightarrow> config res" where
  "config_restore s cf = res_bind (acceptor_restore s (cf_acc cf))
     (\<lambda>acc. Inr (reconstruct (cf\<lparr>cf_acc := acc\<rparr>)))"

definition paxos_commit :: "u32 \<Rightarrow> string \<Rightarrow> config \<Rightarrow> config" where
  "paxos_commit instance_no v cf =
     (let newmem = members v;
          gone = filter (\<lambda>m. \<not> isamember m newmem \<and> cf_me cf \<noteq> m) (cf_mems cf);
          cf = cf\<lparr>cf_deleted := rev gone @ cf_deleted cf, cf_mems := newmem, cf_myvid := instance_no\<rparr>
      in if cf_vc cf then cf\<lparr>cf_changes := cf_myvid cf # cf_changes cf\<rparr> else cf)"

text \<open>The upcalls the acceptor has made since the last delivery.\<close>

definition deliver_commits :: "config \<Rightarrow> config" where
  "deliver_commits cf =
     (let ups = rev (ac_upcalls (cf_acc cf))
      in fold (\<lambda>(i, v). paxos_commit i v) ups (cf\<lparr>cf_acc := (cf_acc cf)\<lparr>ac_upcalls := []\<rparr>\<rparr>))"

definition config_ismember :: "string \<Rightarrow> u32 \<Rightarrow> config \<Rightarrow> bool \<times> config" where
  "config_ismember m vid cf = (let (v, cf) = get_view vid cf in (isamember m v, cf))"

text \<open>
  A run of the proposer on behalf of the manager. \<open>prep\<close> and \<open>acpt\<close> are the outcomes of the
  calls to the nodes. The result is what \<^verbatim>\<open>pro->run\<close> returns and the decide requests it has
  sent; \<open>None\<close> is the exit at a breakpoint.
\<close>

definition config_run :: "(preparearg \<Rightarrow> string \<Rightarrow> prepareres outcome) \<Rightarrow> (acceptarg \<Rightarrow> string \<Rightarrow> bool outcome)
    \<Rightarrow> u32 \<Rightarrow> string list \<Rightarrow> string \<Rightarrow> config \<Rightarrow> (bool \<times> (string \<times> decidearg) list \<times> config) option" where
  "config_run prep acpt nextvid nodes v cf =
     (case run prep acpt nextvid nodes v (cf_pro cf) (cf_acc cf) of (res, p, acc) \<Rightarrow>
        let cf = deliver_commits (cf\<lparr>cf_pro := p, cf_acc := acc\<rparr>)
        in case res of
            Run_died \<Rightarrow> None
          | Run_done ds \<Rightarrow> Some (True, ds, cf)
          | _ \<Rightarrow> Some (False, [], cf))"

definition config_add :: "(preparearg \<Rightarrow> string \<Rightarrow> prepareres outcome) \<Rightarrow> (acceptarg \<Rightarrow> string \<Rightarrow> bool outcome)
    \<Rightarrow> string \<Rightarrow> u32 \<Rightarrow> config \<Rightarrow> (bool \<times> (string \<times> decidearg) list \<times> config) option" where
  "config_add prep acpt new_m vid cf =
     (if vid \<noteq> cf_myvid cf then Some (False, [], cf)
      else config_run prep acpt (cf_myvid cf + 1) (cf_mems cf) (view_value (cf_mems cf @ [new_m])) cf)"

definition remove_wo :: "(preparearg \<Rightarrow> string \<Rightarrow> prepareres outcome) \<Rightarrow> (acceptarg \<Rightarrow> string \<Rightarrow> bool outcome)
    \<Rightarrow> string \<Rightarrow> config \<Rightarrow> (bool \<times> (string \<times> decidearg) list \<times> config) option" where
  "remove_wo prep acpt m cf =
     config_run prep acpt (cf_myvid cf + 1) (cf_mems cf) (view_value (filter (\<lambda>n. n \<noteq> m) (cf_mems cf))) cf"

text \<open>The handler of a decide request and the upcalls it causes.\<close>

definition config_decidereq :: "string \<Rightarrow> decidearg \<Rightarrow> u32 \<Rightarrow> config \<Rightarrow> (int \<times> u32 \<times> config) res" where
  "config_decidereq src a r cf = res_bind (decidereq src a r (cf_acc cf))
     (\<lambda>(st, r, acc). Inr (st, r, deliver_commits (cf\<lparr>cf_acc := acc\<rparr>)))"

subsection \<open>Heartbeats\<close>

definition paxos_ERR :: int where "paxos_ERR = 1"

definition heartbeat :: "string \<Rightarrow> u32 \<Rightarrow> config \<Rightarrow> (int \<times> u32 \<times> config) res" where
  "heartbeat m vid cf =
     (if vid = cf_myvid cf then Inr (paxos_OK, cf_myvid cf, cf)
      else if isrunning (cf_pro cf) then
        (if vid = cf_myvid cf + 1 \<or> vid + 1 = cf_myvid cf then Inr (paxos_OK, cf_myvid cf, cf)
         else Inl Verify_failed)
      else Inr (paxos_ERR, cf_myvid cf, cf))"

datatype heartbeat_t = HB_OK | HB_VIEWERR | HB_FAILURE

text \<open>\<open>out\<close> is the outcome of the call to \<open>m\<close>; without a connection \<^verbatim>\<open>ret\<close> keeps its
  initial value.\<close>

definition doheartbeat :: "u32 outcome \<Rightarrow> string \<Rightarrow> config \<Rightarrow> heartbeat_t \<times> config" where
  "doheartbeat out m cf =
     (let ret = (case out of Unbound \<Rightarrow> timeout_failure | Returned ret r \<Rightarrow> ret)
      in if ret \<noteq> paxos_OK then
           (if ret = atmostonce_failure \<or> ret = oldsrv_failure
            then (HB_OK, cf\<lparr>cf_deleted := m # cf_deleted cf\<rparr>)
            else (if ret < 0 then HB_FAILURE else HB_VIEWERR, cf))
         else (HB_OK, cf))"

fun smallest :: "string \<Rightarrow> string list \<Rightarrow> string" where
  "smallest m [] = m"
| "smallest m (c # cs) = smallest (if m > c then c else m) cs"

text \<open>The node with the smallest identifier pings the others until one does not answer.\<close>

fun ping_loop :: "(string \<Rightarrow> u32 outcome) \<Rightarrow> string list \<Rightarrow> config \<Rightarrow> string option \<times> config" where
  "ping_loop hb [] cf = (None, cf)"
| "ping_loop hb (c # cs) cf =
     (if c \<noteq> cf_me cf then
        (case doheartbeat (hb c) c cf of (h, cf) \<Rightarrow>
           if h \<noteq> HB_OK then (Some c, cf) else ping_loop hb cs cf)
      else ping_loop hb cs cf)"

text \<open>
  One turn of the heartbeater after its sleep, up to the decision: the member to be removed. The
  mutex is released during the calls; \<open>vid'\<close> is the number of the view after them.
\<close>

definition heartbeater_pass :: "(string \<Rightarrow> u32 outcome) \<Rightarrow> u32 \<Rightarrow> config \<Rightarrow> string option \<times> config" where
  "heartbeater_pass hb vid' cf =
     (let vid = cf_myvid cf; (cmems, cf) = get_view vid cf
      in if \<not> isamember (cf_me cf) cmems then (None, cf)
         else let m = smallest (cf_me cf) cmems;
                  (bad, cf) = (if m = cf_me cf then ping_loop hb cmems cf
                    else case doheartbeat (hb m) m cf of (h, cf) \<Rightarrow> (if h \<noteq> HB_OK then Some m else None, cf))
           in (if vid = vid' then bad else None, cf))"

text \<open>One turn of the loop of the heartbeater, when no other method runs during the calls.\<close>

definition heartbeater :: "(preparearg \<Rightarrow> string \<Rightarrow> prepareres outcome) \<Rightarrow> (acceptarg \<Rightarrow> string \<Rightarrow> bool outcome)
    \<Rightarrow> (string \<Rightarrow> u32 outcome) \<Rightarrow> config \<Rightarrow> (bool \<times> (string \<times> decidearg) list \<times> config) option" where
  "heartbeater prep acpt hb cf =
     (case heartbeater_pass hb (cf_myvid cf) cf of
        (None, cf) \<Rightarrow> Some (False, [], cf)
      | (Some m, cf) \<Rightarrow> remove_wo prep acpt m cf)"

subsection \<open>The text of a view\<close>

lemma members_loop_space: "members_loop (istream_of (space # t)) old view = members_loop (istream_of t) old view"
  by (subst (1 2) members_loop.simps) (simp add: extract_word_space)

lemma members_loop_word:
  assumes "is_word m"
  shows "members_loop (istream_of (m @ space # t)) old view = members_loop (istream_of t) m (view @ [m])"
proof -
  have "members_loop (istream_of (m @ space # t)) old view
      = members_loop (istream_of (space # t)) m (view @ [m])"
    using extract_word_append [OF assms, of "space # t" old] by (subst members_loop.simps) simp
  then show ?thesis by (simp add: members_loop_space)
qed

lemma members_loop_value:
  "list_all is_word ms \<Longrightarrow> members_loop (istream_of (view_value ms)) old view = view @ ms"
proof (induction ms arbitrary: old view)
  case Nil
  then show ?case by (subst members_loop.simps) (simp add: extract_word_end)
qed (simp add: members_loop_word)

text \<open>The string a view is proposed as is read back as the same view: the members in their order.\<close>

theorem members_value:
  assumes "list_all is_word ms"
  shows "members (view_value ms) = ms"
  using members_loop_value [OF assms] by (simp add: members_def)

theorem members_value_witness: "members (view_value [''1001'', ''1002'']) = [''1001'', ''1002'']"
  by (rule members_value) (simp add: is_word_def is_space_def)

subsection \<open>Adjacent views\<close>

lemma length_filter_neq: "distinct C \<Longrightarrow> length C \<le> Suc (length (filter (\<lambda>x. x \<noteq> m) C))"
proof (induction C)
  case (Cons c C)
  moreover have "m \<notin> set C \<Longrightarrow> filter (\<lambda>x. x \<noteq> m) C = C" by (induction C) auto
  ultimately show ?case by (cases "c = m") auto
qed simp


text \<open>Node 1 in view 1 with members 1, 2 and 3\<close>

definition sample_config :: config where
  "sample_config = \<lparr>cf_acc = (blank True ''1'' [])\<lparr>ac_values := [(1, ''1 2 3 '')], ac_instance_h := 1\<rparr>,
     cf_pro = proposer_new ''1'', cf_myvid = 1, cf_first = ''1'', cf_me = ''1'', cf_vc = True,
     cf_mems = [''1'', ''2'', ''3''], cf_changes = [], cf_deleted = []\<rparr>"


subsection \<open>Who is removed\<close>

lemma smallest_le: "smallest m cs \<le> m \<and> (\<forall>c \<in> set cs. smallest m cs \<le> c)"
proof (induction cs arbitrary: m)
  case (Cons c cs)
  show ?case using Cons [of "if m > c then c else m"] by (auto intro: order.trans)
qed simp

lemma smallest_in: "smallest m cs \<in> insert m (set cs)"
  by (induction cs arbitrary: m) (auto split: if_splits)

definition hb_failed :: "u32 outcome \<Rightarrow> bool" where
  "hb_failed out = (case out of Unbound \<Rightarrow> True
     | Returned ret r \<Rightarrow> ret \<noteq> paxos_OK \<and> ret \<noteq> atmostonce_failure \<and> ret \<noteq> oldsrv_failure)"

lemma doheartbeat_fst: "fst (doheartbeat out m cf) \<noteq> HB_OK \<longleftrightarrow> hb_failed out"
  by (cases out) (auto simp: doheartbeat_def hb_failed_def Let_def timeout_failure_def
      atmostonce_failure_def oldsrv_failure_def paxos_OK_def)

lemma doheartbeat_sel [simp]:
  "cf_me (snd (doheartbeat out m cf)) = cf_me cf" "cf_myvid (snd (doheartbeat out m cf)) = cf_myvid cf"
  "cf_mems (snd (doheartbeat out m cf)) = cf_mems cf" "cf_acc (snd (doheartbeat out m cf)) = cf_acc cf"
  "cf_changes (snd (doheartbeat out m cf)) = cf_changes cf" "cf_pro (snd (doheartbeat out m cf)) = cf_pro cf"
  by (simp_all add: doheartbeat_def Let_def)

lemma ping_loop_bad:
  "fst (ping_loop hb cs cf) = find (\<lambda>c. c \<noteq> cf_me cf \<and> hb_failed (hb c)) cs"
proof (induction cs arbitrary: cf)
  case (Cons c cs)
  obtain h cf' where d: "doheartbeat (hb c) c cf = (h, cf')" by fastforce
  then have "h \<noteq> HB_OK \<longleftrightarrow> hb_failed (hb c)" "cf_me cf' = cf_me cf"
    using doheartbeat_fst [of "hb c" c cf] doheartbeat_sel(1) [of "hb c" c cf] by simp_all
  then show ?case using Cons.IH [of cf] Cons.IH [of cf'] d by simp
qed simp

lemma get_view_simps [simp]:
  "fst (get_view i cf) = members (smap_val [] i (ac_values (cf_acc cf)))"
  "cf_me (snd (get_view i cf)) = cf_me cf" "cf_myvid (snd (get_view i cf)) = cf_myvid cf"
  "cf_mems (snd (get_view i cf)) = cf_mems cf" "cf_changes (snd (get_view i cf)) = cf_changes cf"
  by (simp_all add: get_view_def acceptor_value_def split_beta)

text \<open>The heartbeater proposes to remove a node only for cause: the node is another member of
  the current view, the call to it failed or reported a different view, the view has not changed
  meanwhile, and either this node has the smallest identifier of the view or the removed node has.\<close>

theorem removed_for_cause:
  assumes "fst (heartbeater_pass hb vid' cf) = Some m"
  defines "view \<equiv> members (smap_val [] (cf_myvid cf) (ac_values (cf_acc cf)))"
  shows "m \<in> set view \<and> m \<noteq> cf_me cf \<and> cf_me cf \<in> set view \<and> hb_failed (hb m) \<and> vid' = cf_myvid cf
     \<and> ((\<forall>c \<in> set view. cf_me cf \<le> c) \<or> (\<forall>c \<in> set view. m \<le> c))"
proof -
  obtain cf1 where v: "get_view (cf_myvid cf) cf = (view, cf1)" "cf_me cf1 = cf_me cf"
    using get_view_simps(1,2) [of "cf_myvid cf" cf] by (metis prod.collapse view_def)
  let ?m = "smallest (cf_me cf) view"
  have p: "cf_me cf \<in> set view" "vid' = cf_myvid cf"
    using assms(1) v by (auto simp: heartbeater_pass_def Let_def split: if_splits prod.splits)
  then have le: "\<forall>c \<in> set view. ?m \<le> c" "?m \<in> set view"
    using smallest_le [of "cf_me cf" view] smallest_in [of "cf_me cf" view] by auto
  show ?thesis
  proof (cases "?m = cf_me cf")
    case True
    then have "find (\<lambda>c. c \<noteq> cf_me cf \<and> hb_failed (hb c)) view = Some m"
      using assms(1) v p ping_loop_bad [of hb view cf1]
      by (auto simp: heartbeater_pass_def Let_def split: prod.splits)
    then show ?thesis using le(1) True p by (auto simp: find_Some_iff)
  next
    case False
    then have "m = ?m \<and> fst (doheartbeat (hb ?m) ?m cf1) \<noteq> HB_OK"
      using assms(1) v p by (auto simp: heartbeater_pass_def Let_def split: prod.splits if_splits)
    then show ?thesis using le False p doheartbeat_fst by auto
  qed
qed

theorem removed_for_cause_witness:
  "hb_failed ((\<lambda>m. if m = ''2'' then Unbound else Returned paxos_OK 1) ''2'')"
proof -
  have "members ''1 2 3 '' = [''1'', ''2'', ''3'']"
    using members_loop_value [of "[''1'', ''2'', ''3'']"] by (simp add: members_def is_word_def is_space_def)
  then have "fst (heartbeater_pass (\<lambda>m. if m = ''2'' then Unbound else Returned paxos_OK 1) 1 sample_config)
      = Some ''2''"
    by (simp add: heartbeater_pass_def sample_config_def get_view_def acceptor_value_def smap_index_def
        doheartbeat_def Let_def less_list_code timeout_failure_def paxos_OK_def atmostonce_failure_def
        oldsrv_failure_def)
  from removed_for_cause [OF this] show ?thesis by simp
qed

subsection \<open>Views follow Paxos\<close>

text \<open>The manager and its acceptor agree; the upcalls to the state machine come in order.\<close>

definition config_inv :: "config \<Rightarrow> bool" where
  "config_inv cf \<longleftrightarrow> cf_myvid cf = ac_instance_h (cf_acc cf) \<and> ac_cfg (cf_acc cf)
     \<and> ac_upcalls (cf_acc cf) = []
     \<and> (cf_myvid cf > 0 \<longrightarrow> cf_mems cf = members (smap_val [] (cf_myvid cf) (ac_values (cf_acc cf))))
     \<and> sorted_wrt (>) (cf_changes cf) \<and> (\<forall>v \<in> set (cf_changes cf). v \<le> cf_myvid cf)"

inductive config_step :: "config \<Rightarrow> config \<Rightarrow> bool" where
  prepare: "preparereq r0 src a (cf_acc cf) = Inr (st, r, acc) \<Longrightarrow> config_step cf (cf\<lparr>cf_acc := acc\<rparr>)"
| accept: "acceptreq src a' (cf_acc cf) = Inr (st, b, acc) \<Longrightarrow> config_step cf (cf\<lparr>cf_acc := acc\<rparr>)"
| decide: "config_decidereq src a'' r1 cf = Inr (st, r', cf') \<Longrightarrow> config_step cf cf'"
| add: "config_add prep acpt m vid cf = Some (b, ds, cf') \<Longrightarrow> config_step cf cf'"
| beat: "heartbeater prep acpt hb cf = Some (b, ds, cf') \<Longrightarrow> config_step cf cf'"
| view: "config_step cf (snd (get_view vid cf))"
| restore: "config_restore log cf = Inr cf' \<Longrightarrow>
    ac_instance_h (cf_acc cf) \<le> ac_instance_h (cf_acc cf') \<Longrightarrow> config_step cf cf'"

inductive config_reachable :: "config \<Rightarrow> bool" where
  init: "config_new first me vc file = Inr cf \<Longrightarrow> config_reachable cf"
| step: "config_reachable cf \<Longrightarrow> config_step cf cf' \<Longrightarrow> config_reachable cf'"

text \<open>Reading a log changes neither the name of the acceptor nor its upcalls.\<close>

definition same_env :: "acceptor \<Rightarrow> acceptor \<Rightarrow> bool" where
  "same_env acc acc' \<longleftrightarrow> ac_me acc' = ac_me acc \<and> ac_cfg acc' = ac_cfg acc \<and> ac_upcalls acc' = ac_upcalls acc"

lemma log_record_env: "log_record type inst s acc = Inr (inst', s', acc') \<Longrightarrow> same_env acc acc'"
  by (auto simp: log_record_def same_env_def Let_def split_beta split: if_splits)

lemma logread_env: "logread_loop inst s acc = Inr acc' \<Longrightarrow> same_env acc acc'"
proof (induction inst s acc rule: logread_loop.induct)
  case (1 inst s acc)
  then show ?case
    by (subst (asm) (2) logread_loop.simps)
      (auto simp: Let_def same_env_def dest!: log_record_env split: prod.splits if_splits sum.splits)
qed

lemma acceptor_new_env: "acceptor_new cfg first me v file = Inr acc \<Longrightarrow> ac_cfg acc = cfg \<and> ac_upcalls acc = []"
  by (auto simp: acceptor_new_def logread_def res_bind_Inr same_env_def loginstance_def dest!: logread_env
      split: if_splits)

lemma reconstruct_inv:
  assumes "ac_cfg (cf_acc cf)" "ac_upcalls (cf_acc cf) = []" "cf_myvid cf \<le> ac_instance_h (cf_acc cf)"
    and "sorted_wrt (>) (cf_changes cf)" "\<forall>v \<in> set (cf_changes cf). v \<le> cf_myvid cf"
  shows "config_inv (reconstruct cf)"
  using assms
  by (auto simp: config_inv_def reconstruct_def get_view_def acceptor_value_def Let_def split_beta
      word_gt_0 intro: order.trans)

lemma deliver_commit_inv:
  assumes "config_inv cf"
  shows "config_inv (deliver_commits (cf\<lparr>cf_pro := p, cf_acc := commit_wo i v (cf_acc cf)\<rparr>))"
  using assms
  by (auto simp: config_inv_def deliver_commits_def commit_wo_def loginstance_def paxos_commit_def Let_def
      dest: order.strict_trans1)

lemma deliver_none_inv: "config_inv cf \<Longrightarrow> config_inv (deliver_commits (cf\<lparr>cf_pro := p\<rparr>))"
  by (auto simp: config_inv_def deliver_commits_def)

lemma run_acc:
  assumes "run prep acpt i nodes v p acc = (res, p', acc')"
  shows "acc' = acc \<or> (\<exists>v. acc' = commit_wo i v acc)"
  using assms by (auto simp: run_def acceptor_commit_def Let_def split: if_splits sum.splits prod.splits)

lemma config_run_inv:
  assumes "config_inv cf" "config_run prep acpt i nodes v cf = Some (b, ds, cf')"
  shows "config_inv cf'"
proof -
  obtain res p acc where r: "run prep acpt i nodes v (cf_pro cf) (cf_acc cf) = (res, p, acc)"
    by (cases "run prep acpt i nodes v (cf_pro cf) (cf_acc cf)")
  then have "cf' = deliver_commits (cf\<lparr>cf_pro := p, cf_acc := acc\<rparr>)"
    using assms(2) by (auto simp: config_run_def Let_def split: run_result.splits)
  then show ?thesis
    using run_acc [OF r] assms(1) deliver_commit_inv deliver_none_inv by auto
qed

lemma doheartbeat_inv: "config_inv cf \<Longrightarrow> config_inv (snd (doheartbeat out m cf))"
  by (auto simp: config_inv_def)

lemma ping_loop_inv: "config_inv cf \<Longrightarrow> config_inv (snd (ping_loop hb cs cf))"
proof (induction cs arbitrary: cf)
  case (Cons c cs)
  then show ?case using doheartbeat_inv [of cf "hb c" c] by (auto split: prod.splits)
qed simp

lemma get_view_inv: "config_inv cf \<Longrightarrow> config_inv (snd (get_view vid cf))"
  by (auto simp: config_inv_def get_view_def acceptor_value_def split_beta)

lemma heartbeater_pass_inv:
  assumes "config_inv cf"
  shows "config_inv (snd (heartbeater_pass hb vid' cf))"
proof -
  obtain v cf1 where g: "get_view (cf_myvid cf) cf = (v, cf1)" by fastforce
  then have i: "config_inv cf1" using get_view_inv [OF assms, of "cf_myvid cf"] by simp
  show ?thesis using g i ping_loop_inv [OF i] doheartbeat_inv [OF i]
    by (auto simp: heartbeater_pass_def Let_def split_beta)
qed

lemma config_step_inv:
  assumes "config_step cf cf'" "config_inv cf"
  shows "config_inv cf'"
  using assms
proof (induction rule: config_step.induct)
  case (prepare r0 src a cf st r acc)
  then show ?case
    by (auto simp: config_inv_def preparereq_def logprop_def Let_def split_beta split: if_splits)
next
  case (accept src a' cf st b acc)
  then show ?case by (auto simp: config_inv_def acceptreq_def logaccept_def split: if_splits)
next
  case (decide src a'' r1 cf st r' cf')
  then show ?case
    using deliver_commit_inv [where cf = cf and p = "cf_pro cf"] deliver_none_inv [where cf = cf and p = "cf_pro cf"]
    by (auto simp: config_decidereq_def decidereq_def res_bind_Inr split: if_splits)
next
  case (add prep acpt m vid cf b ds cf')
  then show ?case using config_run_inv by (auto simp: config_add_def split: if_splits)
next
  case (beat prep acpt hb cf b ds cf')
  then show ?case
    using heartbeater_pass_inv [of cf hb "cf_myvid cf"] config_run_inv
    by (auto simp: heartbeater_def remove_wo_def split: prod.splits option.splits)
next
  case (view cf vid)
  then show ?case by (simp add: get_view_inv)
next
  case (restore log cf cf')
  obtain acc where acc: "acceptor_restore log (cf_acc cf) = Inr acc" "cf' = reconstruct (cf\<lparr>cf_acc := acc\<rparr>)"
    using restore.hyps(1) by (auto simp: config_restore_def res_bind_Inr)
  then have "same_env (log_restore log (cf_acc cf)) acc"
    using logread_env by (simp add: acceptor_restore_def logread_def)
  moreover have "ac_instance_h (cf_acc cf') = ac_instance_h acc"
    using acc(2) by (simp add: reconstruct_def get_view_def acceptor_value_def Let_def split_beta)
  ultimately show ?case
    using restore unfolding acc(2)
    by (intro reconstruct_inv) (auto simp: config_inv_def same_env_def log_restore_def)
qed



text \<open>The manager's own proposer is never seen running: \<^verbatim>\<open>run\<close> holds the mutex that
  \<^verbatim>\<open>isrunning\<close> takes and leaves \<^verbatim>\<open>stable\<close> set, so the tolerance for adjacent views in
  \<^verbatim>\<open>heartbeat\<close> and the abort behind it are never reached: a heartbeat succeeds exactly when
  the views are equal.\<close>

theorem heartbeat_exact:
  assumes "pp_stable (cf_pro cf)" "config_run prep acpt i nodes v cf = Some (b, ds, cf')"
  shows "heartbeat m vid cf' = Inr (if vid = cf_myvid cf' then paxos_OK else paxos_ERR, cf_myvid cf', cf')"
proof -
  have "pp_stable p'" if "run prep acpt i nodes v (cf_pro cf) acc = (res, p', acc')" "res \<noteq> Run_died" for acc res p' acc'
    using that assms(1) by (auto simp: run_def Let_def split: if_splits sum.splits prod.splits)
  moreover have "cf_pro (deliver_commits c) = cf_pro c" for c
  proof -
    have "cf_pro (fold (\<lambda>(i, v). paxos_commit i v) ups d) = cf_pro d" for ups d
      by (induction ups arbitrary: d) (auto simp: paxos_commit_def Let_def)
    then show ?thesis by (simp add: deliver_commits_def Let_def)
  qed
  ultimately have "pp_stable (cf_pro cf')"
    using assms(2) by (auto simp: config_run_def Let_def split: prod.splits run_result.splits)
  then show ?thesis by (simp add: heartbeat_def isrunning_def)
qed

theorem heartbeat_exact_witness:
  "\<exists>b ds cf'. config_run (\<lambda>_ _. Unbound) (\<lambda>_ _. Unbound) 2 [''1''] ''1 '' sample_config = Some (b, ds, cf')
     \<and> heartbeat ''2'' 1 cf' = Inr (if 1 = cf_myvid cf' then paxos_OK else paxos_ERR, cf_myvid cf', cf')"
proof -
  obtain b ds cf' where
    r: "config_run (\<lambda>_ _. Unbound) (\<lambda>_ _. Unbound) 2 [''1''] ''1 '' sample_config = Some (b, ds, cf')"
    by (auto simp: config_run_def run_def sample_config_def proposer_new_def prepare_def majority_def)
  moreover have "pp_stable (cf_pro sample_config)" by (simp add: sample_config_def proposer_new_def)
  ultimately show ?thesis using heartbeat_exact by blast
qed

end
