(* ===== verification/Rsm.thy ===== *)
theory Rsm
  imports Config
begin

text \<open>
  The replicated state machine (\<^verbatim>\<open>rsm.h\<close>, \<^verbatim>\<open>rsm.cc\<close>): the primary passes every request of
  a client to all the members of the view and executes it; a view change stops this until the
  recovery threads have synchronized. The service behind it is a parameter: its state is
  \<open>rm_app\<close>, its procedures are \<open>rm_procs\<close>, its state transfer is \<open>rm_stf\<close>. Methods that give
  up \<^verbatim>\<open>rsm_mutex\<close> in a call or a wait are split there; the outcome of a call is an argument.
\<close>

subsection \<open>State\<close>

definition rsm_client_OK :: int where "rsm_client_OK = 0"
definition rsm_client_NOTPRIMARY :: int where "rsm_client_NOTPRIMARY = 2"
definition rsm_client_BUSY :: int where "rsm_client_BUSY = 3"
definition rsm_OK :: int where "rsm_OK = 0"
definition rsm_ERR :: int where "rsm_ERR = 1"
definition rsm_BUSY :: int where "rsm_BUSY = 2"

definition vs_eq :: "viewstamp \<Rightarrow> viewstamp \<Rightarrow> bool" where
  "vs_eq a b \<longleftrightarrow> vs_vid a = vs_vid b \<and> vs_seqno a = vs_seqno b"

definition vs_gt :: "viewstamp \<Rightarrow> viewstamp \<Rightarrow> bool" where
  "vs_gt a b \<longleftrightarrow> vs_vid a > vs_vid b \<or> vs_vid a = vs_vid b \<and> vs_seqno a > vs_seqno b"

definition vs_ne :: "viewstamp \<Rightarrow> viewstamp \<Rightarrow> bool" where
  "vs_ne a b \<longleftrightarrow> vs_vid a \<noteq> vs_vid b \<or> vs_seqno a \<noteq> vs_seqno b"

lemma vs_eq_iff [simp]: "vs_eq a b \<longleftrightarrow> a = b" "vs_ne a b \<longleftrightarrow> a \<noteq> b"
  by (auto simp: vs_eq_def vs_ne_def)

record 's rsm =
  rm_procs :: "(int, 's handler) smap"
  rm_cfg :: config
  rm_stf :: "(('s \<Rightarrow> string) \<times> (string \<Rightarrow> 's \<Rightarrow> 's)) option"
  rm_myvs :: viewstamp
  rm_last_myvs :: viewstamp
  rm_primary :: string
  rm_insync :: bool
  rm_inviewchange :: bool
  rm_vid_commit :: u32
  rm_vid_insync :: u32
  rm_backups :: "string list"
  rm_partitioned :: bool
  rm_dopartition :: bool
  rm_break1 :: bool
  rm_break2 :: bool
  rm_links :: "(string, bool) smap"
  rm_reachable :: bool
  rm_app :: 's

definition rsm_reg1 :: "int \<Rightarrow> 's handler \<Rightarrow> 's rsm \<Rightarrow> 's rsm" where
  "rsm_reg1 proc h rm = rm\<lparr>rm_procs := smap_set proc h (rm_procs rm)\<rparr>"

text \<open>The handler objects of the templates \<^verbatim>\<open>rsm::reg\<close>: arguments that do not fit abort.\<close>

definition rsm_h1 :: "(unmarshall \<Rightarrow> 'a \<times> unmarshall) \<Rightarrow> ('r \<Rightarrow> marshall \<Rightarrow> marshall)
    \<Rightarrow> ('a \<Rightarrow> 's \<Rightarrow> (int \<times> 'r \<times> 's) res) \<Rightarrow> 's handler" where
  "rsm_h1 get1 putr meth args ret s =
     (let (a1, args) = get1 args
      in if \<not> okdone args then Inl Verify_failed
         else res_bind (meth a1 s) (\<lambda>(b, r, s). Inr (b, putr r ret, s)))"

definition rsm_h2 :: "(unmarshall \<Rightarrow> 'a \<times> unmarshall) \<Rightarrow> (unmarshall \<Rightarrow> 'b \<times> unmarshall)
    \<Rightarrow> ('r \<Rightarrow> marshall \<Rightarrow> marshall) \<Rightarrow> ('a \<Rightarrow> 'b \<Rightarrow> 's \<Rightarrow> (int \<times> 'r \<times> 's) res) \<Rightarrow> 's handler" where
  "rsm_h2 get1 get2 putr meth args ret s =
     (let (a1, args) = get1 args; (a2, args) = get2 args
      in if \<not> okdone args then Inl Verify_failed
         else res_bind (meth a1 a2 s) (\<lambda>(b, r, s). Inr (b, putr r ret, s)))"

definition rsm_h3 :: "(unmarshall \<Rightarrow> 'a \<times> unmarshall) \<Rightarrow> (unmarshall \<Rightarrow> 'b \<times> unmarshall)
    \<Rightarrow> (unmarshall \<Rightarrow> 'c \<times> unmarshall) \<Rightarrow> ('r \<Rightarrow> marshall \<Rightarrow> marshall)
    \<Rightarrow> ('a \<Rightarrow> 'b \<Rightarrow> 'c \<Rightarrow> 's \<Rightarrow> (int \<times> 'r \<times> 's) res) \<Rightarrow> 's handler" where
  "rsm_h3 get1 get2 get3 putr meth args ret s =
     (let (a1, args) = get1 args; (a2, args) = get2 args; (a3, args) = get3 args
      in if \<not> okdone args then Inl Verify_failed
         else res_bind (meth a1 a2 a3 s) (\<lambda>(b, r, s). Inr (b, putr r ret, s)))"

definition rsm_h4 :: "(unmarshall \<Rightarrow> 'a \<times> unmarshall) \<Rightarrow> (unmarshall \<Rightarrow> 'b \<times> unmarshall)
    \<Rightarrow> (unmarshall \<Rightarrow> 'c \<times> unmarshall) \<Rightarrow> (unmarshall \<Rightarrow> 'd \<times> unmarshall)
    \<Rightarrow> ('r \<Rightarrow> marshall \<Rightarrow> marshall)
    \<Rightarrow> ('a \<Rightarrow> 'b \<Rightarrow> 'c \<Rightarrow> 'd \<Rightarrow> 's \<Rightarrow> (int \<times> 'r \<times> 's) res) \<Rightarrow> 's handler" where
  "rsm_h4 get1 get2 get3 get4 putr meth args ret s =
     (let (a1, args) = get1 args; (a2, args) = get2 args; (a3, args) = get3 args;
          (a4, args) = get4 args
      in if \<not> okdone args then Inl Verify_failed
         else res_bind (meth a1 a2 a3 a4 s) (\<lambda>(b, r, s). Inr (b, putr r ret, s)))"

text \<open>The template for five arguments does not read the fifth one; \<open>a5\<close> is its value before.\<close>

definition rsm_h5 :: "(unmarshall \<Rightarrow> 'a \<times> unmarshall) \<Rightarrow> (unmarshall \<Rightarrow> 'b \<times> unmarshall)
    \<Rightarrow> (unmarshall \<Rightarrow> 'c \<times> unmarshall) \<Rightarrow> (unmarshall \<Rightarrow> 'd \<times> unmarshall) \<Rightarrow> 'e
    \<Rightarrow> ('r \<Rightarrow> marshall \<Rightarrow> marshall)
    \<Rightarrow> ('a \<Rightarrow> 'b \<Rightarrow> 'c \<Rightarrow> 'd \<Rightarrow> 'e \<Rightarrow> 's \<Rightarrow> (int \<times> 'r \<times> 's) res) \<Rightarrow> 's handler" where
  "rsm_h5 get1 get2 get3 get4 a5 putr meth args ret s =
     (let (a1, args) = get1 args; (a2, args) = get2 args; (a3, args) = get3 args;
          (a4, args) = get4 args
      in if \<not> okdone args then Inl Verify_failed
         else res_bind (meth a1 a2 a3 a4 a5 s) (\<lambda>(b, r, s). Inr (b, putr r ret, s)))"

subsection \<open>Views\<close>

definition rsm_view :: "u32 \<Rightarrow> 's rsm \<Rightarrow> string list \<times> 's rsm" where
  "rsm_view vid rm = (let (v, cf) = get_view vid (rm_cfg rm) in (v, rm\<lparr>rm_cfg := cf\<rparr>))"

definition myaddr :: "'s rsm \<Rightarrow> string" where
  "myaddr rm = cf_me (rm_cfg rm)"

definition rsm_ismember :: "string \<Rightarrow> u32 \<Rightarrow> 's rsm \<Rightarrow> bool \<times> 's rsm" where
  "rsm_ismember m vid rm = (let (b, cf) = config_ismember m vid (rm_cfg rm) in (b, rm\<lparr>rm_cfg := cf\<rparr>))"

definition set_primary :: "u32 \<Rightarrow> 's rsm \<Rightarrow> 's rsm res" where
  "set_primary vid rm =
     (let (c, rm) = rsm_view vid rm; (p, rm) = rsm_view (vid - 1) rm
      in if c = [] then Inl Verify_failed
         else if isamember (rm_primary rm) c then Inr rm
         else if p = [] then Inl Verify_failed
         else case find (\<lambda>m. isamember m c) p of
             Some m \<Rightarrow> Inr (rm\<lparr>rm_primary := m\<rparr>)
           | None \<Rightarrow> Inl Verify_failed)"

definition rsm_breakpoint1 :: "'s rsm \<Rightarrow> 's rsm res" where
  "rsm_breakpoint1 rm = (if rm_break1 rm then Inl Process_exit else Inr rm)"

definition rsm_breakpoint2 :: "'s rsm \<Rightarrow> 's rsm res" where
  "rsm_breakpoint2 rm = (if rm_break2 rm then Inl Process_exit else Inr rm)"

definition commit_change_wo :: "u32 \<Rightarrow> 's rsm \<Rightarrow> 's rsm res" where
  "commit_change_wo vid rm =
     (if vid \<le> rm_vid_commit rm then Inr rm
      else res_bind (set_primary vid (rm\<lparr>rm_vid_commit := vid, rm_inviewchange := True\<rparr>))
        (\<lambda>rm. let (b, rm) = rsm_ismember (myaddr rm) (rm_vid_commit rm) rm
              in if b then rsm_breakpoint2 rm else Inr rm))"

definition commit_change :: "u32 \<Rightarrow> 's rsm \<Rightarrow> 's rsm res" where
  "commit_change vid rm = res_bind (commit_change_wo vid rm) rsm_breakpoint2"

text \<open>The upcalls of the configuration manager, oldest first.\<close>

fun commit_changes :: "u32 list \<Rightarrow> 's rsm \<Rightarrow> 's rsm res" where
  "commit_changes [] rm = Inr rm"
| "commit_changes (vid # vids) rm = res_bind (commit_change vid rm) (commit_changes vids)"

definition deliver_changes :: "'s rsm \<Rightarrow> 's rsm res" where
  "deliver_changes rm =
     (let vids = rev (cf_changes (rm_cfg rm))
      in commit_changes vids (rm\<lparr>rm_cfg := (rm_cfg rm)\<lparr>cf_changes := []\<rparr>\<rparr>))"

text \<open>The constructor; \<^verbatim>\<open>vid_insync\<close> is not initialized and not read before it is set.\<close>

definition rsm_new :: "string \<Rightarrow> string \<Rightarrow> string \<Rightarrow> 's \<Rightarrow> 's rsm res" where
  "rsm_new first me lg s = res_bind (config_new first me True lg)
     (\<lambda>cf. let rm = \<lparr>rm_procs = [], rm_cfg = cf, rm_stf = None,
              rm_myvs = \<lparr>vs_vid = 0, vs_seqno = 1\<rparr>, rm_last_myvs = \<lparr>vs_vid = 0, vs_seqno = 0\<rparr>,
              rm_primary = first, rm_insync = False, rm_inviewchange = True, rm_vid_commit = 0,
              rm_vid_insync = 0, rm_backups = [], rm_partitioned = False, rm_dopartition = False,
              rm_break1 = False, rm_break2 = False, rm_links = [], rm_reachable = True, rm_app = s\<rparr>
       in if first = me then commit_change 1 rm else Inr rm)"

subsection \<open>Requests\<close>

definition amiprimary :: "'s rsm \<Rightarrow> bool" where
  "amiprimary rm \<longleftrightarrow> rm_primary rm = myaddr rm \<and> \<not> rm_inviewchange rm"

definition execute :: "int \<Rightarrow> string \<Rightarrow> 's rsm \<Rightarrow> (string \<times> 's rsm) res" where
  "execute procno req rm =
     (case map_of (rm_procs rm) procno of
        None \<Rightarrow> Inl Verify_failed
      | Some h \<Rightarrow> res_bind (h (take_content req) marshall_new (rm_app rm))
          (\<lambda>(ret, rep, s). let rep1 = put_string (m_str rep) (put_int ret marshall_new)
                           in Inr (m_str rep1, rm\<lparr>rm_app := s\<rparr>)))"

text \<open>Partitions, for testing: \<open>bound m\<close> says whether a handle to \<open>m\<close> is bound.\<close>

definition net_repair_wo :: "(string \<Rightarrow> bool) \<Rightarrow> bool \<Rightarrow> 's rsm \<Rightarrow> 's rsm" where
  "net_repair_wo bound heal rm =
     (let (m, rm) = rsm_view (rm_vid_commit rm) rm;
          links = fold (\<lambda>t l. smap_set t heal l) (filter (\<lambda>t. t \<noteq> myaddr rm \<and> bound t) m) (rm_links rm)
      in rm\<lparr>rm_links := links, rm_reachable := heal\<rparr>)"

definition partition1 :: "(string \<Rightarrow> bool) \<Rightarrow> 's rsm \<Rightarrow> 's rsm" where
  "partition1 bound rm =
     (if rm_dopartition rm
      then (net_repair_wo bound False rm)\<lparr>rm_dopartition := False, rm_partitioned := True\<rparr> else rm)"

text \<open>The primary calls the other members in turn: \<open>call t\<close> is the outcome at \<open>t\<close>, and \<open>env t\<close> is
  what the other threads do to this node during the call, in which it holds no \<^verbatim>\<open>rsm_mutex\<close>. The
  result says whether all of them have executed the request.\<close>

fun invoke_loop :: "(string \<Rightarrow> bool) \<Rightarrow> (string \<Rightarrow> u32 outcome) \<Rightarrow> (string \<Rightarrow> 's rsm \<Rightarrow> 's rsm) \<Rightarrow> string list
    \<Rightarrow> 's rsm \<Rightarrow> (bool \<times> 's rsm) res" where
  "invoke_loop bound call env [] rm = Inr (True, rm)"
| "invoke_loop bound call env (t # ts) rm =
     (if t \<noteq> myaddr rm then
        (case call t of
           Unbound \<Rightarrow> Inl Undefined_behaviour
         | Returned rt _ \<Rightarrow> res_bind (rsm_breakpoint1 (env t rm))
             (\<lambda>rm. let rm = partition1 bound rm
                   in if rt \<noteq> rsm_OK then Inr (False, rm) else invoke_loop bound call env ts rm))
      else invoke_loop bound call env ts rm)"

definition client_invoke :: "(string \<Rightarrow> bool) \<Rightarrow> (string \<Rightarrow> u32 outcome) \<Rightarrow> (string \<Rightarrow> 's rsm \<Rightarrow> 's rsm)
    \<Rightarrow> int \<Rightarrow> string \<Rightarrow> string \<Rightarrow> 's rsm \<Rightarrow> (int \<times> string \<times> 's rsm) res" where
  "client_invoke bound call env procno req r rm =
     (if rm_inviewchange rm then Inr (rsm_client_BUSY, r, rm)
      else if \<not> amiprimary rm then Inr (rsm_client_NOTPRIMARY, r, rm)
      else let (vals, rm) = rsm_view (rm_vid_commit rm) rm
        in res_bind (invoke_loop bound call env vals rm)
          (\<lambda>(ok, rm). if \<not> ok then Inr (rsm_client_BUSY, r, rm)
             else res_bind (execute procno req rm) (\<lambda>(r, rm). Inr (rsm_client_OK, r, rm))))"

definition rsm_invoke :: "int \<Rightarrow> viewstamp \<Rightarrow> string \<Rightarrow> u32 \<Rightarrow> 's rsm \<Rightarrow> (int \<times> u32 \<times> 's rsm) res" where
  "rsm_invoke proc vs req dummy rm =
     (if rm_inviewchange rm then Inr (rsm_ERR, dummy, rm)
      else if amiprimary rm then Inr (rsm_ERR, dummy, rm)
      else if \<not> vs_eq vs (rm_myvs rm) then Inr (rsm_ERR, dummy, rm)
      else res_bind (execute proc req rm)
        (\<lambda>(r, rm). res_bind (rsm_breakpoint1 rm) (\<lambda>rm. Inr (rsm_OK, dummy, rm))))"

definition client_members :: "int \<Rightarrow> 's rsm \<Rightarrow> (int \<times> string list \<times> 's rsm) res" where
  "client_members i rm =
     (let (m, rm) = rsm_view (rm_vid_commit rm) rm in Inr (rsm_client_OK, m @ [rm_primary rm], rm))"

subsection \<open>Synchronization\<close>

definition transferreq :: "string \<Rightarrow> viewstamp \<Rightarrow> u32 \<Rightarrow> transferres \<Rightarrow> 's rsm
    \<Rightarrow> (int \<times> transferres \<times> 's rsm) res" where
  "transferreq src lastvs vid r rm =
     (if \<not> rm_insync rm \<or> vid \<noteq> rm_vid_insync rm then Inr (rsm_BUSY, r, rm)
      else let r = (case rm_stf rm of
               Some (marshal, _) \<Rightarrow> if vs_ne lastvs (rm_last_myvs rm) then r\<lparr>tr_state := marshal (rm_app rm)\<rparr> else r
             | None \<Rightarrow> r)
        in Inr (rsm_OK, r\<lparr>tr_last := rm_last_myvs rm\<rparr>, rm))"

definition transferdonereq :: "string \<Rightarrow> u32 \<Rightarrow> u32 \<Rightarrow> 's rsm \<Rightarrow> (int \<times> u32 \<times> 's rsm) res" where
  "transferdonereq m vid r rm =
     (if \<not> rm_insync rm \<or> vid \<noteq> rm_vid_insync rm then Inr (rsm_BUSY, r, rm)
      else Inr (rsm_OK, r, rm\<lparr>rm_backups := remove1 m (rm_backups rm)\<rparr>))"

text \<open>\<^verbatim>\<open>sync_with_backups\<close> up to its wait, the condition it waits for, and its end.\<close>

definition sync_with_backups :: "'s rsm \<Rightarrow> 's rsm" where
  "sync_with_backups rm =
     (let rm = rm\<lparr>rm_insync := True\<rparr>; (v, rm) = rsm_view (rm_vid_insync rm) rm
      in rm\<lparr>rm_backups := remove1 (myaddr rm) v\<rparr>)"

definition backups_synced :: "'s rsm \<Rightarrow> bool" where
  "backups_synced rm \<longleftrightarrow> \<not> (rm_backups rm \<noteq> [] \<and> rm_vid_insync rm = rm_vid_commit rm)"

definition sync_with_backups_end :: "'s rsm \<Rightarrow> 's rsm" where
  "sync_with_backups_end rm = rm\<lparr>rm_insync := False\<rparr>"

text \<open>\<^verbatim>\<open>statetransfer\<close>, \<^verbatim>\<open>statetransferdone\<close> and \<^verbatim>\<open>sync_with_primary\<close> with the outcomes of
  their calls; \<open>env\<close> is what the other threads do during the second call.\<close>

definition statetransfer :: "transferres outcome \<Rightarrow> 's rsm \<Rightarrow> bool \<times> 's rsm" where
  "statetransfer out rm =
     (case out of
        Unbound \<Rightarrow> (False, rm)
      | Returned ret r \<Rightarrow>
          if ret \<noteq> rsm_OK then (False, rm)
          else let rm = (case rm_stf rm of
                   Some (_, unmarshal) \<Rightarrow>
                     if vs_ne (rm_last_myvs rm) (tr_last r) then rm\<lparr>rm_app := unmarshal (tr_state r) (rm_app rm)\<rparr> else rm
                 | None \<Rightarrow> rm)
               in (True, rm\<lparr>rm_last_myvs := tr_last r\<rparr>))"

definition statetransferdone :: "u32 outcome \<Rightarrow> bool res" where
  "statetransferdone out = (case out of Unbound \<Rightarrow> Inl Undefined_behaviour | Returned ret r \<Rightarrow> Inr (ret = rsm_OK))"

definition sync_with_primary :: "transferres outcome \<Rightarrow> u32 outcome \<Rightarrow> ('s rsm \<Rightarrow> 's rsm) \<Rightarrow> 's rsm
    \<Rightarrow> (bool \<times> 's rsm) res" where
  "sync_with_primary out out' env rm =
     (case statetransfer out rm of (b, rm) \<Rightarrow>
        if \<not> b then Inr (False, rm)
        else res_bind (statetransferdone out')
          (\<lambda>d. let rm = env rm in Inr (d \<and> rm_vid_insync rm = rm_vid_commit rm, rm)))"

subsection \<open>Joining\<close>

definition rsm_join :: "joinres outcome \<Rightarrow> 's rsm \<Rightarrow> (bool \<times> 's rsm) res" where
  "rsm_join out rm =
     (case out of
        Unbound \<Rightarrow> Inr (False, rm)
      | Returned ret r \<Rightarrow>
          if ret \<noteq> rsm_OK then Inr (False, rm)
          else res_bind (config_restore (jr_log r) (rm_cfg rm)) (\<lambda>cf. Inr (True, rm\<lparr>rm_cfg := cf\<rparr>)))"

text \<open>\<open>prep\<close> and \<open>acpt\<close> are the outcomes of the calls of the proposer in \<^verbatim>\<open>cfg->add\<close>; the
  decide requests it sends are part of the result.\<close>

definition joinreq :: "(preparearg \<Rightarrow> string \<Rightarrow> prepareres outcome) \<Rightarrow> (acceptarg \<Rightarrow> string \<Rightarrow> bool outcome)
    \<Rightarrow> string \<Rightarrow> viewstamp \<Rightarrow> joinres \<Rightarrow> 's rsm
    \<Rightarrow> (int \<times> joinres \<times> (string \<times> decidearg) list \<times> 's rsm) res" where
  "joinreq prep acpt m lastvs r rm =
     (case rsm_ismember m (rm_vid_commit rm) rm of (b, rm) \<Rightarrow>
        if b then Inr (rsm_OK, r\<lparr>jr_log := log_dump (cf_acc (rm_cfg rm))\<rparr>, [], rm)
        else if myaddr rm \<noteq> rm_primary rm then Inr (rsm_BUSY, r, [], rm)
        else case config_add prep acpt m (rm_vid_commit rm) (rm_cfg rm) of
            None \<Rightarrow> Inl Process_exit
          | Some (succ, ds, cf) \<Rightarrow>
              res_bind (deliver_changes (rm\<lparr>rm_cfg := cf\<rparr>))
                (\<lambda>rm. case rsm_ismember m (cf_myvid (rm_cfg rm)) rm of (b, rm) \<Rightarrow>
                   if b then Inr (rsm_OK, r\<lparr>jr_log := log_dump (cf_acc (rm_cfg rm))\<rparr>, ds, rm)
                   else Inr (rsm_BUSY, r, ds, rm)))"

subsection \<open>The recovery thread\<close>

text \<open>One attempt to join, made while this node is not a member of the committed view.\<close>

definition recovery_join :: "joinres outcome \<Rightarrow> 's rsm \<Rightarrow> 's rsm res" where
  "recovery_join out rm =
     (case rsm_ismember (myaddr rm) (rm_vid_commit rm) rm of (b, rm) \<Rightarrow>
        if b then Inr rm
        else res_bind (rsm_join out rm)
          (\<lambda>(j, rm). if j then commit_change_wo (cf_myvid (rm_cfg rm)) rm else Inr rm))"

text \<open>A member starts to synchronize for the committed view.\<close>

definition recovery_start :: "'s rsm \<Rightarrow> 's rsm" where
  "recovery_start rm =
     (let rm = rm\<lparr>rm_vid_insync := rm_vid_commit rm\<rparr>
      in if rm_primary rm = myaddr rm then sync_with_backups rm else rm)"

text \<open>The synchronization has returned \<open>r\<close>.\<close>

definition recovery_finish :: "bool \<Rightarrow> 's rsm \<Rightarrow> 's rsm" where
  "recovery_finish r rm =
     (if rm_vid_insync rm \<noteq> rm_vid_commit rm \<or> \<not> r then rm
      else rm\<lparr>rm_myvs := \<lparr>vs_vid = rm_vid_commit rm, vs_seqno = 1\<rparr>, rm_inviewchange := False\<rparr>)"

subsection \<open>Test requests\<close>

definition test_net_repairreq :: "(string \<Rightarrow> bool) \<Rightarrow> bool \<Rightarrow> 's rsm \<Rightarrow> int \<times> int \<times> 's rsm" where
  "test_net_repairreq bound heal rm =
     (let rm = (if heal then (net_repair_wo bound heal rm)\<lparr>rm_partitioned := False\<rparr>
                else rm\<lparr>rm_dopartition := True, rm_partitioned := False\<rparr>)
      in (rsm_OK, rsm_OK, rm))"

definition breakpointreq :: "nat \<Rightarrow> 's rsm \<Rightarrow> int \<times> int \<times> 's rsm" where
  "breakpointreq b rm =
     (if b = 1 then (rsm_OK, rsm_OK, rm\<lparr>rm_break1 := True\<rparr>)
      else if b = 2 then (rsm_OK, rsm_OK, rm\<lparr>rm_break2 := True\<rparr>)
      else if b = 3 \<or> b = 4 then
        (rsm_OK, rsm_OK, rm\<lparr>rm_cfg := (rm_cfg rm)\<lparr>cf_pro := proposer_breakpoint b (cf_pro (rm_cfg rm))\<rparr>\<rparr>)
      else (rsm_ERR, rsm_ERR, rm))"

subsection \<open>Replication\<close>

text \<open>What a client sees of one server that is not replicated: it executes the requests in order.\<close>

fun run_requests :: "(int, 's handler) smap \<Rightarrow> (int \<times> string) list \<Rightarrow> 's \<Rightarrow> (string list \<times> 's) res" where
  "run_requests procs [] s = Inr ([], s)"
| "run_requests procs ((procno, req) # reqs) s =
     (case map_of procs procno of
        None \<Rightarrow> Inl Verify_failed
      | Some h \<Rightarrow> res_bind (h (take_content req) marshall_new s)
          (\<lambda>(ret, rep, s). res_bind (run_requests procs reqs s)
             (\<lambda>(rs, s). Inr (m_str (put_string (m_str rep) (put_int ret marshall_new)) # rs, s))))"

text \<open>
  A cluster is a map from names to replicas. The primary \<open>p\<close> serves a request of a client; each
  member it calls runs \<open>rsm_invoke\<close> on its own state.
\<close>

definition member_call :: "int \<Rightarrow> string \<Rightarrow> string \<Rightarrow> (string \<Rightarrow> 's rsm) \<Rightarrow> string \<Rightarrow> u32 outcome" where
  "member_call procno req p w t = (case rsm_invoke procno (rm_myvs (w p)) req 0 (w t) of
     Inr (st, d, rm) \<Rightarrow> Returned st d | Inl e \<Rightarrow> Returned timeout_failure 0)"

definition member_after :: "int \<Rightarrow> string \<Rightarrow> string \<Rightarrow> (string \<Rightarrow> 's rsm) \<Rightarrow> string \<Rightarrow> 's rsm" where
  "member_after procno req p w t = (case rsm_invoke procno (rm_myvs (w p)) req 0 (w t) of
     Inr (st, d, rm) \<Rightarrow> rm | Inl e \<Rightarrow> w t)"

text \<open>The members that are called: up to the first one that does not answer OK.\<close>

fun members_called :: "(string \<Rightarrow> u32 outcome) \<Rightarrow> string \<Rightarrow> string list \<Rightarrow> string list" where
  "members_called call me [] = []"
| "members_called call me (t # ts) =
     (if t = me then members_called call me ts
      else t # (if \<exists>d. call t = Returned rsm_OK d then members_called call me ts else []))"

definition cluster_invoke :: "(string \<Rightarrow> bool) \<Rightarrow> string \<Rightarrow> int \<Rightarrow> string \<Rightarrow> (string \<Rightarrow> 's rsm)
    \<Rightarrow> (int \<times> string \<times> (string \<Rightarrow> 's rsm)) res" where
  "cluster_invoke bound p procno req w =
     (let call = member_call procno req p w;
          called = (if rm_inviewchange (w p) \<or> \<not> amiprimary (w p) then []
            else members_called call p (fst (rsm_view (rm_vid_commit (w p)) (w p))))
      in res_bind (client_invoke bound call (\<lambda>_ rm. rm) procno req [] (w p))
        (\<lambda>(st, r, rm). Inr (st, r, \<lambda>t. if t = p then rm
           else if t \<in> set called then member_after procno req p w t else w t)))"

fun cluster_run :: "(string \<Rightarrow> bool) \<Rightarrow> string \<Rightarrow> (int \<times> string) list \<Rightarrow> (string \<Rightarrow> 's rsm)
    \<Rightarrow> ((int \<times> string) list \<times> (string \<Rightarrow> 's rsm)) res" where
  "cluster_run bound p [] w = Inr ([], w)"
| "cluster_run bound p ((procno, req) # reqs) w = res_bind (cluster_invoke bound p procno req w)
     (\<lambda>(st, r, w). res_bind (cluster_run bound p reqs w) (\<lambda>(rs, w). Inr ((st, r) # rs, w)))"

text \<open>The recovery threads of the members of view \<open>V\<close> are done and no test mode is on.\<close>

definition replica_ok :: "string list \<Rightarrow> string \<Rightarrow> (int, 's handler) smap \<Rightarrow> viewstamp \<Rightarrow> 's \<Rightarrow> string \<Rightarrow> 's rsm \<Rightarrow> bool" where
  "replica_ok V p procs vs s t rm \<longleftrightarrow> myaddr rm = t \<and> \<not> rm_inviewchange rm \<and> rm_primary rm = p \<and>
     rm_myvs rm = vs \<and> rm_procs rm = procs \<and> rm_app rm = s \<and> \<not> rm_break1 rm \<and> \<not> rm_dopartition rm \<and>
     fst (rsm_view (rm_vid_commit rm) rm) = V"

definition synced :: "string list \<Rightarrow> string \<Rightarrow> (string \<Rightarrow> 's rsm) \<Rightarrow> bool" where
  "synced V p w \<longleftrightarrow> p \<in> set V \<and>
     (\<forall>t \<in> set V. replica_ok V p (rm_procs (w p)) (rm_myvs (w p)) (rm_app (w p)) t (w t))"

lemma rsm_view_sel [simp]:
  "myaddr (snd (rsm_view vid rm)) = myaddr rm" "rm_procs (snd (rsm_view vid rm)) = rm_procs rm"
  "rm_app (snd (rsm_view vid rm)) = rm_app rm" "rm_break1 (snd (rsm_view vid rm)) = rm_break1 rm"
  "rm_dopartition (snd (rsm_view vid rm)) = rm_dopartition rm"
  "fst (rsm_view vid' (snd (rsm_view vid rm))) = fst (rsm_view vid' rm)"
  "rm_vid_commit (snd (rsm_view vid rm)) = rm_vid_commit rm"
  "rm_inviewchange (snd (rsm_view vid rm)) = rm_inviewchange rm"
  "rm_primary (snd (rsm_view vid rm)) = rm_primary rm" "rm_myvs (snd (rsm_view vid rm)) = rm_myvs rm"
  "rm_last_myvs (snd (rsm_view vid rm)) = rm_last_myvs rm"
  by (simp_all add: rsm_view_def myaddr_def get_view_def acceptor_value_def split_beta)

lemma replica_ok_view:
  "replica_ok V p procs vs s t rm \<Longrightarrow> replica_ok V p procs vs s t (snd (rsm_view vid rm))"
  by (simp add: replica_ok_def)

lemma replica_ok_app: "replica_ok V p procs vs s t rm \<Longrightarrow> replica_ok V p procs vs s' t (rm\<lparr>rm_app := s'\<rparr>)"
  by (simp add: replica_ok_def myaddr_def rsm_view_def split_beta)

lemma invoke_loop_ok:
  assumes "\<not> rm_break1 rm" "\<not> rm_dopartition rm" "\<forall>t \<in> set ts. t \<noteq> myaddr rm \<longrightarrow> (\<exists>d. call t = Returned rsm_OK d)"
  shows "invoke_loop bound call (\<lambda>_ rm. rm) ts rm = Inr (True, rm) \<and> set (members_called call (myaddr rm) ts) = set ts - {myaddr rm}"
  using assms by (induction ts) (auto simp: rsm_breakpoint1_def partition1_def)

lemma execute_run:
  "execute procno req rm = (case map_of (rm_procs rm) procno of
     None \<Rightarrow> Inl Verify_failed
   | Some h \<Rightarrow> res_bind (h (take_content req) marshall_new (rm_app rm))
       (\<lambda>(ret, rep, s). Inr (m_str (put_string (m_str rep) (put_int ret marshall_new)), rm\<lparr>rm_app := s\<rparr>)))"
  by (simp only: execute_def Let_def)

text \<open>One request, executed everywhere\<close>

lemma cluster_invoke_synced:
  assumes "synced V p w" "map_of (rm_procs (w p)) procno = Some h"
    and "h (take_content req) marshall_new (rm_app (w p)) = Inr (ret, rep, s')"
  shows "\<exists>w'. cluster_invoke bound p procno req w
       = Inr (rsm_client_OK, m_str (put_string (m_str rep) (put_int ret marshall_new)), w')
     \<and> synced V p w' \<and> rm_procs (w' p) = rm_procs (w p) \<and> (\<forall>t \<in> set V. rm_app (w' t) = s')"
proof -
  let ?r = "m_str (put_string (m_str rep) (put_int ret marshall_new))" and ?call = "member_call procno req p w"
  let ?P = "snd (rsm_view (rm_vid_commit (w p)) (w p))"
  have ok: "replica_ok V p (rm_procs (w p)) (rm_myvs (w p)) (rm_app (w p)) t (w t)" if "t \<in> set V" for t
    using assms(1) that by (simp add: synced_def)
  have p: "p \<in> set V" "replica_ok V p (rm_procs (w p)) (rm_myvs (w p)) (rm_app (w p)) p (w p)"
    using assms(1) ok by (auto simp: synced_def)
  have inv: "rsm_invoke procno (rm_myvs (w p)) req 0 (w t) = Inr (rsm_OK, 0, (w t)\<lparr>rm_app := s'\<rparr>)"
    if "t \<in> set V" "t \<noteq> p" for t
    using ok [OF that(1)] that(2) assms(2,3)
    by (simp add: replica_ok_def rsm_invoke_def amiprimary_def execute_run rsm_breakpoint1_def)
  have l: "invoke_loop bound ?call (\<lambda>_ rm. rm) V ?P = Inr (True, ?P)" "set (members_called ?call p V) = set V - {p}"
    using invoke_loop_ok [of ?P V ?call bound] p(2) inv by (auto simp: replica_ok_def member_call_def)
  have "execute procno req ?P = Inr (?r, ?P\<lparr>rm_app := s'\<rparr>)"
    using assms(2,3) by (simp add: execute_run)
  moreover have "fst (rsm_view (rm_vid_commit (w p)) (w p)) = V" "amiprimary (w p)" "\<not> rm_inviewchange (w p)"
    using p(2) by (simp_all add: replica_ok_def amiprimary_def)
  ultimately have e: "cluster_invoke bound p procno req w = Inr (rsm_client_OK, ?r, \<lambda>t. if t = p then ?P\<lparr>rm_app := s'\<rparr>
       else if t \<in> set V - {p} then member_after procno req p w t else w t)" (is "_ = Inr (_, _, ?w)")
    by (simp add: cluster_invoke_def client_invoke_def Let_def split_beta l cong: if_cong)
  have "replica_ok V p (rm_procs (w p)) (rm_myvs (w p)) s' t (?w t)" if "t \<in> set V" for t
  proof (cases "t = p")
    case True
    then show ?thesis using replica_ok_app [OF replica_ok_view [OF p(2)]] by simp
  next
    case False
    then show ?thesis using that replica_ok_app [OF ok [OF that]] by (simp add: member_after_def inv)
  qed
  then obtain w' where w': "cluster_invoke bound p procno req w = Inr (rsm_client_OK, ?r, w')"
    "\<forall>t \<in> set V. replica_ok V p (rm_procs (w p)) (rm_myvs (w p)) s' t (w' t)" using e by blast
  then have "rm_procs (w' p) = rm_procs (w p)" "rm_myvs (w' p) = rm_myvs (w p)" "rm_app (w' p) = s'"
    using p(1) by (simp_all add: replica_ok_def)
  with w' p(1) have "synced V p w'" by (simp add: synced_def)
  moreover have "\<forall>t \<in> set V. rm_app (w' t) = s'" using w'(2) by (simp add: replica_ok_def)
  ultimately show ?thesis using w'(1) \<open>rm_procs (w' p) = rm_procs (w p)\<close> by blast
qed

text \<open>(C4) Replication is transparent: as long as the view does not change and the members answer, a
  cluster whose members are synchronized gives its clients the replies a single server would give,
  for every sequence of requests and every deterministic service, and after every request all the
  members hold the state of that single server.\<close>

theorem replication_transparent:
  assumes "synced V p w" "run_requests (rm_procs (w p)) reqs (rm_app (w p)) = Inr (rs, s')"
  shows "\<exists>w'. cluster_run bound p reqs w = Inr (map (\<lambda>r. (rsm_client_OK, r)) rs, w')
     \<and> synced V p w' \<and> (\<forall>t \<in> set V. rm_app (w' t) = s')"
  using assms
proof (induction reqs arbitrary: w rs)
  case Nil
  then have "\<forall>t \<in> set V. rm_app (w t) = rm_app (w p)"
    unfolding synced_def replica_ok_def by blast
  with Nil show ?case by simp
next
  case (Cons q reqs)
  obtain procno req where q: "q = (procno, req)" by (cases q)
  obtain h where h: "map_of (rm_procs (w p)) procno = Some h"
    using Cons.prems(2) q by (auto split: option.splits)
  obtain ret rep s1 rs1 where e: "h (take_content req) marshall_new (rm_app (w p)) = Inr (ret, rep, s1)"
    "run_requests (rm_procs (w p)) reqs s1 = Inr (rs1, s')"
    "rs = m_str (put_string (m_str rep) (put_int ret marshall_new)) # rs1"
    using Cons.prems(2) q h by (auto simp: res_bind_Inr)
  obtain w1 where w1: "cluster_invoke bound p procno req w = Inr (rsm_client_OK, hd rs, w1)" "synced V p w1"
    "rm_procs (w1 p) = rm_procs (w p)" "\<forall>t \<in> set V. rm_app (w1 t) = s1"
    using cluster_invoke_synced [OF Cons.prems(1) h e(1)] e(3) by auto
  then have "rm_app (w1 p) = s1" by (simp add: synced_def)
  then show ?case using Cons.IH [OF w1(2)] w1(1,3) e(2,3) q by auto
qed

subsection \<open>View changes\<close>

text \<open>What the handling of views leaves alone\<close>

definition rsm_frame :: "'s rsm \<Rightarrow> 's rsm \<Rightarrow> bool" where
  "rsm_frame rm rm' \<longleftrightarrow> rm_app rm' = rm_app rm \<and> rm_procs rm' = rm_procs rm \<and> rm_stf rm' = rm_stf rm
     \<and> rm_myvs rm' = rm_myvs rm \<and> rm_last_myvs rm' = rm_last_myvs rm"

lemma rsm_view_frame [simp]: "rsm_frame rm (snd (rsm_view vid rm))"
  by (simp add: rsm_frame_def rsm_view_def split_beta)

lemma rsm_frame_refl [simp]: "rsm_frame rm rm"
  by (simp add: rsm_frame_def)

lemma rsm_frame_trans: "rsm_frame a b \<Longrightarrow> rsm_frame b c \<Longrightarrow> rsm_frame a c"
  by (simp add: rsm_frame_def)

lemma set_primary_frame:
  assumes "set_primary vid rm = Inr rm'"
  shows "rsm_frame rm rm' \<and> rm_vid_commit rm' = rm_vid_commit rm \<and> rm_inviewchange rm' = rm_inviewchange rm"
  using assms by (auto simp: set_primary_def rsm_view_def rsm_frame_def Let_def split_beta
      split: if_splits option.splits)

lemma rsm_ismember_frame:
  "rsm_frame rm (snd (rsm_ismember m vid rm))" "rm_vid_commit (snd (rsm_ismember m vid rm)) = rm_vid_commit rm"
  "rm_inviewchange (snd (rsm_ismember m vid rm)) = rm_inviewchange rm"
  by (simp_all add: rsm_ismember_def rsm_frame_def split_beta)

lemma commit_change_wo_frame:
  assumes "commit_change_wo vid rm = Inr rm'"
  shows "rsm_frame rm rm' \<and> rm_vid_commit rm' = max (rm_vid_commit rm) vid
     \<and> (rm_vid_commit rm < vid \<longrightarrow> rm_inviewchange rm')"
proof (cases "vid \<le> rm_vid_commit rm")
  case True
  then show ?thesis using assms by (auto simp: commit_change_wo_def max_def)
next
  case False
  then obtain rm1 where rm1: "set_primary vid (rm\<lparr>rm_vid_commit := vid, rm_inviewchange := True\<rparr>) = Inr rm1"
    "rm' = snd (rsm_ismember (myaddr rm1) (rm_vid_commit rm1) rm1)"
    using assms by (auto simp: commit_change_wo_def res_bind_Inr rsm_breakpoint2_def case_prod_unfold Let_def split: if_splits)
  with set_primary_frame [OF rm1(1)] False show ?thesis
    by (auto simp: rsm_ismember_frame [unfolded rsm_frame_def] rsm_frame_def max_def)
qed

lemma commit_change_frame:
  assumes "commit_change vid rm = Inr rm'"
  shows "rsm_frame rm rm' \<and> rm_vid_commit rm' = max (rm_vid_commit rm) vid
     \<and> (rm_vid_commit rm < vid \<longrightarrow> rm_inviewchange rm')"
  using assms commit_change_wo_frame
  by (auto simp: commit_change_def res_bind_Inr rsm_breakpoint2_def split: if_splits)

text \<open>(C30) A view change stops the service: once a newer view has been committed at a node, it refuses
  the requests of clients and of the primary without executing them, until its recovery thread has
  finished for that view.\<close>

theorem view_change_blocks:
  assumes "commit_change vid rm = Inr rm'" "rm_vid_commit rm < vid"
  shows "rm_vid_commit rm' = vid
     \<and> client_invoke bound call env procno req r rm' = Inr (rsm_client_BUSY, r, rm')
     \<and> rsm_invoke procno vs req d rm' = Inr (rsm_ERR, d, rm')
     \<and> rm_app rm' = rm_app rm"
proof -
  have "rm_inviewchange rm'" "rm_vid_commit rm' = vid" "rm_app rm' = rm_app rm"
    using commit_change_frame [OF assms(1)] assms(2) by (auto simp: rsm_frame_def max_def)
  then show ?thesis by (simp add: client_invoke_def rsm_invoke_def)
qed

text \<open>The choice of the primary: if the check of the members succeeds, the primary of the new
  view is one of its members; it stays the same if it can, and otherwise it is the first member of
  the previous view that is also in the new one. The check succeeds whenever the new view is not
  empty and shares a member with the previous one.\<close>

theorem primary_in_view:
  assumes "c = fst (rsm_view vid rm)" "prev = fst (rsm_view (vid - 1) rm)" "set c \<inter> set prev \<noteq> {}"
  shows "\<exists>rm'. set_primary vid rm = Inr rm' \<and> rm_primary rm' \<in> set c
     \<and> rm_primary rm' = (if rm_primary rm \<in> set c then rm_primary rm
          else hd (filter (\<lambda>m. m \<in> set c) prev))"
proof -
  have ne: "c \<noteq> []" "prev \<noteq> []" using assms(3) by auto
  obtain m where m: "find (\<lambda>m. isamember m c) prev = Some m"
    using assms(3) by (cases "find (\<lambda>m. isamember m c) prev") (auto simp: find_None_iff)
  moreover have "m = hd (filter (\<lambda>m. m \<in> set c) prev) \<and> m \<in> set c"
    using m by (induction prev) (auto split: if_splits)
  ultimately show ?thesis
    using ne by (auto simp: set_primary_def assms(1,2) [symmetric] split_beta Let_def)
qed

subsection \<open>Sequence numbers\<close>

text \<open>The sequence number of the replicas never advances: a backup that has executed a request
  still expects the same viewstamp, so it executes the request again when the primary repeats it.
  The comments of the code promise an execution in the order of the sequence numbers, without gaps.\<close>

theorem seqno_never_advances:
  assumes "rsm_invoke procno vs req d rm = Inr (rsm_OK, d', rm')"
    and "execute procno req rm' = Inr (r2, rm2)"
  shows "rm_myvs rm' = rm_myvs rm \<and> rsm_invoke procno vs req d rm' = Inr (rsm_OK, d, rm2)"
proof -
  have x: "rma = rmb\<lparr>rm_app := rm_app rma\<rparr>" if "execute procno req rmb = Inr (r, rma)" for r rma rmb
    using that by (auto simp: execute_run res_bind_Inr split: option.splits)
  have e: "\<not> rm_inviewchange rm" "\<not> amiprimary rm" "vs = rm_myvs rm" "\<not> rm_break1 rm'"
    "\<exists>r. execute procno req rm = Inr (r, rm')"
    using assms(1) by (auto simp: rsm_invoke_def rsm_OK_def rsm_ERR_def res_bind_Inr rsm_breakpoint1_def
        split: if_splits)
  then have r: "rm' = rm\<lparr>rm_app := rm_app rm'\<rparr>" and r2: "rm2 = rm'\<lparr>rm_app := rm_app rm2\<rparr>"
    using x assms(2) by blast+
  have "rm_myvs rm' = rm_myvs rm" "rm_inviewchange rm' = rm_inviewchange rm" "amiprimary rm' = amiprimary rm"
    by (subst r, simp add: amiprimary_def myaddr_def)+
  moreover have "rm_break1 rm2 = rm_break1 rm'" by (subst r2) simp
  ultimately show ?thesis
    using e assms(2) by (simp add: rsm_invoke_def rsm_breakpoint1_def)
qed

subsection \<open>Synchronization of the backups\<close>

text \<open>The primary handles the reports of the backups \<open>ms\<close>.\<close>

definition reports :: "string list \<Rightarrow> u32 \<Rightarrow> 's rsm \<Rightarrow> 's rsm" where
  "reports ms vid rm = fold (\<lambda>m rm. case transferdonereq m vid 0 rm of Inr (_, _, rm) \<Rightarrow> rm | Inl _ \<Rightarrow> rm) ms rm"

lemma reports_backups:
  assumes "rm_insync rm" "vid = rm_vid_insync rm"
  shows "rm_backups (reports ms vid rm) = fold remove1 ms (rm_backups rm)
     \<and> rm_vid_insync (reports ms vid rm) = vid \<and> rm_vid_commit (reports ms vid rm) = rm_vid_commit rm"
  using assms
proof (induction ms arbitrary: rm)
  case (Cons m ms)
  then show ?case using Cons.IH [of "rm\<lparr>rm_backups := remove1 m (rm_backups rm)\<rparr>"]
    by (simp add: reports_def transferdonereq_def)
qed (simp add: reports_def)

lemma set_fold_remove1: "distinct xs \<Longrightarrow> set (fold remove1 ms xs) = set xs - set ms"
  by (induction ms arbitrary: xs) auto

lemma rsm_view_sel':
  "rm_insync (snd (rsm_view vid rm)) = rm_insync rm" "rm_vid_insync (snd (rsm_view vid rm)) = rm_vid_insync rm"
  by (simp_all add: rsm_view_def split_beta)

lemma rsm_view_upd:
  "rsm_view v (rm\<lparr>rm_insync := b\<rparr>) = (fst (rsm_view v rm), (snd (rsm_view v rm))\<lparr>rm_insync := b\<rparr>)"
  "rsm_view v (rm\<lparr>rm_vid_insync := i\<rparr>) = (fst (rsm_view v rm), (snd (rsm_view v rm))\<lparr>rm_vid_insync := i\<rparr>)"
  by (simp_all add: rsm_view_def split_beta)

lemma myaddr_upd: "myaddr (rm\<lparr>rm_insync := b\<rparr>) = myaddr rm" "myaddr (rm\<lparr>rm_vid_insync := i\<rparr>) = myaddr rm"
  by (simp_all add: myaddr_def)

text \<open>The primary finishes its synchronization for a view exactly when every other member of
  that view has reported that it is synchronized, whatever the order and the repetitions of the
  reports, as long as no newer view is committed.\<close>

theorem primary_waits_for_all:
  assumes "rm = recovery_start rm0" "rm_primary rm0 = myaddr rm0"
    and "V = fst (rsm_view (rm_vid_commit rm0) rm0)" "distinct V"
  shows "backups_synced (reports ms (rm_vid_insync rm) rm) \<longleftrightarrow> set V \<subseteq> insert (myaddr rm0) (set ms)"
proof -
  have i: "rm_insync rm" "rm_vid_insync rm = rm_vid_commit rm" "rm_backups rm = remove1 (myaddr rm0) V"
    using assms(1-3) by (simp_all add: recovery_start_def sync_with_backups_def Let_def split_beta
        myaddr_upd rsm_view_upd rsm_view_sel')
  then have "backups_synced (reports ms (rm_vid_insync rm) rm) \<longleftrightarrow> set (fold remove1 ms (rm_backups rm)) = {}"
    using reports_backups [of rm "rm_vid_insync rm" ms] by (simp add: backups_synced_def)
  also have "\<dots> \<longleftrightarrow> set V - {myaddr rm0} - set ms = {}"
    using i(3) assms(4) by (simp add: set_fold_remove1)
  finally show ?thesis by blast
qed

subsection \<open>State transfer in a cluster\<close>

text \<open>The nodes that are up, and the requests and replies of \<^verbatim>\<open>transferreq\<close> on the network; messages
  may be lost, delayed and duplicated.\<close>

datatype transfer_msg = Transfer_req string viewstamp u32 | Transfer_rep transferres

text \<open>What one node does by itself: its handlers, its recovery thread, its service.\<close>

inductive rsm_local :: "'s rsm \<Rightarrow> 's rsm \<Rightarrow> bool" where
  "rsm_local rm (rsm_reg1 proc h rm)"
| "rsm_local rm (rm\<lparr>rm_stf := stf\<rparr>)"
| "rsm_local rm (rm\<lparr>rm_app := s\<rparr>)"
| "commit_change vid rm = Inr rm' \<Longrightarrow> rsm_local rm rm'"
| "client_invoke bound call (\<lambda>_ rm. rm) procno req r rm = Inr (st, r', rm') \<Longrightarrow> rsm_local rm rm'"
| "rsm_invoke procno vs req d rm = Inr (st, d', rm') \<Longrightarrow> rsm_local rm rm'"
| "client_members i rm = Inr (st, ms, rm') \<Longrightarrow> rsm_local rm rm'"
| "transferdonereq m vid d rm = Inr (st, d', rm') \<Longrightarrow> rsm_local rm rm'"
| "joinreq prep acpt m vs jr rm = Inr (st, jr', ds, rm') \<Longrightarrow> rsm_local rm rm'"
| "recovery_join out rm = Inr rm' \<Longrightarrow> rsm_local rm rm'"
| "rsm_local rm (recovery_start rm)"
| "rsm_local rm (sync_with_backups_end rm)"
| "rsm_local rm (recovery_finish b rm)"
| "test_net_repairreq bound heal rm = (st, d, rm') \<Longrightarrow> rsm_local rm rm'"
| "breakpointreq b rm = (st, d, rm') \<Longrightarrow> rsm_local rm rm'"

inductive rsm_reachable :: "(string \<rightharpoonup> 's rsm) \<Rightarrow> transfer_msg list \<Rightarrow> bool" where
  init: "rsm_reachable Map.empty []"
| boot: "rsm_reachable w net \<Longrightarrow> rsm_new first me lg s = Inr rm \<Longrightarrow> rsm_reachable (w(me \<mapsto> rm)) net"
| local: "rsm_reachable w net \<Longrightarrow> w me = Some rm \<Longrightarrow> rsm_local rm rm' \<Longrightarrow> rsm_reachable (w(me \<mapsto> rm')) net"
| ask: "rsm_reachable w net \<Longrightarrow> w me = Some rm
    \<Longrightarrow> rsm_reachable w (Transfer_req me (rm_last_myvs rm) (rm_vid_insync rm) # net)"
| answer: "rsm_reachable w net \<Longrightarrow> w p = Some rm \<Longrightarrow> Transfer_req src lastvs vid \<in> set net
    \<Longrightarrow> transferreq src lastvs vid \<lparr>tr_state = [], tr_last = vs0\<rparr> rm = Inr (rsm_OK, r, rm')
    \<Longrightarrow> rsm_reachable (w(p \<mapsto> rm')) (Transfer_rep r # net)"
| transfer: "rsm_reachable w net \<Longrightarrow> w me = Some rm \<Longrightarrow> Transfer_rep r \<in> set net
    \<Longrightarrow> statetransfer (Returned rsm_OK r) rm = (b, rm') \<Longrightarrow> rsm_reachable (w(me \<mapsto> rm')) net"

lemma commit_changes_last: "commit_changes vids rm = Inr rm' \<Longrightarrow> rm_last_myvs rm' = rm_last_myvs rm"
  by (induction vids arbitrary: rm) (auto simp: res_bind_Inr rsm_frame_def dest!: commit_change_frame)

lemma deliver_changes_last: "deliver_changes rm = Inr rm' \<Longrightarrow> rm_last_myvs rm' = rm_last_myvs rm"
  by (auto simp: deliver_changes_def Let_def dest: commit_changes_last)

lemma net_repair_wo_last: "rm_last_myvs (net_repair_wo bound heal rm) = rm_last_myvs rm"
  by (simp add: net_repair_wo_def Let_def split_beta)

lemma partition1_last: "rm_last_myvs (partition1 bound rm) = rm_last_myvs rm"
  by (simp add: partition1_def net_repair_wo_last)

lemma invoke_loop_last:
  "invoke_loop bound call (\<lambda>_ rm. rm) ts rm = Inr (ok, rm') \<Longrightarrow> rm_last_myvs rm' = rm_last_myvs rm"
  by (induction ts arbitrary: rm)
    (auto simp: res_bind_Inr rsm_breakpoint1_def partition1_last Let_def split: if_splits outcome.splits)

lemma execute_last: "execute procno req rm = Inr (r, rm') \<Longrightarrow> rm_last_myvs rm' = rm_last_myvs rm"
  by (auto simp: execute_run res_bind_Inr split: option.splits)

lemma client_invoke_last:
  "client_invoke bound call (\<lambda>_ rm. rm) procno req r rm = Inr (st, r', rm') \<Longrightarrow> rm_last_myvs rm' = rm_last_myvs rm"
  by (auto simp: client_invoke_def res_bind_Inr split_beta Let_def split: if_splits
      dest!: invoke_loop_last execute_last)

lemma joinreq_last:
  "joinreq prep acpt m vs jr rm = Inr (st, jr', ds, rm') \<Longrightarrow> rm_last_myvs rm' = rm_last_myvs rm"
  by (auto simp: joinreq_def res_bind_Inr split_beta rsm_ismember_frame [unfolded rsm_frame_def]
      split: if_splits option.splits dest!: deliver_changes_last)

lemma recovery_join_last: "recovery_join out rm = Inr rm' \<Longrightarrow> rm_last_myvs rm' = rm_last_myvs rm"
  by (auto simp: recovery_join_def rsm_join_def res_bind_Inr split_beta rsm_frame_def
      rsm_ismember_frame [unfolded rsm_frame_def] split: if_splits outcome.splits dest!: commit_change_wo_frame)

lemma rsm_local_last: "rsm_local rm rm' \<Longrightarrow> rm_last_myvs rm' = rm_last_myvs rm"
proof (induction rule: rsm_local.induct)
  case (6 procno vs req d rm st d' rm')
  then show ?case by (auto simp: rsm_invoke_def res_bind_Inr rsm_breakpoint1_def split: if_splits dest: execute_last)
next
  case (14 bound heal rm st d rm')
  then show ?case by (auto simp: test_net_repairreq_def Let_def net_repair_wo_last split: if_splits)
next
  case (15 b rm st d rm')
  then show ?case by (auto simp: breakpointreq_def split: if_splits)
qed (auto simp: rsm_reg1_def client_members_def transferdonereq_def recovery_start_def sync_with_backups_def
    sync_with_backups_end_def recovery_finish_def split_beta Let_def rsm_frame_def split: if_splits
    dest: commit_change_frame client_invoke_last joinreq_last recovery_join_last)

lemma rsm_new_last: "rsm_new first me lg s = Inr rm \<Longrightarrow> rm_last_myvs rm = \<lparr>vs_vid = 0, vs_seqno = 0\<rparr>"
  by (auto simp: rsm_new_def res_bind_Inr Let_def rsm_frame_def split: if_splits dest!: commit_change_frame)

definition nothing_transferred :: "(string \<rightharpoonup> 's rsm) \<Rightarrow> transfer_msg list \<Rightarrow> bool" where
  "nothing_transferred w net \<longleftrightarrow> (\<forall>rm \<in> ran w. rm_last_myvs rm = \<lparr>vs_vid = 0, vs_seqno = 0\<rparr>) \<and>
     (\<forall>m \<in> set net. case m of
        Transfer_req src vs vid \<Rightarrow> vs = \<lparr>vs_vid = 0, vs_seqno = 0\<rparr>
      | Transfer_rep r \<Rightarrow> r = \<lparr>tr_state = [], tr_last = \<lparr>vs_vid = 0, vs_seqno = 0\<rparr>\<rparr>)"

lemma nothing_transferred_upd:
  "nothing_transferred w net \<Longrightarrow> rm_last_myvs rm = \<lparr>vs_vid = 0, vs_seqno = 0\<rparr> \<Longrightarrow> nothing_transferred (w(me \<mapsto> rm)) net"
  by (auto simp: nothing_transferred_def ran_def)

lemma nothing_transferred_node:
  "nothing_transferred w net \<Longrightarrow> w me = Some rm \<Longrightarrow> rm_last_myvs rm = \<lparr>vs_vid = 0, vs_seqno = 0\<rparr>"
  by (auto simp: nothing_transferred_def ran_def)

lemma nothing_transferred_msg:
  "nothing_transferred w net \<Longrightarrow> Transfer_req src vs vid \<in> set net \<Longrightarrow> vs = \<lparr>vs_vid = 0, vs_seqno = 0\<rparr>"
  "nothing_transferred w net \<Longrightarrow> Transfer_rep r \<in> set net
    \<Longrightarrow> r = \<lparr>tr_state = [], tr_last = \<lparr>vs_vid = 0, vs_seqno = 0\<rparr>\<rparr>"
  unfolding nothing_transferred_def by fastforce+

lemma rsm_reachable_inv: "rsm_reachable w net \<Longrightarrow> nothing_transferred w net"
proof (induction rule: rsm_reachable.induct)
  case init
  then show ?case by (simp add: nothing_transferred_def)
next
  case (boot w net first me lg s rm)
  show ?case by (rule nothing_transferred_upd [OF boot.IH rsm_new_last [OF boot.hyps(2)]])
next
  case (local w net me rm rm')
  show ?case
    by (rule nothing_transferred_upd [OF local.IH])
      (simp only: rsm_local_last [OF local.hyps(3)] nothing_transferred_node [OF local.IH local.hyps(2)])
next
  case (ask w net me rm)
  then show ?case using nothing_transferred_node [OF ask.IH ask.hyps(2)] by (simp add: nothing_transferred_def)
next
  case (answer w net p rm src lastvs vid vs0 r rm')
  have "rm' = rm" "r = \<lparr>tr_state = [], tr_last = \<lparr>vs_vid = 0, vs_seqno = 0\<rparr>\<rparr>"
    using answer.hyps(4) nothing_transferred_node [OF answer.IH answer.hyps(2)]
      nothing_transferred_msg(1) [OF answer.IH answer.hyps(3)]
    by (auto simp: transferreq_def rsm_OK_def rsm_BUSY_def split: if_splits option.splits)
  then show ?case
    using nothing_transferred_upd [OF answer.IH nothing_transferred_node [OF answer.IH answer.hyps(2)], of p]
    unfolding nothing_transferred_def by simp
next
  case (transfer w net me rm r b rm')
  have "rm_last_myvs rm' = \<lparr>vs_vid = 0, vs_seqno = 0\<rparr>"
    using nothing_transferred_msg(2) [OF transfer.IH transfer.hyps(3)] transfer.hyps(4)
    by (auto simp: statetransfer_def Let_def)
  then show ?case by (rule nothing_transferred_upd [OF transfer.IH])
qed

text \<open>(C34) The state of the service is never transferred: \<^verbatim>\<open>last_myvs\<close>, which should be the viewstamp
  of the last executed request, never moves from (0,0) on any node, so a primary that is asked for
  its state answers without it and a backup that synchronizes keeps the state it has. In particular
  a node that joins late becomes a synchronized member of the view with the state it started with.\<close>

theorem state_never_transferred:
  assumes "rsm_reachable w net" "w me = Some rm" "Transfer_rep r \<in> set net"
  shows "tr_state r = [] \<and> statetransfer (Returned rsm_OK r) rm = (True, rm)"
proof -
  note inv = rsm_reachable_inv [OF assms(1)]
  show ?thesis
    using nothing_transferred_node [OF inv assms(2)] nothing_transferred_msg(2) [OF inv assms(3)]
    by (auto simp: statetransfer_def Let_def split: option.splits)
qed

subsection \<open>Sample cluster\<close>

text \<open>Three replicas of a counter in view 1, and the value of a view 2 without node 1.\<close>

definition count :: "nat handler" where
  "count args ret s = Inr (0, ret, s + 1)"

definition sample_rsm :: "string \<Rightarrow> nat rsm" where
  "sample_rsm t = \<lparr>rm_procs = [(7, count)],
     rm_cfg = sample_config\<lparr>cf_me := t, cf_acc := (cf_acc sample_config)\<lparr>ac_values := [(1, ''1 2 3 ''), (2, ''2 3 '')]\<rparr>\<rparr>,
     rm_stf = None, rm_myvs = \<lparr>vs_vid = 1, vs_seqno = 1\<rparr>, rm_last_myvs = \<lparr>vs_vid = 0, vs_seqno = 0\<rparr>,
     rm_primary = ''1'', rm_insync = False, rm_inviewchange = False, rm_vid_commit = 1, rm_vid_insync = 1,
     rm_backups = [], rm_partitioned = False, rm_dopartition = False, rm_break1 = False, rm_break2 = False,
     rm_links = [], rm_reachable = True, rm_app = 5\<rparr>"

lemma sample_members: "members ''1 2 3 '' = [''1'', ''2'', ''3'']" "members ''2 3 '' = [''2'', ''3'']"
  using members_loop_value [of "[''1'', ''2'', ''3'']"] members_loop_value [of "[''2'', ''3'']"]
  by (simp_all add: members_def is_word_def is_space_def)

lemma sample_views:
  "fst (rsm_view 1 (sample_rsm t)) = [''1'', ''2'', ''3'']" "fst (rsm_view 2 (sample_rsm t)) = [''2'', ''3'']"
  by (simp_all add: rsm_view_def get_view_def acceptor_value_def sample_rsm_def sample_config_def
      smap_index_def sample_members split_beta)

lemma sample_sel:
  "myaddr (sample_rsm t) = t" "rm_vid_commit (sample_rsm t) = 1" "rm_primary (sample_rsm t) = ''1''"
  "rm_procs (sample_rsm t) = [(7, count)]" "rm_app (sample_rsm t) = 5" "\<not> rm_inviewchange (sample_rsm t)"
  "\<not> rm_break1 (sample_rsm t)" "\<not> rm_break2 (sample_rsm t)" "\<not> rm_dopartition (sample_rsm t)"
  "rm_myvs (sample_rsm t) = \<lparr>vs_vid = 1, vs_seqno = 1\<rparr>"
  by (simp_all add: sample_rsm_def myaddr_def)

lemma sample_synced: "synced [''1'', ''2'', ''3''] ''1'' sample_rsm"
  by (simp add: synced_def replica_ok_def sample_sel sample_views)

theorem replication_transparent_witness:
  "\<exists>w'. synced [''1'', ''2'', ''3''] ''1'' w' \<and> rm_app (w' ''3'') = (7::nat)"
proof -
  obtain rs where "run_requests (rm_procs (sample_rsm ''1'')) [(7, []), (7, [])] (rm_app (sample_rsm ''1'')) = Inr (rs, 7)"
    by (simp add: sample_sel count_def)
  then obtain w' where "synced [''1'', ''2'', ''3''] ''1'' w'" "\<forall>t \<in> set [''1'', ''2'', ''3'']. rm_app (w' t) = (7::nat)"
    using replication_transparent [OF sample_synced] by blast
  then show ?thesis by auto
qed

theorem primary_in_view_witness: "\<exists>rm'. set_primary 2 (sample_rsm ''3'') = Inr rm' \<and> rm_primary rm' = ''2''"
  using primary_in_view [OF sample_views(2) [of "''3''", symmetric], of "[''1'', ''2'', ''3'']"]
  by (simp add: sample_views sample_sel) blast

theorem view_change_blocks_witness:
  "\<exists>rm'. commit_change 2 (sample_rsm ''3'') = Inr rm' \<and> rm_app rm' = 5
     \<and> rsm_invoke 7 \<lparr>vs_vid = 1, vs_seqno = 1\<rparr> [] 0 rm' = Inr (rsm_ERR, 0, rm')"
proof -
  have "\<not> (2::u32) \<le> 1" by (simp add: word_le_nat_alt)
  then obtain rm' where rm': "commit_change 2 (sample_rsm ''3'') = Inr rm'"
    by (auto simp: commit_change_def commit_change_wo_def set_primary_def rsm_view_def rsm_ismember_def
        config_ismember_def get_view_def acceptor_value_def sample_rsm_def sample_config_def smap_index_def
        sample_members rsm_breakpoint2_def Let_def split_beta myaddr_def)
  then show ?thesis
    using view_change_blocks [OF rm'] by (auto simp: sample_sel)
qed

theorem seqno_never_advances_witness:
  "\<exists>rm'. rsm_invoke 7 \<lparr>vs_vid = 1, vs_seqno = 1\<rparr> [] 0 (sample_rsm ''3'') = Inr (rsm_OK, 0, rm') \<and>
     (\<exists>rm2. rsm_invoke 7 \<lparr>vs_vid = 1, vs_seqno = 1\<rparr> [] 0 rm' = Inr (rsm_OK, 0, rm2) \<and> rm_app rm2 = 7)"
proof -
  let ?rm = "\<lambda>s. (sample_rsm ''3'')\<lparr>rm_app := s\<rparr>"
  have "rsm_invoke 7 \<lparr>vs_vid = 1, vs_seqno = 1\<rparr> [] 0 (sample_rsm ''3'') = Inr (rsm_OK, 0, ?rm 6)"
    by (simp add: rsm_invoke_def amiprimary_def sample_sel execute_run count_def rsm_breakpoint1_def)
  moreover obtain r2 where "execute 7 [] (?rm 6) = Inr (r2, ?rm 7)"
    by (auto simp: execute_run sample_sel count_def)
  ultimately show ?thesis using seqno_never_advances by fastforce
qed

theorem primary_waits_for_all_witness:
  "backups_synced (reports [''3'', ''3'', ''2''] 1 (recovery_start (sample_rsm ''1'')))"
proof -
  have "rm_vid_insync (recovery_start (sample_rsm ''1'')) = 1"
    by (simp add: recovery_start_def sync_with_backups_def sample_rsm_def myaddr_def rsm_view_def Let_def split_beta)
  moreover have "distinct [''1'', ''2'', ''3'']" by simp
  ultimately show ?thesis
    using primary_waits_for_all [OF refl _ refl, of "sample_rsm ''1''" "[''3'', ''3'', ''2'']"]
    by (simp add: sample_sel sample_views)
qed

lemma members_single: "is_word m \<Longrightarrow> members m = [m]"
  using extract_word_append [of m "[]"] extract_word_end
  by (simp add: members_def members_loop.simps)

text \<open>A first node that starts, begins to synchronize for view 1 and is asked for its state.\<close>

lemma first_node:
  "\<exists>rm. rsm_new ''1'' ''1'' [] (5::nat) = Inr rm \<and> rm_vid_commit rm = 1 \<and> rm_primary rm = ''1'' \<and> myaddr rm = ''1'' \<and> rm_app rm = 5"
proof -
  have m: "members ''1'' = [''1'']" using members_single [of "''1''"] by (simp add: is_word_def is_space_def)
  have v: "\<not> (1::u32) \<le> 0" by simp
  show ?thesis
    by (simp add: rsm_new_def config_new_def acceptor_new_def logread_def logread_loop.simps extract_word_end
        commit_change_def commit_change_wo_def set_primary_def rsm_view_def rsm_ismember_def Let_def split_beta
        config_ismember_def get_view_def acceptor_value_def smap_index_def m v reconstruct_def
        loginstance_def rsm_breakpoint2_def myaddr_def)
qed

theorem state_never_transferred_witness:
  "\<exists>w net r. rsm_reachable w net \<and> Transfer_rep r \<in> set net \<and> tr_state r = [] \<and>
     (\<exists>rm. w ''1'' = Some rm \<and> statetransfer (Returned rsm_OK r) rm = (True, rm) \<and> rm_app rm = (5::nat))"
proof -
  obtain rm where rm: "rsm_new ''1'' ''1'' [] (5::nat) = Inr rm" "rm_vid_commit rm = 1" "rm_primary rm = ''1''"
    "myaddr rm = ''1''" "rm_app rm = 5" using first_node by blast
  let ?rm = "recovery_start rm"
  let ?w = "(Map.empty(''1'' \<mapsto> rm))(''1'' \<mapsto> ?rm)"
  have s: "rm_insync ?rm" "rm_app ?rm = 5" using rm
    by (simp_all add: recovery_start_def sync_with_backups_def Let_def split_beta myaddr_upd rsm_view_upd rsm_view_sel')
  have w: "rsm_reachable ?w [Transfer_req ''1'' (rm_last_myvs ?rm) (rm_vid_insync ?rm)]"
    by (rule rsm_reachable.ask, rule rsm_reachable.local, rule rsm_reachable.boot, rule rsm_reachable.init,
        rule rm(1)) (auto intro: rsm_local.intros)
  obtain r where "transferreq ''1'' (rm_last_myvs ?rm) (rm_vid_insync ?rm) \<lparr>tr_state = [], tr_last = \<lparr>vs_vid = 0, vs_seqno = 0\<rparr>\<rparr> ?rm
      = Inr (rsm_OK, r, ?rm)"
    using s(1) by (simp add: transferreq_def)
  then have n: "rsm_reachable (?w(''1'' \<mapsto> ?rm)) [Transfer_rep r, Transfer_req ''1'' (rm_last_myvs ?rm) (rm_vid_insync ?rm)]"
    by (intro rsm_reachable.answer [OF w]) auto
  have "tr_state r = [] \<and> statetransfer (Returned rsm_OK r) ?rm = (True, ?rm)"
    by (rule state_never_transferred [OF n]) simp_all
  moreover have "(?w(''1'' \<mapsto> ?rm)) ''1'' = Some ?rm" by simp
  ultimately show ?thesis using n s(2) by (metis list.set_intros(1))
qed
end
