(* ===== verification/Rsm_Client.thy ===== *)
theory Rsm_Client
  imports Rsm
begin

text \<open>
  The client of the replicated state machine (\<^verbatim>\<open>rsm_client.h\<close>, \<^verbatim>\<open>rsm_client.cc\<close>): it keeps a primary
  and a list of members, repeats an invocation until a primary has executed it, and packs and unpacks
  the calls of a service. The outcomes of remote calls are arguments; the number of rounds of
  \<^verbatim>\<open>invoke\<close> is bounded by fuel, and \<open>None\<close> means that the fuel did not suffice.
\<close>

subsection \<open>Members\<close>

record rsm_client =
  rcl_primary :: string
  rcl_mems :: "string list"

text \<open>The loop of \<^verbatim>\<open>primary_failure\<close>: \<^verbatim>\<open>erase\<close> moves the rest of the vector down, and the iterator is
  advanced all the same. An iterator beyond the end is undefined behaviour.\<close>

function pf_loop :: "string \<Rightarrow> nat \<Rightarrow> string list \<Rightarrow> string list res" where
  "pf_loop p i mems =
     (if i = length mems then Inr mems
      else if i > length mems then Inl Undefined_behaviour
      else if mems ! i = p then pf_loop p (i + 1) (take i mems @ drop (i + 1) mems)
      else pf_loop p (i + 1) mems)"
  by pat_completeness auto

termination
  by (relation "measure (\<lambda>(p, i, mems). length mems + 1 - i)") auto

declare pf_loop.simps [simp del]

definition primary_failure :: "rsm_client \<Rightarrow> rsm_client res" where
  "primary_failure c = res_bind (pf_loop (rcl_primary c) 0 (rcl_mems c))
     (\<lambda>mems. if mems = [] then Inl Undefined_behaviour else Inr \<lparr>rcl_primary = hd mems, rcl_mems = mems\<rparr>)"

definition init_members :: "string list outcome \<Rightarrow> rsm_client \<Rightarrow> (bool \<times> rsm_client) res" where
  "init_members out c =
     (case out of
        Unbound \<Rightarrow> Inr (False, c)
      | Returned ret new_view \<Rightarrow>
          if ret \<noteq> rsm_OK then Inr (False, c)
          else if new_view = [] then Inl Verify_failed
          else Inr (True, \<lparr>rcl_primary = last new_view, rcl_mems = butlast new_view\<rparr>))"

definition rsm_client_new :: "string \<Rightarrow> string list outcome \<Rightarrow> rsm_client res" where
  "rsm_client_new dst out = res_bind (init_members out \<lparr>rcl_primary = dst, rcl_mems = []\<rparr>)
     (\<lambda>(b, c). if b then Inr c else Inl Verify_failed)"

subsection \<open>Invocations\<close>

text \<open>One round of \<^verbatim>\<open>invoke\<close>: \<open>out\<close> is the outcome of the invocation at the primary, \<open>mem\<close> that of the
  request for the members, if it is made. The mutex is free during both calls: \<open>e1\<close> and \<open>e2\<close> are
  what other threads make of the client meanwhile.\<close>

definition invoke_round :: "string outcome \<Rightarrow> (rsm_client \<Rightarrow> rsm_client) \<Rightarrow> string list outcome
    \<Rightarrow> (rsm_client \<Rightarrow> rsm_client) \<Rightarrow> rsm_client \<Rightarrow> ((int \<times> string) option \<times> rsm_client) res" where
  "invoke_round out e1 mem e2 c =
     (let c = e1 c;
          prim_fail = (\<lambda>c. res_bind (primary_failure c) (\<lambda>c. Inr (None, c)))
      in case out of
          Unbound \<Rightarrow> prim_fail c
        | Returned ret rep \<Rightarrow>
            if ret = rsm_client_OK then Inr (Some (ret, rep), c)
            else if ret = rsm_client_BUSY then Inr (None, c)
            else if ret = rsm_client_NOTPRIMARY
              then res_bind (init_members mem (e2 c)) (\<lambda>(b, c). if b then Inr (None, c) else prim_fail c)
            else prim_fail c)"

text \<open>\<open>net k p\<close>: how node \<open>p\<close> answers in round \<open>k\<close>; the request for the members goes to the node that
  is the primary by then.\<close>

fun rsm_client_invoke :: "nat \<Rightarrow> (nat \<Rightarrow> string \<Rightarrow> string outcome \<times> string list outcome)
    \<Rightarrow> (nat \<Rightarrow> rsm_client \<Rightarrow> rsm_client) \<Rightarrow> (nat \<Rightarrow> rsm_client \<Rightarrow> rsm_client) \<Rightarrow> nat \<Rightarrow> rsm_client
    \<Rightarrow> ((int \<times> string) \<times> rsm_client) res option" where
  "rsm_client_invoke 0 net e1 e2 k c = None"
| "rsm_client_invoke (Suc fuel) net e1 e2 k c =
     (case invoke_round (fst (net k (rcl_primary c))) (e1 k) (snd (net k (rcl_primary (e1 k c)))) (e2 k) c of
        Inl e \<Rightarrow> Some (Inl e)
      | Inr (Some r, c) \<Rightarrow> Some (Inr (r, c))
      | Inr (None, c) \<Rightarrow> rsm_client_invoke fuel net e1 e2 (k + 1) c)"

text \<open>\<^verbatim>\<open>call_m\<close> after \<^verbatim>\<open>invoke\<close> has returned\<close>

definition rcall_m :: "(unmarshall \<Rightarrow> 'r \<times> unmarshall) \<Rightarrow> int \<times> string \<Rightarrow> (int \<times> 'r option) res" where
  "rcall_m getr = (\<lambda>(intret, rep).
     if intret \<noteq> rsm_client_OK then Inl Verify_failed
     else let (intret, u) = get_int (take_content rep)
       in if intret < 0 then Inr (intret, None)
          else let (res, u) = get_string u
            in if \<not> okdone u then Inl Verify_failed
               else let (r, u1) = getr (take_content res)
                 in if \<not> okdone u1 then Inl Verify_failed else Inr (intret, Some r))"

text \<open>The request strings of the templates \<^verbatim>\<open>call\<close>\<close>

definition rcall_args1 :: "('a \<Rightarrow> marshall \<Rightarrow> marshall) \<Rightarrow> 'a \<Rightarrow> string" where
  "rcall_args1 p1 a1 = m_str (p1 a1 marshall_new)"

definition rcall_args2 :: "('a \<Rightarrow> marshall \<Rightarrow> marshall) \<Rightarrow> ('b \<Rightarrow> marshall \<Rightarrow> marshall) \<Rightarrow> 'a \<Rightarrow> 'b \<Rightarrow> string" where
  "rcall_args2 p1 p2 a1 a2 = m_str (p2 a2 (p1 a1 marshall_new))"

definition rcall_args3 :: "('a \<Rightarrow> marshall \<Rightarrow> marshall) \<Rightarrow> ('b \<Rightarrow> marshall \<Rightarrow> marshall)
    \<Rightarrow> ('c \<Rightarrow> marshall \<Rightarrow> marshall) \<Rightarrow> 'a \<Rightarrow> 'b \<Rightarrow> 'c \<Rightarrow> string" where
  "rcall_args3 p1 p2 p3 a1 a2 a3 = m_str (p3 a3 (p2 a2 (p1 a1 marshall_new)))"

definition rcall_args4 :: "('a \<Rightarrow> marshall \<Rightarrow> marshall) \<Rightarrow> ('b \<Rightarrow> marshall \<Rightarrow> marshall)
    \<Rightarrow> ('c \<Rightarrow> marshall \<Rightarrow> marshall) \<Rightarrow> ('d \<Rightarrow> marshall \<Rightarrow> marshall) \<Rightarrow> 'a \<Rightarrow> 'b \<Rightarrow> 'c \<Rightarrow> 'd \<Rightarrow> string" where
  "rcall_args4 p1 p2 p3 p4 a1 a2 a3 a4 = m_str (p4 a4 (p3 a3 (p2 a2 (p1 a1 marshall_new))))"

definition rcall_args5 :: "('a \<Rightarrow> marshall \<Rightarrow> marshall) \<Rightarrow> ('b \<Rightarrow> marshall \<Rightarrow> marshall)
    \<Rightarrow> ('c \<Rightarrow> marshall \<Rightarrow> marshall) \<Rightarrow> ('d \<Rightarrow> marshall \<Rightarrow> marshall) \<Rightarrow> ('e \<Rightarrow> marshall \<Rightarrow> marshall)
    \<Rightarrow> 'a \<Rightarrow> 'b \<Rightarrow> 'c \<Rightarrow> 'd \<Rightarrow> 'e \<Rightarrow> string" where
  "rcall_args5 p1 p2 p3 p4 p5 a1 a2 a3 a4 a5 = m_str (p5 a5 (p4 a4 (p3 a3 (p2 a2 (p1 a1 marshall_new)))))"

subsection \<open>Failure of the primary\<close>

lemma pf_loop_skip: "i \<le> length mems \<Longrightarrow> p \<notin> set (drop i mems) \<Longrightarrow> pf_loop p i mems = Inr mems"
proof (induction p i mems rule: pf_loop.induct)
  case (1 p i mems)
  show ?case
  proof (cases "i = length mems")
    case False
    then have "i < length mems" "drop i mems = mems ! i # drop (i + 1) mems" using 1(3) by (simp_all add: Cons_nth_drop_Suc)
    then show ?thesis using 1(2) [OF False] 1(4) False by (subst pf_loop.simps) auto
  qed (simp add: pf_loop.simps)
qed

lemma pf_loop_erase:
  assumes "p \<notin> set xs" "p \<notin> set ys" "i \<le> length xs"
  shows "pf_loop p i (xs @ p # ys) = (if ys = [] then Inl Undefined_behaviour else Inr (xs @ ys))"
  using assms(3)
proof (induction "length xs - i" arbitrary: i)
  case 0
  then have "i = length xs" by simp
  then have "pf_loop p i (xs @ p # ys) = pf_loop p (i + 1) (xs @ ys)" by (subst pf_loop.simps) simp
  also have "\<dots> = (if ys = [] then Inl Undefined_behaviour else Inr (xs @ ys))"
  proof (cases ys)
    case Nil
    then show ?thesis using \<open>i = length xs\<close> by (subst pf_loop.simps) simp
  next
    case (Cons y zs)
    then show ?thesis using \<open>i = length xs\<close> assms(2) by (subst pf_loop_skip) auto
  qed
  finally show ?case .
next
  case (Suc n)
  then have "xs ! i \<noteq> p" using assms(1) nth_mem [of i xs] by auto
  then have "pf_loop p i (xs @ p # ys) = pf_loop p (i + 1) (xs @ p # ys)"
    using Suc.hyps(2) by (subst pf_loop.simps) (auto simp: nth_append)
  then show ?case using Suc.hyps(1) [of "i + 1"] Suc.hyps(2) by simp
qed

lemma primary_failure_erase:
  assumes "rcl_mems c = xs @ rcl_primary c # ys" "rcl_primary c \<notin> set xs" "rcl_primary c \<notin> set ys"
  shows "primary_failure c = (if ys = [] then Inl Undefined_behaviour
     else Inr \<lparr>rcl_primary = hd (xs @ ys), rcl_mems = xs @ ys\<rparr>)"
  using pf_loop_erase [OF assms(2,3), of 0] assms(1) by (simp add: primary_failure_def)

lemma primary_failure_absent:
  "rcl_primary c \<notin> set (rcl_mems c) \<Longrightarrow> primary_failure c =
     (if rcl_mems c = [] then Inl Undefined_behaviour else Inr \<lparr>rcl_primary = hd (rcl_mems c), rcl_mems = rcl_mems c\<rparr>)"
  by (simp add: primary_failure_def pf_loop_skip)

fun failures :: "nat \<Rightarrow> rsm_client \<Rightarrow> rsm_client res" where
  "failures 0 c = Inr c"
| "failures (Suc n) c = res_bind (primary_failure c) (failures n)"

lemma failures_tail:
  "distinct ms \<Longrightarrow> ms \<noteq> [] \<Longrightarrow> failures n \<lparr>rcl_primary = hd ms, rcl_mems = ms\<rparr> =
     (if n < length ms then Inr \<lparr>rcl_primary = ms ! n, rcl_mems = drop n ms\<rparr> else Inl Undefined_behaviour)"
proof (induction n arbitrary: ms)
  case (Suc n)
  then obtain m xs where ms: "ms = m # xs" by (cases ms) auto
  then have "primary_failure \<lparr>rcl_primary = hd ms, rcl_mems = ms\<rparr>
      = (if xs = [] then Inl Undefined_behaviour else Inr \<lparr>rcl_primary = hd xs, rcl_mems = xs\<rparr>)"
    using Suc.prems primary_failure_erase [of "\<lparr>rcl_primary = hd ms, rcl_mems = ms\<rparr>" "[]" xs] by simp
  then show ?case using Suc ms by simp
qed (simp add: hd_conv_nth)



subsection \<open>Progress\<close>

lemmas client_codes = rsm_client_OK_def rsm_client_BUSY_def rsm_client_NOTPRIMARY_def

text \<open>Without interference by other threads\<close>

abbreviation lone_invoke :: "nat \<Rightarrow> (nat \<Rightarrow> string \<Rightarrow> string outcome \<times> string list outcome) \<Rightarrow> nat \<Rightarrow> rsm_client
    \<Rightarrow> ((int \<times> string) \<times> rsm_client) res option" where
  "lone_invoke fuel net k c \<equiv> rsm_client_invoke fuel net (\<lambda>_ c. c) (\<lambda>_ c. c) k c"

lemma invoke_busy:
  assumes "\<And>j. j < n \<Longrightarrow> \<exists>r. fst (net (k + j) (rcl_primary c)) = Returned rsm_client_BUSY r"
  shows "lone_invoke (n + fuel) net k c = lone_invoke fuel net (k + n) c"
  using assms
proof (induction n arbitrary: k)
  case (Suc n)
  obtain r where "fst (net k (rcl_primary c)) = Returned rsm_client_BUSY r" using Suc.prems [of 0] by auto
  then have "lone_invoke (Suc n + fuel) net k c = lone_invoke (n + fuel) net (Suc k) c"
    by (simp add: invoke_round_def client_codes)
  also have "\<dots> = lone_invoke fuel net (Suc k + n) c" using Suc.prems [of "Suc j" for j] by (intro Suc.IH) simp
  finally show ?case by simp
qed simp

lemma invoke_redirect:
  assumes "net k (rcl_primary c) = (Returned rsm_client_NOTPRIMARY r, Returned rsm_OK (mems @ [q]))"
  shows "lone_invoke (Suc fuel) net k c = lone_invoke fuel net (k + 1) \<lparr>rcl_primary = q, rcl_mems = mems\<rparr>"
  using assms by (simp add: invoke_round_def init_members_def client_codes)

text \<open>(C20) An invocation returns: if the primary is busy for \<open>n\<close> rounds, then sends the client to another
  primary \<open>q\<close>, and \<open>q\<close> is busy for \<open>m\<close> rounds and then executes the request, the loop ends after
  \<open>n + m + 2\<close> rounds with the reply of \<open>q\<close>, and more fuel does not change the result.\<close>

theorem invoke_returns:
  assumes "\<forall>j < n. \<exists>r. fst (net j (rcl_primary c)) = Returned rsm_client_BUSY r"
    and "net n (rcl_primary c) = (Returned rsm_client_NOTPRIMARY r0, Returned rsm_OK (mems @ [q]))"
    and "\<forall>j < m. \<exists>r. fst (net (n + 1 + j) q) = Returned rsm_client_BUSY r"
    and "fst (net (n + 1 + m) q) = Returned rsm_client_OK rep"
  shows "rsm_client_invoke (n + m + 2 + f) net (\<lambda>_ c. c) (\<lambda>_ c. c) 0 c
     = Some (Inr ((rsm_client_OK, rep), \<lparr>rcl_primary = q, rcl_mems = mems\<rparr>))"
proof -
  let ?c = "\<lparr>rcl_primary = q, rcl_mems = mems\<rparr>"
  have "n + m + 2 + f = n + Suc (m + Suc f)" by simp
  then have "lone_invoke (n + m + 2 + f) net 0 c = lone_invoke (Suc (m + Suc f)) net n c"
    using invoke_busy [of n net 0 c "Suc (m + Suc f)"] assms(1) by (simp only: add_0)
  also have "\<dots> = lone_invoke (m + Suc f) net (n + 1) ?c"
    using assms(2) by (rule invoke_redirect)
  also have "\<dots> = lone_invoke (Suc f) net (n + 1 + m) ?c" using invoke_busy [of m net "n + 1" ?c "Suc f"] assms(3) by simp
  also have "\<dots> = Some (Inr ((rsm_client_OK, rep), ?c))" using assms(4) by (simp add: invoke_round_def)
  finally show ?thesis .
qed

theorem invoke_returns_witness:
  "rsm_client_invoke 3 (\<lambda>k p. if p = ''q'' then (Returned rsm_client_OK ''ok'', Unbound)
       else if k = 0 then (Returned rsm_client_BUSY '''', Unbound)
       else (Returned rsm_client_NOTPRIMARY '''', Returned rsm_OK [''q''])) (\<lambda>_ c. c) (\<lambda>_ c. c) 0
     \<lparr>rcl_primary = ''p'', rcl_mems = []\<rparr>
   = Some (Inr ((rsm_client_OK, ''ok''), \<lparr>rcl_primary = ''q'', rcl_mems = []\<rparr>))"
  using invoke_returns [where n = 1 and m = 0 and q = "''q''" and mems = "[]" and c = "\<lparr>rcl_primary = ''p'', rcl_mems = []\<rparr>"
    and net = "\<lambda>k p. if p = ''q'' then (Returned rsm_client_OK ''ok'', Unbound)
       else if k = 0 then (Returned rsm_client_BUSY '''', Unbound)
       else (Returned rsm_client_NOTPRIMARY '''', Returned rsm_OK [''q''])" and f = 0 and rep = "''ok''" and ?r0.0 = "''''"]
  by (simp add: numeral_3_eq_3)

end
