(* ===== verification/Pool.thy ===== *)
theory Pool
  imports Prelude "HOL-Library.Multiset"
begin

text \<open>
  The bounded queue \<^verbatim>\<open>rpc/fifo.h\<close> and the thread pool \<^verbatim>\<open>rpc/thr_pool.cc\<close> on top of it. An operation that may
  wait on a condition variable is one attempt made with the mutex held; it returns \<open>None\<close> when the thread
  goes to sleep. Signals are counted explicitly, so that a lost wake-up would be visible.
\<close>

subsection \<open>The queue\<close>

record 'a fifo =
  fq_q :: "'a list"
  fq_max :: u32

definition fifo_new :: "int \<Rightarrow> 'a fifo" where
  "fifo_new limit = \<lparr>fq_q = [], fq_max = word_of_int limit\<rparr>"

text \<open>The result type is \<^verbatim>\<open>bool\<close>.\<close>

definition fifo_size :: "'a fifo \<Rightarrow> bool" where
  "fifo_size f \<longleftrightarrow> length (fq_q f) \<noteq> 0"

definition has_space :: "'a fifo \<Rightarrow> bool" where
  "has_space f \<longleftrightarrow> fq_max f = 0 \<or> length (fq_q f) < unat (fq_max f)"

text \<open>One turn of the loop in \<^verbatim>\<open>enq\<close>; \<open>Some True\<close> comes with a signal on \<^verbatim>\<open>non_empty_c_\<close>.\<close>

definition enq :: "'a \<Rightarrow> bool \<Rightarrow> 'a fifo \<Rightarrow> bool option \<times> 'a fifo" where
  "enq e blocking f =
     (if has_space f then (Some True, f\<lparr>fq_q := fq_q f @ [e]\<rparr>)
      else if blocking then (None, f)
      else (Some False, f))"

text \<open>One turn of the loop in \<^verbatim>\<open>deq\<close>, and whether it signals \<^verbatim>\<open>has_space_c_\<close>\<close>

definition deq :: "'a fifo \<Rightarrow> ('a \<times> bool) option \<times> 'a fifo" where
  "deq f = (case fq_q f of
      [] \<Rightarrow> (None, f)
    | e # es \<Rightarrow> let f = f\<lparr>fq_q := es\<rparr> in (Some (e, fq_max f \<noteq> 0 \<and> has_space f), f))"

subsection \<open>Threads at the queue\<close>

text \<open>Producers and consumers are either awake, about to make an attempt, or asleep on their condition
  variable. A signal wakes one sleeper, if there is one; sleepers may also wake up for no reason.\<close>

record 'a fifo_sys =
  fs_fifo :: "'a fifo"
  fs_enq_awake :: "'a list"
  fs_enq_asleep :: "'a list"
  fs_deq_awake :: nat
  fs_deq_asleep :: nat
  fs_in :: "'a list"
  fs_out :: "'a list"

definition signal_deq :: "'a fifo_sys \<Rightarrow> 'a fifo_sys" where
  "signal_deq s = (if fs_deq_asleep s = 0 then s
     else s\<lparr>fs_deq_asleep := fs_deq_asleep s - 1, fs_deq_awake := fs_deq_awake s + 1\<rparr>)"

inductive fifo_system :: "int \<Rightarrow> 'a fifo_sys \<Rightarrow> bool" for limit where
  fs_start: "fifo_system limit \<lparr>fs_fifo = fifo_new limit, fs_enq_awake = [], fs_enq_asleep = [],
    fs_deq_awake = 0, fs_deq_asleep = 0, fs_in = [], fs_out = []\<rparr>"
| fs_enq_call: "fifo_system limit s \<Longrightarrow> fifo_system limit (s\<lparr>fs_enq_awake := e # fs_enq_awake s\<rparr>)"
| fs_enq_wake: "fifo_system limit s \<Longrightarrow> fs_enq_asleep s = es @ e # es' \<Longrightarrow>
    fifo_system limit (s\<lparr>fs_enq_asleep := es @ es', fs_enq_awake := e # fs_enq_awake s\<rparr>)"
| fs_enq_done: "fifo_system limit s \<Longrightarrow> fs_enq_awake s = es @ e # es' \<Longrightarrow> enq e True (fs_fifo s) = (Some b, f) \<Longrightarrow>
    fifo_system limit (signal_deq (s\<lparr>fs_enq_awake := es @ es', fs_fifo := f, fs_in := fs_in s @ [e]\<rparr>))"
| fs_enq_wait: "fifo_system limit s \<Longrightarrow> fs_enq_awake s = es @ e # es' \<Longrightarrow> enq e True (fs_fifo s) = (None, f) \<Longrightarrow>
    fifo_system limit (s\<lparr>fs_enq_awake := es @ es', fs_enq_asleep := e # fs_enq_asleep s\<rparr>)"
| fs_enq_now: "fifo_system limit s \<Longrightarrow> enq e False (fs_fifo s) = (Some True, f) \<Longrightarrow>
    fifo_system limit (signal_deq (s\<lparr>fs_fifo := f, fs_in := fs_in s @ [e]\<rparr>))"
| fs_deq_call: "fifo_system limit s \<Longrightarrow> fifo_system limit (s\<lparr>fs_deq_awake := fs_deq_awake s + 1\<rparr>)"
| fs_deq_wake: "fifo_system limit s \<Longrightarrow> fifo_system limit (signal_deq s)"
| fs_deq_wait: "fifo_system limit s \<Longrightarrow> 0 < fs_deq_awake s \<Longrightarrow> deq (fs_fifo s) = (None, f) \<Longrightarrow>
    fifo_system limit (s\<lparr>fs_deq_awake := fs_deq_awake s - 1, fs_deq_asleep := fs_deq_asleep s + 1\<rparr>)"
| fs_deq_quiet: "fifo_system limit s \<Longrightarrow> 0 < fs_deq_awake s \<Longrightarrow> deq (fs_fifo s) = (Some (e, sig), f) \<Longrightarrow>
    \<not> sig \<or> fs_enq_asleep s = [] \<Longrightarrow>
    fifo_system limit (s\<lparr>fs_deq_awake := fs_deq_awake s - 1, fs_fifo := f, fs_out := fs_out s @ [e]\<rparr>)"
| fs_deq_signal: "fifo_system limit s \<Longrightarrow> 0 < fs_deq_awake s \<Longrightarrow> deq (fs_fifo s) = (Some (e, True), f) \<Longrightarrow>
    fs_enq_asleep s = ps @ p # ps' \<Longrightarrow>
    fifo_system limit (s\<lparr>fs_deq_awake := fs_deq_awake s - 1, fs_fifo := f, fs_out := fs_out s @ [e],
      fs_enq_asleep := ps @ ps', fs_enq_awake := p # fs_enq_awake s\<rparr>)"

definition fifo_inv :: "int \<Rightarrow> 'a fifo_sys \<Rightarrow> bool" where
  "fifo_inv limit s \<longleftrightarrow> (let f = fs_fifo s in
     fq_max f = word_of_int limit
     \<and> (fq_max f \<noteq> 0 \<longrightarrow> length (fq_q f) \<le> unat (fq_max f))
     \<and> fs_in s = fs_out s @ fq_q f
     \<and> (fs_deq_asleep s = 0 \<or> length (fq_q f) \<le> fs_deq_awake s)
     \<and> (fs_enq_asleep s = [] \<or> fq_max f \<noteq> 0 \<and> unat (fq_max f) - length (fq_q f) \<le> length (fs_enq_awake s)))"

lemma enq_cases:
  "enq e b f = (Some True, f') \<Longrightarrow> f' = f\<lparr>fq_q := fq_q f @ [e]\<rparr> \<and> has_space f"
  "enq e True f = (Some b', f') \<Longrightarrow> f' = f\<lparr>fq_q := fq_q f @ [e]\<rparr> \<and> has_space f"
  "enq e True f = (None, f') \<Longrightarrow> \<not> has_space f"
  by (auto simp: enq_def split: if_splits)

lemma deq_cases:
  "deq f = (None, f') \<Longrightarrow> fq_q f = []"
  "deq f = (Some (e, sig), f') \<Longrightarrow> fq_q f = e # fq_q f' \<and> f' = f\<lparr>fq_q := fq_q f'\<rparr> \<and> (sig \<longleftrightarrow> fq_max f \<noteq> 0 \<and> has_space f')"
  by (auto simp: deq_def Let_def split: list.splits)

lemma fifo_inv_signal: "fifo_inv limit (signal_deq s)" if "fifo_inv limit s"
  using that by (auto simp: fifo_inv_def signal_deq_def Let_def)
lemma fifo_inv_push:
  assumes "fifo_inv limit s" "has_space (fs_fifo s)" "length (fs_enq_awake s) \<le> length es + 1"
  shows "fifo_inv limit (signal_deq (s\<lparr>fs_enq_awake := es, fs_fifo := (fs_fifo s)\<lparr>fq_q := fq_q (fs_fifo s) @ [e]\<rparr>,
     fs_in := fs_in s @ [e]\<rparr>))"
  using assms by (auto simp: fifo_inv_def signal_deq_def has_space_def Let_def)

lemma fifo_inv_pop:
  assumes "fifo_inv limit s" "0 < fs_deq_awake s" "fq_q (fs_fifo s) = e # q"
    and "ps = [] \<or> fs_enq_asleep s \<noteq> [] \<and> Suc (length (fs_enq_awake s)) \<le> length qs"
  shows "fifo_inv limit (s\<lparr>fs_deq_awake := fs_deq_awake s - 1, fs_fifo := (fs_fifo s)\<lparr>fq_q := q\<rparr>,
     fs_out := fs_out s @ [e], fs_enq_asleep := ps, fs_enq_awake := qs\<rparr>)"
  using assms by (auto simp: fifo_inv_def Let_def)

lemma fifo_system_inv: "fifo_system limit s \<Longrightarrow> fifo_inv limit s"
proof (induction rule: fifo_system.induct)
  case fs_start
  then show ?case by (simp add: fifo_inv_def fifo_new_def)
next
  case (fs_enq_call s e)
  then show ?case by (auto simp: fifo_inv_def Let_def)
next
  case (fs_enq_wake s es e es')
  then show ?case by (auto simp: fifo_inv_def Let_def)
next
  case (fs_enq_done s es e es' b f)
  then show ?case using fifo_inv_push [OF fs_enq_done.IH, of "es @ es'" e] enq_cases(2) by fastforce
next
  case (fs_enq_wait s es e es' f)
  then show ?case using enq_cases(3) [OF fs_enq_wait.hyps(3)] by (auto simp: fifo_inv_def has_space_def Let_def)
next
  case (fs_enq_now s e f)
  then show ?case using fifo_inv_push [OF fs_enq_now.IH, of "fs_enq_awake s" e] enq_cases(1) by fastforce
next
  case (fs_deq_call s)
  then show ?case by (auto simp: fifo_inv_def Let_def)
next
  case (fs_deq_wake s)
  then show ?case by (simp add: fifo_inv_signal)
next
  case (fs_deq_wait s f)
  then show ?case using deq_cases(1) [OF fs_deq_wait.hyps(3)] by (auto simp: fifo_inv_def Let_def)
next
  case (fs_deq_quiet s e sig f)
  have f: "fq_q (fs_fifo s) = e # fq_q f" "f = (fs_fifo s)\<lparr>fq_q := fq_q f\<rparr>" "sig \<longleftrightarrow> fq_max (fs_fifo s) \<noteq> 0 \<and> has_space f"
    using deq_cases(2) [OF fs_deq_quiet.hyps(3)] by simp_all
  have "fs_enq_asleep s = []"
  proof (rule ccontr)
    assume "fs_enq_asleep s \<noteq> []"
    then have "fq_max (fs_fifo s) \<noteq> 0" "length (fq_q f) < unat (fq_max (fs_fifo s))"
      using fs_deq_quiet.IH f(1) by (auto simp: fifo_inv_def Let_def)
    moreover have "fq_max f = fq_max (fs_fifo s)" using f(2) by (metis fifo.ext_inject fifo.surjective fifo.update_convs(1))
    ultimately show False using f(3) fs_deq_quiet.hyps(4) \<open>fs_enq_asleep s \<noteq> []\<close> by (simp add: has_space_def)
  qed
  then show ?case using fifo_inv_pop [OF fs_deq_quiet.IH fs_deq_quiet.hyps(2) f(1), of "[]" "fs_enq_awake s"] f(2)
    by (auto simp: fifo_inv_def Let_def)
next
  case (fs_deq_signal s e f ps p ps')
  then show ?case using fifo_inv_pop [OF fs_deq_signal.IH fs_deq_signal.hyps(2), of e "fq_q f" "ps @ ps'" "p # fs_enq_awake s"]
    deq_cases(2) [OF fs_deq_signal.hyps(3)] by simp
qed


text \<open>(C27) The queue is a bounded FIFO without lost wake-ups: elements come out in the order in which they went
  in, a bounded queue never exceeds its bound, there are never fewer threads awake in \<^verbatim>\<open>deq\<close> than elements
  while another sleeps there, and never fewer threads awake in \<^verbatim>\<open>enq\<close> than free places while another
  sleeps there.\<close>

theorem fifo_no_lost_wakeup:
  assumes "fifo_system limit s"
  shows "fs_in s = fs_out s @ fq_q (fs_fifo s)
     \<and> (word_of_int limit = (0 :: u32) \<or> length (fq_q (fs_fifo s)) \<le> unat (word_of_int limit :: u32))
     \<and> (fs_deq_asleep s = 0 \<or> length (fq_q (fs_fifo s)) \<le> fs_deq_awake s)
     \<and> (fs_enq_asleep s = [] \<or> unat (word_of_int limit :: u32) - length (fq_q (fs_fifo s)) \<le> length (fs_enq_awake s))"
  using fifo_system_inv [OF assms] by (auto simp: fifo_inv_def Let_def)

lemma fifo_sample: "\<exists>s :: nat fifo_sys. fifo_system 1 s \<and> fs_enq_asleep s = [8] \<and> fs_in s = [7]"
proof -
  let ?n = "\<lambda>f as sl inn. \<lparr>fs_fifo = f, fs_enq_awake = as, fs_enq_asleep = sl, fs_deq_awake = 0, fs_deq_asleep = 0,
    fs_in = inn, fs_out = []\<rparr> :: nat fifo_sys"
  let ?f = "\<lparr>fq_q = [7], fq_max = 1\<rparr> :: nat fifo"
  have "fifo_system 1 (?n (fifo_new 1) [7] [] [])" using fs_enq_call [OF fs_start, of 1 7] by simp
  then have "fifo_system 1 (?n ?f [] [] [7])"
    using fs_enq_done [of 1 "?n (fifo_new 1) [7] [] []" "[]" 7 "[]" True ?f]
    by (simp add: enq_def has_space_def fifo_new_def signal_deq_def)
  then have "fifo_system 1 (?n ?f [8] [] [7])" using fs_enq_call [of 1 "?n ?f [] [] [7]" 8] by simp
  then have "fifo_system 1 (?n ?f [] [8] [7])"
    using fs_enq_wait [of 1 "?n ?f [8] [] [7]" "[]" 8 "[]" ?f] by (simp add: enq_def has_space_def)
  then show ?thesis by (intro exI [of _ "?n ?f [] [8] [7]"]) simp
qed

theorem fifo_no_lost_wakeup_witness:
  "\<exists>s :: nat fifo_sys. fifo_system 1 s \<and> fs_enq_asleep s = [8] \<and> fs_in s = fs_out s @ fq_q (fs_fifo s)
     \<and> 1 - length (fq_q (fs_fifo s)) \<le> length (fs_enq_awake s)"
proof -
  obtain s :: "nat fifo_sys" where s: "fifo_system 1 s" "fs_enq_asleep s = [8]" using fifo_sample by blast
  then show ?thesis using fifo_no_lost_wakeup [OF s(1)] by (intro exI [of _ s]) simp
qed

subsection \<open>The thread pool\<close>

text \<open>A job is \<open>Some j\<close>; the null pointer \<open>None\<close> tells a worker to exit.\<close>

datatype 'j worker = Idle | Running 'j | Dead

record 'j pool =
  tp_blockadd :: bool
  tp_jobq :: "'j option fifo"
  tp_th :: "'j worker list"
  tp_pills :: "nat option"
  tp_added :: "'j list"
  tp_finished :: "'j multiset"

definition pool_new :: "nat \<Rightarrow> bool \<Rightarrow> 'j pool" where
  "pool_new sz blocking = \<lparr>tp_blockadd = blocking, tp_jobq = fifo_new (100 * int sz), tp_th = replicate sz Idle,
     tp_pills = None, tp_added = [], tp_finished = {#}\<rparr>"

definition addJob :: "'j \<Rightarrow> 'j pool \<Rightarrow> bool option \<times> 'j pool" where
  "addJob j t = (let (r, q) = enq (Some j) (tp_blockadd t) (tp_jobq t)
     in (r, t\<lparr>tp_jobq := q, tp_added := (if r = Some True then tp_added t @ [j] else tp_added t)\<rparr>))"

definition takeJob :: "'j pool \<Rightarrow> 'j option option \<times> 'j pool" where
  "takeJob t = (let (r, q) = deq (tp_jobq t) in (map_option fst r, t\<lparr>tp_jobq := q\<rparr>))"

text \<open>A turn of \<^verbatim>\<open>do_worker\<close> up to the call of the job, and the return from it\<close>

definition do_worker_take :: "nat \<Rightarrow> 'j pool \<Rightarrow> 'j pool" where
  "do_worker_take i t = (case takeJob t of
      (None, t) \<Rightarrow> t
    | (Some None, t) \<Rightarrow> t\<lparr>tp_th := (tp_th t)[i := Dead]\<rparr>
    | (Some (Some j), t) \<Rightarrow> t\<lparr>tp_th := (tp_th t)[i := Running j]\<rparr>)"

definition do_worker_done :: "nat \<Rightarrow> 'j \<Rightarrow> 'j pool \<Rightarrow> 'j pool" where
  "do_worker_done i j t = t\<lparr>tp_th := (tp_th t)[i := Idle], tp_finished := add_mset j (tp_finished t)\<rparr>"

text \<open>The destructor: a step of its first loop, and the condition under which the second one ends\<close>

definition pool_pill :: "'j pool \<Rightarrow> 'j pool" where
  "pool_pill t = (case tp_pills t of
      Some k \<Rightarrow> (case enq None True (tp_jobq t) of
          (Some b, q) \<Rightarrow> t\<lparr>tp_jobq := q, tp_pills := Some (k + 1)\<rparr>
        | (None, q) \<Rightarrow> t)
    | None \<Rightarrow> t)"

definition pool_joined :: "'j pool \<Rightarrow> bool" where
  "pool_joined t \<longleftrightarrow> tp_pills t = Some (length (tp_th t)) \<and> (\<forall>w \<in> set (tp_th t). w = Dead)"

text \<open>Once the destructor has started, nobody adds jobs, as the comment above it demands.\<close>

inductive pool_system :: "nat \<Rightarrow> bool \<Rightarrow> 'j pool \<Rightarrow> bool" for sz blocking where
  tp_start: "pool_system sz blocking (pool_new sz blocking)"
| tp_add: "pool_system sz blocking t \<Longrightarrow> tp_pills t = None \<Longrightarrow> pool_system sz blocking (snd (addJob j t))"
| tp_take: "pool_system sz blocking t \<Longrightarrow> i < length (tp_th t) \<Longrightarrow> tp_th t ! i = Idle \<Longrightarrow>
    pool_system sz blocking (do_worker_take i t)"
| tp_done: "pool_system sz blocking t \<Longrightarrow> i < length (tp_th t) \<Longrightarrow> tp_th t ! i = Running j \<Longrightarrow>
    pool_system sz blocking (do_worker_done i j t)"
| tp_destroy: "pool_system sz blocking t \<Longrightarrow> tp_pills t = None \<Longrightarrow> pool_system sz blocking (t\<lparr>tp_pills := Some 0\<rparr>)"
| tp_pill: "pool_system sz blocking t \<Longrightarrow> tp_pills t = Some k \<Longrightarrow> k < length (tp_th t) \<Longrightarrow>
    pool_system sz blocking (pool_pill t)"

fun load :: "'j worker \<Rightarrow> 'j option multiset" where
  "load Idle = {#}"
| "load (Running j) = {#Some j#}"
| "load Dead = {#None#}"

definition workload :: "'j worker list \<Rightarrow> 'j option multiset" where
  "workload ws = sum_list (map load ws)"

lemma workload_update: "i < length ws \<Longrightarrow> workload (ws[i := w]) + load (ws ! i) = workload ws + load w"
proof (induction ws arbitrary: i)
  case (Cons v ws)
  then show ?case by (cases i) (simp_all add: workload_def add.assoc add.commute add.left_commute)
qed simp

lemma workload_replicate [simp]:
  "workload (replicate n Idle) = {#}" "workload (replicate n Dead) = replicate_mset n None"
  by (induction n) (simp_all add: workload_def)

lemma count_Some_None [simp]: "count (image_mset Some M) None = 0"
  by (simp add: count_eq_zero_iff)

text \<open>Everything that entered the queue has been taken or is still there, and what has been taken is
  finished, running, or killed a worker.\<close>

definition pool_inv :: "nat \<Rightarrow> 'j pool \<Rightarrow> bool" where
  "pool_inv sz t \<longleftrightarrow> length (tp_th t) = sz \<and>
     (\<exists>taken. map Some (tp_added t) @ replicate (case tp_pills t of None \<Rightarrow> 0 | Some k \<Rightarrow> k) None = taken @ fq_q (tp_jobq t)
        \<and> mset taken = image_mset Some (tp_finished t) + workload (tp_th t))"

lemma pool_inv_take:
  assumes "pool_inv sz t" "i < length (tp_th t)" "tp_th t ! i = Idle" "deq (tp_jobq t) = (Some (x, sg), q)" "load w = {#x#}"
  shows "pool_inv sz (t\<lparr>tp_jobq := q, tp_th := (tp_th t)[i := w]\<rparr>)"
proof -
  obtain taken where t: "map Some (tp_added t) @ replicate (case tp_pills t of None \<Rightarrow> 0 | Some k \<Rightarrow> k) None = taken @ fq_q (tp_jobq t)"
    "mset taken = image_mset Some (tp_finished t) + workload (tp_th t)" using assms(1) by (auto simp: pool_inv_def)
  have "workload ((tp_th t)[i := w]) = workload (tp_th t) + {#x#}"
    using workload_update [OF assms(2), of w] assms(3,5) by simp
  then have "mset (taken @ [x]) = image_mset Some (tp_finished t) + workload ((tp_th t)[i := w])" using t(2) by simp
  moreover have "taken @ fq_q (tp_jobq t) = (taken @ [x]) @ fq_q q" using deq_cases(2) [OF assms(4)] by simp
  ultimately show ?thesis using assms(1) t(1) unfolding pool_inv_def
    by (intro conjI exI [of _ "taken @ [x]"]) simp_all
qed

lemma pool_inv_done:
  assumes "pool_inv sz t" "i < length (tp_th t)" "tp_th t ! i = Running j"
  shows "pool_inv sz (do_worker_done i j t)"
proof -
  have "workload ((tp_th t)[i := Idle]) + {#Some j#} = workload (tp_th t)"
    using workload_update [OF assms(2), of Idle] assms(3) by simp
  then have "image_mset Some (tp_finished t) + workload (tp_th t)
      = image_mset Some (add_mset j (tp_finished t)) + workload ((tp_th t)[i := Idle])" by (simp add: ac_simps flip: \<open>workload ((tp_th t)[i := Idle]) + {#Some j#} = workload (tp_th t)\<close>)
  then show ?thesis using assms(1) by (simp add: pool_inv_def do_worker_done_def)
qed

lemma pool_system_inv: "pool_system sz blocking t \<Longrightarrow> pool_inv sz t"
proof (induction rule: pool_system.induct)
  case tp_start
  then show ?case by (simp add: pool_inv_def pool_new_def fifo_new_def)
next
  case (tp_add t j)
  then show ?case by (auto simp: pool_inv_def addJob_def enq_def)
next
  case (tp_take t i)
  obtain r q where d: "deq (tp_jobq t) = (r, q)" by (cases "deq (tp_jobq t)")
  show ?case
  proof (cases r)
    case None
    then have "q = tp_jobq t" using d by (auto simp: deq_def Let_def split: list.splits)
    then show ?thesis using tp_take.IH d None by (simp add: do_worker_take_def takeJob_def)
  next
    case (Some x)
    then obtain y sg where x: "r = Some (y, sg)" by (cases x) simp
    have "load (case y of None \<Rightarrow> Dead | Some j \<Rightarrow> Running j) = {#y#}" by (cases y) simp_all
    from pool_inv_take [OF tp_take.IH tp_take.hyps(2,3) d [unfolded x] this] show ?thesis
      using d x by (cases y) (simp_all add: do_worker_take_def takeJob_def)
  qed
next
  case (tp_done t i j)
  then show ?case by (simp add: pool_inv_done)
next
  case (tp_destroy t)
  then show ?case by (simp add: pool_inv_def)
next
  case (tp_pill t k)
  then obtain taken where t: "map Some (tp_added t) @ replicate k None = taken @ fq_q (tp_jobq t)"
    "mset taken = image_mset Some (tp_finished t) + workload (tp_th t)" by (auto simp: pool_inv_def)
  have "map Some (tp_added t) @ replicate (Suc k) None = taken @ fq_q (tp_jobq t) @ [None]"
    using arg_cong [OF t(1), of "\<lambda>xs. xs @ [None]"] by (simp add: replicate_append_same)
  then show ?case using tp_pill t
    by (auto simp: pool_inv_def pool_pill_def enq_def simp del: replicate.simps)
qed

text \<open>(C26) Destroying a pool runs every job first: when the destructor returns, the jobs that were accepted are
  exactly the jobs that have been run to their end, each as often as it was added, and the queue is
  empty.\<close>

theorem pool_drains:
  assumes "pool_system sz blocking t" "0 < sz" "pool_joined t"
  shows "tp_finished t = mset (tp_added t) \<and> fq_q (tp_jobq t) = []"
proof -
  have th: "length (tp_th t) = sz" "tp_pills t = Some sz" "tp_th t = replicate sz Dead"
    using pool_system_inv [OF assms(1)] assms(3) by (auto simp: pool_inv_def pool_joined_def intro: replicate_eqI)
  then obtain taken where t: "map Some (tp_added t) @ replicate sz None = taken @ fq_q (tp_jobq t)"
    "mset taken = image_mset Some (tp_finished t) + workload (tp_th t)"
    using pool_system_inv [OF assms(1)] by (auto simp: pool_inv_def)
  have "count (mset taken) None = sz" using t(2) th(3) by simp
  moreover have "count (mset (map Some (tp_added t) @ replicate sz None)) None = sz" by simp
  ultimately have "None \<notin> set (fq_q (tp_jobq t))" using arg_cong [OF t(1), of "\<lambda>xs. count (mset xs) None"] by simp
  moreover have "last (map Some (tp_added t) @ replicate sz None) = None" using assms(2) by simp
  ultimately have e: "fq_q (tp_jobq t) = []" unfolding t(1) using last_in_set [of "fq_q (tp_jobq t)"] last_appendR [of "fq_q (tp_jobq t)" taken] by argo
  have "mset (map Some (tp_added t) @ replicate sz None) = mset taken" using t(1) e by simp
  then have "image_mset Some (mset (tp_added t)) = image_mset Some (tp_finished t)" using t(2) th(3) by simp
  then have "image_mset the (image_mset Some (mset (tp_added t))) = image_mset the (image_mset Some (tp_finished t))" by simp
  then have "tp_finished t = mset (tp_added t)" by (simp add: multiset.map_comp comp_def)
  then show ?thesis using e by simp
qed

theorem pool_drains_witness:
  "\<exists>t :: nat pool. pool_joined t \<and> tp_added t = [5] \<and> tp_finished t = {#5#}"
proof -
  let ?q = "\<lambda>xs. \<lparr>fq_q = xs, fq_max = 100\<rparr> :: nat option fifo"
  let ?t = "\<lambda>xs w k fin. \<lparr>tp_blockadd = True, tp_jobq = ?q xs, tp_th = [w], tp_pills = k, tp_added = [5], tp_finished = fin\<rparr> :: nat pool"
  have "pool_system 1 True (?t [Some 5] Idle None {#})"
    using tp_add [OF tp_start, of 1 True 5] by (simp add: pool_new_def addJob_def enq_def has_space_def fifo_new_def)
  then have "pool_system 1 True (?t [] (Running 5) None {#})"
    using tp_take [of 1 True "?t [Some 5] Idle None {#}" 0] by (simp add: do_worker_take_def takeJob_def deq_def Let_def)
  then have "pool_system 1 True (?t [] Idle None {#5#})"
    using tp_done [of 1 True "?t [] (Running 5) None {#}" 0 5] by (simp add: do_worker_done_def)
  then have "pool_system 1 True (?t [] Idle (Some 0) {#5#})" using tp_destroy [of 1 True "?t [] Idle None {#5#}"] by simp
  then have "pool_system 1 True (?t [None] Idle (Some 1) {#5#})"
    using tp_pill [of 1 True "?t [] Idle (Some 0) {#5#}" 0] by (simp add: pool_pill_def enq_def has_space_def)
  then have s: "pool_system 1 True (?t [] Dead (Some 1) {#5#})"
    using tp_take [of 1 True "?t [None] Idle (Some 1) {#5#}" 0] by (simp add: do_worker_take_def takeJob_def deq_def Let_def)
  have j: "pool_joined (?t [] Dead (Some 1) {#5#})" by (simp add: pool_joined_def)
  show ?thesis using pool_drains [OF s _ j] j by (intro exI [of _ "?t [] Dead (Some 1) {#5#}"]) simp
qed

end
