(* ===== verification/Handle.thy ===== *)
theory Handle
  imports Prelude
begin

text \<open>
  The cache of RPC connections, \<^verbatim>\<open>handle.h\<close> and \<^verbatim>\<open>handle.cc\<close>. The objects of type \<^verbatim>\<open>hinfo\<close> live in an
  explicit heap, a partial map from addresses; a use of a freed object is an error value. RPC clients
  are addresses, too, and the set of live ones is part of the state. \<^verbatim>\<open>safebind\<close> is cut at the call of
  \<^verbatim>\<open>bind\<close>, during which only \<^verbatim>\<open>cl_mutex\<close> is held.
\<close>

subsection \<open>Objects and operations\<close>

record hinfo =
  hi_cl :: "nat option"
  hi_refcnt :: int
  hi_del :: bool
  hi_m :: string

record handle_mgr =
  hm_heap :: "nat \<rightharpoonup> hinfo"
  hm_next :: nat
  hm_hmap :: "string \<rightharpoonup> nat"
  hm_rpcc :: "nat set"

definition handle_mgr_new :: handle_mgr where
  "handle_mgr_new = \<lparr>hm_heap = Map.empty, hm_next = 0, hm_hmap = Map.empty, hm_rpcc = {}\<rparr>"

definition deref :: "nat \<Rightarrow> handle_mgr \<Rightarrow> hinfo res" where
  "deref a s = (case hm_heap s a of None \<Rightarrow> Inl Undefined_behaviour | Some h \<Rightarrow> Inr h)"

definition store :: "nat \<Rightarrow> hinfo \<Rightarrow> handle_mgr \<Rightarrow> handle_mgr" where
  "store a h s = s\<lparr>hm_heap := (hm_heap s)(a \<mapsto> h)\<rparr>"

definition get_handle :: "string \<Rightarrow> handle_mgr \<Rightarrow> (nat option \<times> handle_mgr) res" where
  "get_handle m s =
     (case hm_hmap s m of
        None \<Rightarrow> let a = hm_next s;
                    s = store a \<lparr>hi_cl = None, hi_refcnt = 1, hi_del = False, hi_m = m\<rparr> (s\<lparr>hm_next := a + 1\<rparr>)
                in Inr (Some a, s\<lparr>hm_hmap := (hm_hmap s)(m \<mapsto> a)\<rparr>)
      | Some a \<Rightarrow> res_bind (deref a s) (\<lambda>h.
          if \<not> hi_del h then Inr (Some a, store a (h\<lparr>hi_refcnt := hi_refcnt h + 1\<rparr>) s) else Inr (None, s)))"

text \<open>\<^verbatim>\<open>safebind\<close> up to its return (\<open>Some\<close> the pointer it returns) or the call of \<^verbatim>\<open>bind\<close> (\<open>None\<close>)\<close>

definition safebind_begin :: "nat option \<Rightarrow> handle_mgr \<Rightarrow> nat option option res" where
  "safebind_begin p s =
     (case p of
        None \<Rightarrow> Inr (Some None)
      | Some a \<Rightarrow> res_bind (deref a s) (\<lambda>h.
          if hi_del h then Inr (Some None)
          else if hi_cl h \<noteq> None then Inr (Some (hi_cl h))
          else Inr None))"

text \<open>\<^verbatim>\<open>bind\<close> has returned \<open>ret\<close>.\<close>

definition safebind_end :: "nat \<Rightarrow> int \<Rightarrow> handle_mgr \<Rightarrow> (nat option \<times> handle_mgr) res" where
  "safebind_end a ret s = res_bind (deref a s) (\<lambda>h.
     if ret < 0 then Inr (hi_cl h, store a (h\<lparr>hi_del := True\<rparr>) s)
     else let cl = hm_next s
       in Inr (Some cl, store a (h\<lparr>hi_cl := Some cl\<rparr>) (s\<lparr>hm_next := cl + 1, hm_rpcc := insert cl (hm_rpcc s)\<rparr>)))"

definition delete_handle_wo :: "string \<Rightarrow> handle_mgr \<Rightarrow> handle_mgr res" where
  "delete_handle_wo m s =
     (case hm_hmap s m of
        None \<Rightarrow> Inr s
      | Some a \<Rightarrow> res_bind (deref a s) (\<lambda>h.
          if hi_refcnt h = 0
          then let s = (case hi_cl h of None \<Rightarrow> s | Some c \<Rightarrow> s\<lparr>hm_rpcc := hm_rpcc s - {c}\<rparr>)
            in Inr (s\<lparr>hm_hmap := (hm_hmap s)(m := None), hm_heap := (hm_heap s)(a := None)\<rparr>)
          else Inr (store a (h\<lparr>hi_del := True\<rparr>) s)))"

definition delete_handle :: "string \<Rightarrow> handle_mgr \<Rightarrow> handle_mgr res" where
  "delete_handle m s = delete_handle_wo m s"

definition done_handle :: "nat \<Rightarrow> handle_mgr \<Rightarrow> handle_mgr res" where
  "done_handle a s = res_bind (deref a s) (\<lambda>h.
     let h = h\<lparr>hi_refcnt := hi_refcnt h - 1\<rparr>; s = store a h s
     in if hi_refcnt h = 0 \<and> hi_del h then delete_handle_wo (hi_m h) s else Inr s)"

subsection \<open>Threads with handles\<close>

text \<open>The state of a handle object: \<^verbatim>\<open>safebind\<close> has not given a pointer, is in \<^verbatim>\<open>bind\<close>, or has returned a pointer.\<close>

datatype hstate = Unbound_handle | In_bind | Bound nat

inductive handle_system :: "handle_mgr \<Rightarrow> (nat \<times> hstate) list \<Rightarrow> bool" where
  hs_start: "handle_system handle_mgr_new []"
| hs_get: "handle_system s hs \<Longrightarrow> get_handle m s = Inr (Some a, s') \<Longrightarrow> handle_system s' ((a, Unbound_handle) # hs)"
| hs_null: "handle_system s hs \<Longrightarrow> get_handle m s = Inr (None, s') \<Longrightarrow> handle_system s' hs"
| hs_bind: "handle_system s (xs @ (a, st) # ys) \<Longrightarrow> (a, In_bind) \<notin> set (xs @ (a, st) # ys) \<Longrightarrow>
    safebind_begin (Some a) s = Inr None \<Longrightarrow> handle_system s (xs @ (a, In_bind) # ys)"
| hs_bound: "handle_system s (xs @ (a, st) # ys) \<Longrightarrow> (a, In_bind) \<notin> set (xs @ (a, st) # ys) \<Longrightarrow>
    safebind_begin (Some a) s = Inr (Some (Some c)) \<Longrightarrow> handle_system s (xs @ (a, Bound c) # ys)"
| hs_bind_ok: "handle_system s (xs @ (a, In_bind) # ys) \<Longrightarrow> safebind_end a ret s = Inr (Some c, s') \<Longrightarrow>
    handle_system s' (xs @ (a, Bound c) # ys)"
| hs_bind_failed: "handle_system s (xs @ (a, In_bind) # ys) \<Longrightarrow> safebind_end a ret s = Inr (None, s') \<Longrightarrow>
    handle_system s' (xs @ (a, Unbound_handle) # ys)"
| hs_done: "handle_system s (xs @ (a, st) # ys) \<Longrightarrow> st \<noteq> In_bind \<Longrightarrow> done_handle a s = Inr s' \<Longrightarrow>
    handle_system s' (xs @ ys)"
| hs_delete: "handle_system s hs \<Longrightarrow> delete_handle m s = Inr s' \<Longrightarrow> handle_system s' hs"

definition refs :: "nat \<Rightarrow> (nat \<times> hstate) list \<Rightarrow> int" where
  "refs a hs = int (length (filter (\<lambda>p. fst p = a) hs))"

text \<open>The invariant of one object and of the whole\<close>

definition hinfo_ok :: "handle_mgr \<Rightarrow> (nat \<times> hstate) list \<Rightarrow> nat \<Rightarrow> hinfo \<Rightarrow> bool" where
  "hinfo_ok s hs a h \<longleftrightarrow> a < hm_next s \<and> hi_refcnt h = refs a hs \<and> hm_hmap s (hi_m h) = Some a
     \<and> (hi_del h \<longrightarrow> refs a hs \<noteq> 0)
     \<and> (\<forall>c. hi_cl h = Some c \<longrightarrow> c \<in> hm_rpcc s \<and> c < hm_next s)
     \<and> (\<forall>c. (a, Bound c) \<in> set hs \<longrightarrow> hi_cl h = Some c)
     \<and> ((a, In_bind) \<in> set hs \<longrightarrow> hi_cl h = None)
     \<and> length (filter (\<lambda>p. p = (a, In_bind)) hs) \<le> 1"

definition handle_inv :: "handle_mgr \<Rightarrow> (nat \<times> hstate) list \<Rightarrow> bool" where
  "handle_inv s hs \<longleftrightarrow> (\<forall>a h. hm_heap s a = Some h \<longrightarrow> hinfo_ok s hs a h)
     \<and> (\<forall>m a. hm_hmap s m = Some a \<longrightarrow> (\<exists>h. hm_heap s a = Some h \<and> hi_m h = m))
     \<and> (\<forall>a st. (a, st) \<in> set hs \<longrightarrow> hm_heap s a \<noteq> None)
     \<and> (\<forall>a b h k c. hm_heap s a = Some h \<longrightarrow> hm_heap s b = Some k \<longrightarrow> hi_cl h = Some c \<longrightarrow> hi_cl k = Some c \<longrightarrow> a = b)"

text \<open>The handles on objects other than \<open>a\<close> are the same.\<close>

definition same_but :: "nat \<Rightarrow> (nat \<times> hstate) list \<Rightarrow> (nat \<times> hstate) list \<Rightarrow> bool" where
  "same_but a hs hs' \<longleftrightarrow> (\<forall>b. b \<noteq> a \<longrightarrow> filter (\<lambda>p. fst p = b) hs' = filter (\<lambda>p. fst p = b) hs)"

lemma refs_simps [simp]:
  "refs a [] = 0" "refs a (p # hs) = (if fst p = a then 1 else 0) + refs a hs" "refs a (xs @ ys) = refs a xs + refs a ys"
  by (simp_all add: refs_def)

lemma refs_zero: "refs a hs = 0 \<longleftrightarrow> (\<forall>st. (a, st) \<notin> set hs)"
  by (auto simp: refs_def filter_empty_conv)

lemma refs_nonneg [simp]: "0 \<le> refs a hs"
  by (simp add: refs_def)

lemma same_but_simps [simp]:
  "same_but a hs hs" "same_but a hs ((a, st) # hs)" "same_but a (xs @ (a, st) # ys) (xs @ (a, st') # ys)"
  "same_but a (xs @ (a, st) # ys) (xs @ ys)"
  by (simp_all add: same_but_def)

lemma same_butD:
  assumes "same_but a hs hs'" "b \<noteq> a"
  shows "refs b hs' = refs b hs" "(b, st) \<in> set hs' \<longleftrightarrow> (b, st) \<in> set hs"
    "filter (\<lambda>p. p = (b, st)) hs' = filter (\<lambda>p. p = (b, st)) hs"
proof -
  have f: "filter (\<lambda>p. fst p = b) hs' = filter (\<lambda>p. fst p = b) hs" using assms by (simp add: same_but_def)
  then show "refs b hs' = refs b hs" by (simp add: refs_def)
  have "filter (\<lambda>p. p = (b, st)) xs = filter (\<lambda>p. p = (b, st)) (filter (\<lambda>p. fst p = b) xs)" for xs :: "(nat \<times> hstate) list"
    unfolding filter_filter by (rule filter_cong) auto
  then show g: "filter (\<lambda>p. p = (b, st)) hs' = filter (\<lambda>p. p = (b, st)) hs" using f by metis
  have "(b, st) \<in> set xs \<longleftrightarrow> filter (\<lambda>p. p = (b, st)) xs \<noteq> []" for xs :: "(nat \<times> hstate) list"
    by (auto simp: filter_empty_conv)
  then show "(b, st) \<in> set hs' \<longleftrightarrow> (b, st) \<in> set hs" using g by metis
qed

lemma hinfo_ok_frame:
  assumes "hinfo_ok s hs b k" "b \<noteq> a" "same_but a hs hs'" "hm_next s \<le> hm_next s'"
    and "hm_hmap s' (hi_m k) = hm_hmap s (hi_m k)" "\<And>c. hi_cl k = Some c \<Longrightarrow> c \<in> hm_rpcc s \<Longrightarrow> c \<in> hm_rpcc s'"
  shows "hinfo_ok s' hs' b k"
  using assms(1,4,6) unfolding hinfo_ok_def same_butD [OF assms(3,2)] assms(5) by force

lemma handle_invD:
  assumes "handle_inv s hs"
  shows "hm_heap s a = Some h \<Longrightarrow> hinfo_ok s hs a h"
    and "hm_hmap s m = Some a \<Longrightarrow> \<exists>h. hm_heap s a = Some h \<and> hi_m h = m"
    and "(a, st) \<in> set hs \<Longrightarrow> \<exists>h. hm_heap s a = Some h"
    and "hm_heap s a = Some h \<Longrightarrow> hm_heap s b = Some k \<Longrightarrow> hi_cl h = Some c \<Longrightarrow> hi_cl k = Some c \<Longrightarrow> a = b"
  using assms unfolding handle_inv_def by (blast, blast, blast, blast)

text \<open>Nothing refers to an address that has not been allocated yet.\<close>

lemma handle_inv_fresh:
  assumes "handle_inv s hs"
  shows "hm_heap s (hm_next s) = None" "(hm_next s, st) \<notin> set hs" "refs (hm_next s) hs = 0"
proof -
  show n: "hm_heap s (hm_next s) = None"
    using handle_invD(1) [OF assms, of "hm_next s"] by (cases "hm_heap s (hm_next s)") (auto simp: hinfo_ok_def)
  show "(hm_next s, st) \<notin> set hs" for st using handle_invD(3) [OF assms, of "hm_next s" st] n by auto
  then show "refs (hm_next s) hs = 0" by (simp add: refs_zero)
qed


text \<open>One object is created or changed; the others are framed.\<close>

lemma handle_inv_put:
  assumes I: "handle_inv s hs"
    and heap: "hm_heap s' = (hm_heap s)(a \<mapsto> h')" "hm_next s \<le> hm_next s'" "hm_rpcc s \<subseteq> hm_rpcc s'"
    and old: "hm_heap s a = Some h \<and> hi_m h' = hi_m h \<and> hm_hmap s' = hm_hmap s
      \<or> hm_heap s a = None \<and> hm_hmap s (hi_m h') = None \<and> hm_hmap s' = (hm_hmap s)(hi_m h' \<mapsto> a)"
    and cl: "hi_cl h' = None \<or> hm_heap s a = Some h \<and> hi_cl h' = hi_cl h \<or> hi_cl h' = Some (hm_next s)"
    and ok: "hinfo_ok s' hs' a h'" "same_but a hs hs'"
  shows "handle_inv s' hs'"
  unfolding handle_inv_def
proof (intro conjI allI impI)
  fix b k assume b: "hm_heap s' b = Some k"
  show "hinfo_ok s' hs' b k"
  proof (cases "b = a")
    case False
    then have k: "hinfo_ok s hs b k" using b heap(1) handle_invD(1) [OF I] by simp
    moreover have "hm_hmap s' (hi_m k) = hm_hmap s (hi_m k)" using old k by (auto simp: hinfo_ok_def)
    ultimately show ?thesis using hinfo_ok_frame [OF k False ok(2) heap(2)] heap(3) by blast
  qed (use b heap(1) ok(1) in simp)
next
  fix m b assume "hm_hmap s' m = Some b"
  then show "\<exists>k. hm_heap s' b = Some k \<and> hi_m k = m"
    using old handle_invD(2) [OF I, of m b] heap(1) by (auto split: if_splits)
next
  fix b st assume "(b, st) \<in> set hs'"
  then show "hm_heap s' b \<noteq> None"
    using same_butD(2) [OF ok(2), of b st] handle_invD(3) [OF I, of b st] heap(1) by (cases "b = a") auto
next
  fix b b' k k' c
  assume e: "hm_heap s' b = Some k" "hm_heap s' b' = Some k'" "hi_cl k = Some c" "hi_cl k' = Some c"
  have old: "\<exists>y. hm_heap s x = Some y \<and> hi_cl y = Some c" if "hm_heap s' x = Some z" "hi_cl z = Some c" "c \<noteq> hm_next s" for x z
    using that cl heap(1) by (auto split: if_splits)
  have new: "x = a" if "hm_heap s' x = Some z" "hi_cl z = Some (hm_next s)" for x z
    using that heap(1) handle_invD(1) [OF I, of x z] by (auto simp: hinfo_ok_def split: if_splits)
  show "b = b'"
  proof (cases "c = hm_next s")
    case True
    then show ?thesis using e new by blast
  next
    case False
    then show ?thesis using old [OF e(1,3)] old [OF e(2,4)] handle_invD(4) [OF I] by blast
  qed
qed

text \<open>An object without handles is freed.\<close>

lemma handle_inv_free:
  assumes I: "handle_inv s hs" and a: "hm_heap s a = Some h"
    and s': "hm_heap s' = (hm_heap s)(a := None)" "hm_next s' = hm_next s" "hm_hmap s' = (hm_hmap s)(hi_m h := None)"
      "hm_rpcc s' = hm_rpcc s - set_option (hi_cl h)"
    and hs: "same_but a hs hs'" "refs a hs' = 0"
  shows "handle_inv s' hs'"
  unfolding handle_inv_def
proof (intro conjI allI impI)
  fix b k assume b: "hm_heap s' b = Some k"
  then have k: "b \<noteq> a" "hm_heap s b = Some k" using s'(1) by (auto split: if_splits)
  have "hm_hmap s (hi_m k) = Some b" "hm_hmap s (hi_m h) = Some a"
    using handle_invD(1) [OF I] k(2) a by (simp_all add: hinfo_ok_def)
  then have "hm_hmap s' (hi_m k) = hm_hmap s (hi_m k)" using s'(3) k(1) by auto
  moreover have "c \<notin> set_option (hi_cl h)" if "hi_cl k = Some c" for c
    using handle_invD(4) [OF I k(2) a that] k(1) by auto
  ultimately show "hinfo_ok s' hs' b k"
    using hinfo_ok_frame [OF handle_invD(1) [OF I k(2)] k(1) hs(1), of s'] s'(2,4) by auto
next
  fix m b assume m: "hm_hmap s' m = Some b"
  then have "hm_hmap s m = Some b" "m \<noteq> hi_m h" using s'(3) by (auto split: if_splits)
  then show "\<exists>k. hm_heap s' b = Some k \<and> hi_m k = m" using handle_invD(2) [OF I, of m b] a s'(1) by auto
next
  fix b st assume b: "(b, st) \<in> set hs'"
  then have "b \<noteq> a" using hs(2) by (auto simp: refs_zero)
  then show "hm_heap s' b \<noteq> None" using b same_butD(2) [OF hs(1), of b st] handle_invD(3) [OF I, of b st] s'(1) by auto
next
  fix b b' k k' c
  assume "hm_heap s' b = Some k" "hm_heap s' b' = Some k'" "hi_cl k = Some c" "hi_cl k' = Some c"
  then show "b = b'" using handle_invD(4) [OF I] s'(1) by (auto split: if_splits)
qed

subsection \<open>The operations\<close>

lemma get_handle_inv:
  assumes I: "handle_inv s hs" and g: "get_handle m s = Inr (r, s')"
  shows "handle_inv s' (case r of None \<Rightarrow> hs | Some a \<Rightarrow> (a, Unbound_handle) # hs)"
proof (cases "hm_hmap s m")
  case None
  let ?h = "\<lparr>hi_cl = None, hi_refcnt = 1, hi_del = False, hi_m = m\<rparr>"
  have r: "r = Some (hm_next s)"
    and s': "s' = (store (hm_next s) ?h (s\<lparr>hm_next := hm_next s + 1\<rparr>))\<lparr>hm_hmap := (hm_hmap s)(m \<mapsto> hm_next s)\<rparr>"
    using g None by (auto simp: get_handle_def Let_def store_def)
  have "filter (\<lambda>p. p = (hm_next s, In_bind)) hs = []" using handle_inv_fresh(2) [OF I] by (auto simp: filter_empty_conv)
  then have "hinfo_ok s' ((hm_next s, Unbound_handle) # hs) (hm_next s) ?h"
    using handle_inv_fresh [OF I] unfolding s' by (simp add: hinfo_ok_def store_def)
  then have "handle_inv s' ((hm_next s, Unbound_handle) # hs)"
    using handle_inv_fresh(1) [OF I] None by (intro handle_inv_put [OF I, where h = undefined]) (simp_all add: s' store_def same_but_def)
  then show ?thesis using r by simp
next
  case (Some a)
  then obtain h where h: "hm_heap s a = Some h" "hi_m h = m" using handle_invD(2) [OF I] by blast
  show ?thesis
  proof (cases "hi_del h")
    case True
    then show ?thesis using g Some h I by (simp add: get_handle_def deref_def)
  next
    case False
    let ?h = "h\<lparr>hi_refcnt := hi_refcnt h + 1\<rparr>"
    have r: "r = Some a" and s': "s' = store a ?h s" using g Some h False by (simp_all add: get_handle_def deref_def)
    have "hinfo_ok s' ((a, Unbound_handle) # hs) a ?h"
      using handle_invD(1) [OF I h(1)] False unfolding s' by (auto simp: hinfo_ok_def store_def)
    then have "handle_inv s' ((a, Unbound_handle) # hs)"
      using h by (intro handle_inv_put [OF I, where h = h]) (simp_all add: s' store_def same_but_def)
    then show ?thesis using r by simp
  qed
qed

text \<open>A handle changes its state while its object stays as it is.\<close>

lemma handle_inv_state:
  assumes I: "handle_inv s (xs @ (a, st) # ys)" and a: "hm_heap s a = Some h"
    and st: "(a, In_bind) \<notin> set (xs @ (a, st) # ys)"
    and st': "\<And>c. st' = Bound c \<Longrightarrow> hi_cl h = Some c" "st' = In_bind \<Longrightarrow> hi_cl h = None"
  shows "handle_inv s (xs @ (a, st') # ys)"
proof -
  have "filter (\<lambda>p. p = (a, In_bind)) xs = []" "filter (\<lambda>p. p = (a, In_bind)) ys = []"
    using st by (auto simp: filter_empty_conv)
  then have "hinfo_ok s (xs @ (a, st') # ys) a h"
    using handle_invD(1) [OF I a] st' by (auto simp: hinfo_ok_def)
  then show ?thesis using a by (intro handle_inv_put [OF I, where h = h]) auto
qed

lemma safebind_begin_inv:
  assumes I: "handle_inv s (xs @ (a, st) # ys)" and st: "(a, In_bind) \<notin> set (xs @ (a, st) # ys)"
  shows "safebind_begin (Some a) s = Inr None \<Longrightarrow> handle_inv s (xs @ (a, In_bind) # ys)"
    and "safebind_begin (Some a) s = Inr (Some (Some c)) \<Longrightarrow> handle_inv s (xs @ (a, Bound c) # ys)"
proof -
  obtain h where h: "hm_heap s a = Some h" using handle_invD(3) [OF I] by auto
  show "handle_inv s (xs @ (a, In_bind) # ys)" if "safebind_begin (Some a) s = Inr None"
    using that h by (intro handle_inv_state [OF I h st]) (auto simp: safebind_begin_def deref_def split: if_splits)
  show "handle_inv s (xs @ (a, Bound c) # ys)" if "safebind_begin (Some a) s = Inr (Some (Some c))"
    using that h by (intro handle_inv_state [OF I h st]) (auto simp: safebind_begin_def deref_def split: if_splits)
qed

lemma safebind_end_inv:
  assumes I: "handle_inv s (xs @ (a, In_bind) # ys)" and e: "safebind_end a ret s = Inr (r, s')"
  shows "handle_inv s' (xs @ (a, case r of None \<Rightarrow> Unbound_handle | Some c \<Rightarrow> Bound c) # ys)"
proof -
  let ?st = "case r of None \<Rightarrow> Unbound_handle | Some c \<Rightarrow> Bound c"
  obtain h where h: "hm_heap s a = Some h" using handle_invD(3) [OF I] by auto
  have ok: "hinfo_ok s (xs @ (a, In_bind) # ys) a h" by (rule handle_invD(1) [OF I h])
  then have cl: "hi_cl h = None" by (simp add: hinfo_ok_def)
  then have none: "(a, Bound c) \<notin> set xs" "(a, Bound c) \<notin> set ys" for c using ok by (auto simp: hinfo_ok_def)
  have bind: "filter (\<lambda>p. p = (a, In_bind)) xs = []" "filter (\<lambda>p. p = (a, In_bind)) ys = []"
    using ok by (auto simp: hinfo_ok_def)
  then have nb: "(a, In_bind) \<notin> set xs" "(a, In_bind) \<notin> set ys" by (auto simp: filter_empty_conv)
  have refs: "0 < refs a xs + (1 + refs a ys)" using refs_nonneg [of a xs] refs_nonneg [of a ys] by linarith
  show ?thesis
  proof (cases "ret < 0")
    case True
    then have "r = None" "s' = store a (h\<lparr>hi_del := True\<rparr>) s" using e h cl by (simp_all add: safebind_end_def deref_def)
    moreover have "hinfo_ok s' (xs @ (a, ?st) # ys) a (h\<lparr>hi_del := True\<rparr>)"
      using ok none bind nb refs calculation by (simp add: hinfo_ok_def store_def)
    ultimately show ?thesis using h by (intro handle_inv_put [OF I, where h = h]) (simp_all add: store_def same_but_def)
  next
    case False
    then have r: "r = Some (hm_next s)" and s': "s' = store a (h\<lparr>hi_cl := Some (hm_next s)\<rparr>)
        (s\<lparr>hm_next := hm_next s + 1, hm_rpcc := insert (hm_next s) (hm_rpcc s)\<rparr>)"
      using e h by (auto simp: safebind_end_def deref_def Let_def)
    have "hinfo_ok s' (xs @ (a, ?st) # ys) a (h\<lparr>hi_cl := Some (hm_next s)\<rparr>)"
      using ok none bind nb refs unfolding r s' by (simp add: hinfo_ok_def store_def)
    then show ?thesis using h r by (intro handle_inv_put [OF I, where h = h]) (auto simp: s' store_def)
  qed
qed


lemma delete_wo_inv:
  assumes I: "handle_inv s hs" and d: "delete_handle_wo m s = Inr s'"
  shows "handle_inv s' hs"
proof (cases "hm_hmap s m")
  case None
  then show ?thesis using d I by (simp add: delete_handle_wo_def)
next
  case (Some a)
  then obtain h where h: "hm_heap s a = Some h" "hi_m h = m" using handle_invD(2) [OF I] by blast
  have ok: "hinfo_ok s hs a h" by (rule handle_invD(1) [OF I h(1)])
  show ?thesis
  proof (cases "hi_refcnt h = 0")
    case True
    then show ?thesis using d Some h ok
      by (intro handle_inv_free [OF I h(1), where hs' = hs])
        (auto simp: delete_handle_wo_def deref_def Let_def hinfo_ok_def split: option.splits)
  next
    case False
    then have s': "s' = store a (h\<lparr>hi_del := True\<rparr>) s" using d Some h by (simp add: delete_handle_wo_def deref_def)
    have "hinfo_ok s' hs a (h\<lparr>hi_del := True\<rparr>)" using ok False unfolding s' by (simp add: hinfo_ok_def store_def)
    then show ?thesis using h by (intro handle_inv_put [OF I, where h = h]) (simp_all add: s' store_def same_but_def)
  qed
qed

lemma done_handle_inv:
  assumes I: "handle_inv s (xs @ (a, st) # ys)" and st: "st \<noteq> In_bind" and d: "done_handle a s = Inr s'"
  shows "handle_inv s' (xs @ ys)"
proof -
  obtain h where h: "hm_heap s a = Some h" using handle_invD(3) [OF I] by auto
  have ok: "hinfo_ok s (xs @ (a, st) # ys) a h" by (rule handle_invD(1) [OF I h])
  let ?h = "h\<lparr>hi_refcnt := hi_refcnt h - 1\<rparr>"
  show ?thesis
  proof (cases "hi_refcnt ?h = 0 \<and> hi_del h")
    case True
    have "hm_hmap s (hi_m h) = Some a" using ok by (simp add: hinfo_ok_def)
    then show ?thesis using d h True ok
      by (intro handle_inv_free [OF I h, where hs' = "xs @ ys"])
        (auto simp: done_handle_def delete_handle_wo_def store_def deref_def Let_def hinfo_ok_def same_but_def split: option.splits)
  next
    case False
    then have s': "s' = store a ?h s" using d h by (auto simp: done_handle_def deref_def Let_def)
    have "hinfo_ok s' (xs @ ys) a ?h" using ok False st unfolding s' by (auto simp: hinfo_ok_def store_def)
    then show ?thesis using h by (intro handle_inv_put [OF I, where h = h]) (simp_all add: s' store_def same_but_def)
  qed
qed

lemma handle_system_inv: "handle_system s hs \<Longrightarrow> handle_inv s hs"
proof (induction rule: handle_system.induct)
  case hs_start
  then show ?case by (simp add: handle_inv_def handle_mgr_new_def)
next
  case (hs_get s hs m a s')
  then show ?case using get_handle_inv [OF hs_get.IH hs_get.hyps(2)] by simp
next
  case (hs_null s hs m s')
  then show ?case using get_handle_inv [OF hs_null.IH hs_null.hyps(2)] by simp
next
  case (hs_bind_ok s xs a ys ret c s')
  then show ?case using safebind_end_inv [OF hs_bind_ok.IH hs_bind_ok.hyps(2)] by simp
next
  case (hs_bind_failed s xs a ys ret s')
  then show ?case using safebind_end_inv [OF hs_bind_failed.IH hs_bind_failed.hyps(2)] by simp
next
  case (hs_bind s xs a st ys)
  show ?case by (rule safebind_begin_inv(1) [OF hs_bind.IH hs_bind.hyps(2,3)])
next
  case (hs_bound s xs a st ys c)
  show ?case by (rule safebind_begin_inv(2) [OF hs_bound.IH hs_bound.hyps(2,3)])
next
  case (hs_done s xs a st ys s')
  show ?case by (rule done_handle_inv [OF hs_done.IH hs_done.hyps(2,3)])
next
  case (hs_delete s hs m s')
  show ?case by (rule delete_wo_inv [OF hs_delete.IH hs_delete.hyps(2) [unfolded delete_handle_def]])
qed

text \<open>(C23) The cache of connections is memory safe: whatever threads create and drop handles, bind and delete
  connections, no operation touches a freed \<^verbatim>\<open>hinfo\<close>, the client that \<^verbatim>\<open>safebind\<close> has returned stays
  alive as long as the handle it was asked for, and a node whose connection was deleted or could not
  be bound gets a new one as soon as its last handle is gone.\<close>

theorem handles_live:
  assumes "handle_system s hs"
  shows "(\<exists>r. get_handle m s = Inr r) \<and> (\<exists>s'. delete_handle m s = Inr s')
     \<and> (\<forall>(a, st) \<in> set hs. safebind_begin (Some a) s \<noteq> Inl e \<and> safebind_end a ret s \<noteq> Inl e \<and> done_handle a s \<noteq> Inl e
          \<and> (\<forall>c. st = Bound c \<longrightarrow> c \<in> hm_rpcc s))
     \<and> ((\<exists>(a, st) \<in> set hs. map_option hi_m (hm_heap s a) = Some m) \<or> (\<exists>a s'. get_handle m s = Inr (Some a, s')))"
proof -
  note I = handle_system_inv [OF assms]
  have get: "\<exists>r. get_handle m s = Inr r"
    using handle_invD(2) [OF I, of m] by (cases "hm_hmap s m") (auto simp: get_handle_def deref_def Let_def)
  have del: "\<exists>s'. delete_handle_wo n t = Inr s'" if "\<forall>a. hm_hmap t n = Some a \<longrightarrow> hm_heap t a \<noteq> None" for n t
    using that by (auto simp: delete_handle_wo_def deref_def Let_def split: option.splits)
  have bound: "c \<in> hm_rpcc s" if "(a, Bound c) \<in> set hs" for a c
    using handle_invD(3) [OF I that] handle_invD(1) [OF I] that by (auto simp: hinfo_ok_def)
  have live: "safebind_begin (Some a) s \<noteq> Inl e \<and> safebind_end a ret s \<noteq> Inl e \<and> done_handle a s \<noteq> Inl e"
    if st: "(a, st) \<in> set hs" for a st
  proof -
    obtain h where h: "hm_heap s a = Some h" using handle_invD(3) [OF I st] by blast
    let ?t = "store a (h\<lparr>hi_refcnt := hi_refcnt h - 1\<rparr>) s"
    have "\<exists>s'. delete_handle_wo (hi_m h) ?t = Inr s'"
      using handle_invD(1) [OF I h] by (intro del) (simp add: hinfo_ok_def store_def)
    then show ?thesis using h by (auto simp: safebind_begin_def safebind_end_def done_handle_def deref_def Let_def)
  qed
  have again: "(\<exists>(a, st) \<in> set hs. map_option hi_m (hm_heap s a) = Some m) \<or> (\<exists>a s'. get_handle m s = Inr (Some a, s'))"
  proof (cases "hm_hmap s m")
    case None
    then show ?thesis by (simp add: get_handle_def Let_def)
  next
    case (Some a)
    then obtain h where h: "hm_heap s a = Some h" "hi_m h = m" using handle_invD(2) [OF I] by blast
    show ?thesis
    proof (cases "hi_del h")
      case True
      then obtain st where "(a, st) \<in> set hs" using handle_invD(1) [OF I h(1)] by (auto simp: hinfo_ok_def refs_zero)
      then show ?thesis using h by force
    qed (use Some h in \<open>simp add: get_handle_def deref_def\<close>)
  qed
  have "\<exists>s'. delete_handle m s = Inr s'"
    unfolding delete_handle_def using handle_invD(2) [OF I, of m] by (intro del) auto
  then show ?thesis using get live bound again by fastforce
qed

theorem handles_live_witness:
  "\<exists>s. handle_system s [(0, Bound 1)] \<and> 1 \<in> hm_rpcc s \<and> (\<exists>s'. delete_handle ''n'' s = Inr s')"
proof -
  let ?s = "\<lparr>hm_heap = [0 \<mapsto> \<lparr>hi_cl = None, hi_refcnt = 1, hi_del = False, hi_m = ''n''\<rparr>], hm_next = 1,
    hm_hmap = [''n'' \<mapsto> 0], hm_rpcc = {}\<rparr>"
  let ?t = "\<lparr>hm_heap = [0 \<mapsto> \<lparr>hi_cl = Some 1, hi_refcnt = 1, hi_del = False, hi_m = ''n''\<rparr>], hm_next = 2,
    hm_hmap = [''n'' \<mapsto> 0], hm_rpcc = {1}\<rparr>"
  have "handle_system ?s [(0, Unbound_handle)]"
    using hs_get [OF hs_start, of "''n''" 0 ?s] by (simp add: get_handle_def handle_mgr_new_def store_def Let_def)
  then have "handle_system ?s [(0, In_bind)]"
    using hs_bind [of ?s "[]" 0 Unbound_handle "[]"] by (simp add: safebind_begin_def deref_def)
  then have t: "handle_system ?t [(0, Bound 1)]"
    using hs_bind_ok [of ?s "[]" 0 "[]" 0 1 ?t] by (simp add: safebind_end_def deref_def store_def Let_def)
  show ?thesis using handles_live [OF t, of "''n''"] t by (intro exI [of _ ?t]) auto
qed

end
