(* ===== verification/Poll.thy ===== *)
theory Poll
  imports Prelude
begin

text \<open>
  The poll manager of the RPC library, \<^verbatim>\<open>rpc/pollmgr.h\<close> and \<^verbatim>\<open>rpc/pollmgr.cc\<close>: the two implementations of
  \<^verbatim>\<open>aio_mgr\<close>, on \<^verbatim>\<open>select\<close> and on \<^verbatim>\<open>epoll\<close>, with the contract they share, and \<^verbatim>\<open>PollMgr\<close> with its loop,
  which runs the callbacks without holding the mutex.
\<close>

unbundle bit_operations_syntax

subsection \<open>Flags\<close>

datatype poll_flag = CB_NONE | CB_RDONLY | CB_WRONLY | CB_RDWR | CB_MASK

fun flag_bits :: "poll_flag \<Rightarrow> u32" where
  "flag_bits CB_NONE = 0"
| "flag_bits CB_RDONLY = 0x1"
| "flag_bits CB_WRONLY = 0x10"
| "flag_bits CB_RDWR = 0x11"
| "flag_bits CB_MASK = NOT 0x11"

definition MAX_POLL_FDS :: int where "MAX_POLL_FDS = 128"

subsection \<open>\<^verbatim>\<open>SelectAIO\<close>\<close>

text \<open>The pipe that wakes the loop is its reading end and the number of bytes in it.\<close>

record select_aio =
  sa_rfds :: "int set"
  sa_wfds :: "int set"
  sa_highfds :: int
  sa_pipe :: int
  sa_bytes :: nat

definition select_new :: "int \<Rightarrow> select_aio" where
  "select_new p = \<lparr>sa_rfds = {p}, sa_wfds = {}, sa_highfds = p, sa_pipe = p, sa_bytes = 0\<rparr>"

definition select_watch_fd :: "int \<Rightarrow> poll_flag \<Rightarrow> select_aio \<Rightarrow> select_aio" where
  "select_watch_fd fd fl s =
     (let s = (if sa_highfds s \<le> fd then s\<lparr>sa_highfds := fd\<rparr> else s);
          s = (if fl = CB_RDONLY then s\<lparr>sa_rfds := insert fd (sa_rfds s)\<rparr>
               else if fl = CB_WRONLY then s\<lparr>sa_wfds := insert fd (sa_wfds s)\<rparr>
               else s\<lparr>sa_rfds := insert fd (sa_rfds s), sa_wfds := insert fd (sa_wfds s)\<rparr>)
      in s\<lparr>sa_bytes := sa_bytes s + 1\<rparr>)"

definition select_is_watched :: "int \<Rightarrow> poll_flag \<Rightarrow> select_aio \<Rightarrow> bool" where
  "select_is_watched fd fl s =
     (if fl = CB_RDONLY then fd \<in> sa_rfds s
      else if fl = CB_WRONLY then fd \<in> sa_wfds s
      else fd \<in> sa_rfds s \<and> fd \<in> sa_wfds s)"

definition new_high :: "select_aio \<Rightarrow> int" where
  "new_high s = fold (\<lambda>i newh. if i \<in> sa_rfds s then i else if i \<in> sa_wfds s then i else newh) [0..sa_highfds s] (sa_pipe s)"

definition select_unwatch_fd :: "int \<Rightarrow> poll_flag \<Rightarrow> select_aio \<Rightarrow> (bool \<times> select_aio) res" where
  "select_unwatch_fd fd fl s =
     res_bind
       (if fl = CB_RDONLY then Inr (s\<lparr>sa_rfds := sa_rfds s - {fd}\<rparr>)
        else if fl = CB_WRONLY then Inr (s\<lparr>sa_wfds := sa_wfds s - {fd}\<rparr>)
        else if fl = CB_RDWR then Inr (s\<lparr>sa_wfds := sa_wfds s - {fd}, sa_rfds := sa_rfds s - {fd}\<rparr>)
        else Inl Verify_failed)
       (\<lambda>s. let s = (if fd \<notin> sa_rfds s \<and> fd \<notin> sa_wfds s \<and> fd = sa_highfds s then s\<lparr>sa_highfds := new_high s\<rparr> else s);
                s = (if fl = CB_RDWR then s\<lparr>sa_bytes := sa_bytes s + 1\<rparr> else s)
            in Inr (fd \<notin> sa_rfds s \<and> fd \<notin> sa_wfds s, s))"

text \<open>\<^verbatim>\<open>wait_ready\<close>: what \<^verbatim>\<open>select\<close> is called with, and the lists made of its result\<close>

datatype select_result = Select_EINTR | Select_error | Select_ready "int set" "int set"

definition wait_ready_fds :: "select_aio \<Rightarrow> int set \<times> int set \<times> int" where
  "wait_ready_fds s = (sa_rfds s, sa_wfds s, sa_highfds s)"

definition wait_ready_lists :: "select_result \<Rightarrow> int \<Rightarrow> select_aio \<Rightarrow> (int list \<times> int list \<times> select_aio) res" where
  "wait_ready_lists r high s =
     (case r of
        Select_EINTR \<Rightarrow> Inr ([], [], s)
      | Select_error \<Rightarrow> Inl Verify_failed
      | Select_ready tr tw \<Rightarrow>
          let wake = sa_pipe s \<in> tr \<and> 0 \<le> sa_pipe s \<and> sa_pipe s \<le> high;
              fds = filter (\<lambda>fd. \<not> (fd = sa_pipe s \<and> fd \<in> tr)) [0..high]
          in if wake \<and> sa_bytes s = 0 then Inl Verify_failed
             else Inr (filter (\<lambda>fd. fd \<in> tr) fds, filter (\<lambda>fd. fd \<in> tw) fds,
               if wake then s\<lparr>sa_bytes := sa_bytes s - 1\<rparr> else s))"

subsection \<open>\<^verbatim>\<open>EPollAIO\<close>\<close>

text \<open>The interest list of the kernel is part of the state: \<^verbatim>\<open>epoll_ctl\<close> fails when it adds a descriptor that is
  there or changes one that is not. The edge-triggered bit is in every entry and left out.\<close>

record epoll_aio =
  ep_fdstatus :: "int \<Rightarrow> u32"
  ep_interest :: "int \<rightharpoonup> bool \<times> bool"

definition epoll_new :: epoll_aio where
  "epoll_new = \<lparr>ep_fdstatus = (\<lambda>_. 0), ep_interest = Map.empty\<rparr>"

fun poll_flag_to_event :: "poll_flag \<Rightarrow> bool \<times> bool" where
  "poll_flag_to_event CB_RDONLY = (True, False)"
| "poll_flag_to_event CB_WRONLY = (False, True)"
| "poll_flag_to_event _ = (True, True)"

definition status_events :: "u32 \<Rightarrow> bool \<times> bool" where
  "status_events st = (st AND flag_bits CB_RDONLY \<noteq> 0, st AND flag_bits CB_WRONLY \<noteq> 0)"

definition epoll_watch_fd :: "int \<Rightarrow> poll_flag \<Rightarrow> epoll_aio \<Rightarrow> epoll_aio res" where
  "epoll_watch_fd fd fl s =
     (if MAX_POLL_FDS \<le> fd then Inl Verify_failed
      else if fd < 0 then Inl Undefined_behaviour
      else let known = (ep_fdstatus s fd \<noteq> 0);
               st = ep_fdstatus s fd OR flag_bits fl;
               s = s\<lparr>ep_fdstatus := (ep_fdstatus s)(fd := st)\<rparr>;
               ev = status_events st
        in if fl = CB_RDWR \<and> ev \<noteq> (True, True) then Inl Verify_failed
           else if known \<noteq> (ep_interest s fd \<noteq> None) then Inl Verify_failed
           else Inr (s\<lparr>ep_interest := (ep_interest s)(fd \<mapsto> ev)\<rparr>))"

definition epoll_unwatch_fd :: "int \<Rightarrow> poll_flag \<Rightarrow> epoll_aio \<Rightarrow> (bool \<times> epoll_aio) res" where
  "epoll_unwatch_fd fd fl s =
     (if MAX_POLL_FDS \<le> fd then Inl Verify_failed
      else if fd < 0 then Inl Undefined_behaviour
      else let st = ep_fdstatus s fd AND NOT (flag_bits fl);
               s = s\<lparr>ep_fdstatus := (ep_fdstatus s)(fd := st)\<rparr>;
               del = (st = 0)
        in if fl = CB_RDWR \<and> \<not> del then Inl Verify_failed
           else if ep_interest s fd = None then Inl Verify_failed
           else Inr (del, s\<lparr>ep_interest := (ep_interest s)(fd := if del then None else Some (status_events st))\<rparr>))"

definition epoll_is_watched :: "int \<Rightarrow> poll_flag \<Rightarrow> epoll_aio \<Rightarrow> bool res" where
  "epoll_is_watched fd fl s =
     (if MAX_POLL_FDS \<le> fd then Inl Verify_failed
      else if fd < 0 then Inl Undefined_behaviour
      else Inr (ep_fdstatus s fd AND flag_bits CB_MASK = flag_bits fl))"

text \<open>The events that \<^verbatim>\<open>epoll_wait\<close> returns, split into the two lists\<close>

definition epoll_wait_ready :: "(int \<times> bool \<times> bool) list \<Rightarrow> int list \<times> int list" where
  "epoll_wait_ready ready = (map fst (filter (\<lambda>(fd, i, out). i) ready), map fst (filter (\<lambda>(fd, i, out). out) ready))"

subsection \<open>\<^verbatim>\<open>PollMgr\<close>\<close>

record 'c poll_mgr =
  pm_callbacks :: "int \<rightharpoonup> 'c"
  pm_aio :: select_aio
  pm_pending :: bool

definition poll_mgr_new :: "int \<Rightarrow> 'c poll_mgr" where
  "poll_mgr_new p = \<lparr>pm_callbacks = Map.empty, pm_aio = select_new p, pm_pending = False\<rparr>"

definition add_callback :: "int \<Rightarrow> poll_flag \<Rightarrow> 'c \<Rightarrow> 'c poll_mgr \<Rightarrow> 'c poll_mgr res" where
  "add_callback fd fl ch m =
     (if MAX_POLL_FDS \<le> fd then Inl Verify_failed
      else if fd < 0 then Inl Undefined_behaviour
      else let m = m\<lparr>pm_aio := select_watch_fd fd fl (pm_aio m)\<rparr>
        in if pm_callbacks m fd \<noteq> None \<and> pm_callbacks m fd \<noteq> Some ch then Inl Verify_failed
           else Inr (m\<lparr>pm_callbacks := (pm_callbacks m)(fd \<mapsto> ch)\<rparr>))"

text \<open>\<^verbatim>\<open>block_remove_fd\<close> up to its wait, and after it\<close>

definition block_remove_begin :: "int \<Rightarrow> 'c poll_mgr \<Rightarrow> 'c poll_mgr res" where
  "block_remove_begin fd m = res_bind (select_unwatch_fd fd CB_RDWR (pm_aio m))
     (\<lambda>(_, a). Inr (m\<lparr>pm_aio := a, pm_pending := True\<rparr>))"

definition block_remove_end :: "int \<Rightarrow> 'c poll_mgr \<Rightarrow> 'c poll_mgr" where
  "block_remove_end fd m = m\<lparr>pm_callbacks := (pm_callbacks m)(fd := None)\<rparr>"

definition del_callback :: "int \<Rightarrow> poll_flag \<Rightarrow> 'c poll_mgr \<Rightarrow> 'c poll_mgr res" where
  "del_callback fd fl m = res_bind (select_unwatch_fd fd fl (pm_aio m))
     (\<lambda>(b, a). let m = m\<lparr>pm_aio := a\<rparr>
        in Inr (if b then m\<lparr>pm_callbacks := (pm_callbacks m)(fd := None)\<rparr> else m))"

definition has_callback :: "int \<Rightarrow> poll_flag \<Rightarrow> 'c \<Rightarrow> 'c poll_mgr \<Rightarrow> bool" where
  "has_callback fd fl c m = (if pm_callbacks m fd \<noteq> Some c then False else select_is_watched fd fl (pm_aio m))"

text \<open>A turn of \<^verbatim>\<open>wait_loop\<close>: the first part says whether it broadcasts; the callbacks to be run are listed with
  the direction, readable descriptors first.\<close>

definition wait_loop_top :: "'c poll_mgr \<Rightarrow> bool \<times> 'c poll_mgr" where
  "wait_loop_top m = (if pm_pending m then (True, m\<lparr>pm_pending := False\<rparr>) else (False, m))"

definition wait_loop_ready :: "select_result \<Rightarrow> int \<Rightarrow> 'c poll_mgr \<Rightarrow> ((int \<times> bool) list \<times> 'c poll_mgr) res" where
  "wait_loop_ready r high m = res_bind (wait_ready_lists r high (pm_aio m))
     (\<lambda>(rs, ws, a). Inr (map (\<lambda>fd. (fd, False)) rs @ map (\<lambda>fd. (fd, True)) ws, m\<lparr>pm_aio := a\<rparr>))"

subsection \<open>The contract of \<^verbatim>\<open>aio_mgr\<close>\<close>

definition reads :: "poll_flag \<Rightarrow> bool" where "reads fl \<longleftrightarrow> fl = CB_RDONLY \<or> fl = CB_RDWR"
definition writes :: "poll_flag \<Rightarrow> bool" where "writes fl \<longleftrightarrow> fl = CB_WRONLY \<or> fl = CB_RDWR"

definition direction :: "poll_flag \<Rightarrow> bool" where "direction fl \<longleftrightarrow> reads fl \<or> writes fl"

definition dir :: "bool \<Rightarrow> int \<Rightarrow> int set" where
  "dir b fd = (if b then {fd} else {})"

text \<open>What the code that uses an \<^verbatim>\<open>aio_mgr\<close> relies on: \<open>rd\<close> and \<open>wr\<close> are the descriptors that are watched in each
  direction, \<open>own\<close> those an implementation uses itself.\<close>

locale aio_mgr =
  fixes watch :: "int \<Rightarrow> poll_flag \<Rightarrow> 's \<Rightarrow> 's res"
    and unwatch :: "int \<Rightarrow> poll_flag \<Rightarrow> 's \<Rightarrow> (bool \<times> 's) res"
    and rd wr own :: "'s \<Rightarrow> int set"
    and wf :: "'s \<Rightarrow> bool"
  assumes watch_law: "wf s \<Longrightarrow> 0 \<le> fd \<Longrightarrow> fd < MAX_POLL_FDS \<Longrightarrow> fd \<notin> own s \<Longrightarrow> direction fl \<Longrightarrow>
      \<exists>s'. watch fd fl s = Inr s' \<and> wf s' \<and> own s' = own s
        \<and> rd s' = rd s \<union> dir (reads fl) fd \<and> wr s' = wr s \<union> dir (writes fl) fd"
    and unwatch_law: "wf s \<Longrightarrow> 0 \<le> fd \<Longrightarrow> fd < MAX_POLL_FDS \<Longrightarrow> fd \<notin> own s \<Longrightarrow> direction fl \<Longrightarrow> fd \<in> rd s \<union> wr s \<Longrightarrow>
      \<exists>s'. unwatch fd fl s = Inr (fd \<notin> rd s' \<union> wr s', s') \<and> wf s' \<and> own s' = own s
        \<and> rd s' = rd s - dir (reads fl) fd \<and> wr s' = wr s - dir (writes fl) fd"
begin

text \<open>Taking back what was asked for restores the state before and reports that nothing is left.\<close>

lemma watch_unwatch:
  assumes "wf s" "0 \<le> fd" "fd < MAX_POLL_FDS" "fd \<notin> own s" "direction fl" "fd \<notin> rd s \<union> wr s"
  shows "\<exists>s1 s2. watch fd fl s = Inr s1 \<and> unwatch fd fl s1 = Inr (True, s2) \<and> wf s2 \<and> rd s2 = rd s \<and> wr s2 = wr s"
proof -
  obtain s1 where s1: "watch fd fl s = Inr s1" "wf s1" "own s1 = own s"
    "rd s1 = rd s \<union> dir (reads fl) fd" "wr s1 = wr s \<union> dir (writes fl) fd"
    using watch_law [OF assms(1-5)] by blast
  have "fd \<in> rd s1 \<union> wr s1" "fd \<notin> own s1" using s1(3-5) assms(4,5) by (auto simp: direction_def dir_def)
  then obtain s2 where "unwatch fd fl s1 = Inr (fd \<notin> rd s2 \<union> wr s2, s2)" "wf s2"
    "rd s2 = rd s1 - dir (reads fl) fd" "wr s2 = wr s1 - dir (writes fl) fd"
    using unwatch_law [OF s1(2) assms(2,3)] assms(5) by blast
  moreover have "rd s2 = rd s" "wr s2 = wr s" using s1(4,5) assms(6) calculation(3,4) by (auto simp: dir_def)
  ultimately show ?thesis using s1(1) assms(6) by auto
qed

text \<open>A descriptor that is watched in both directions stays watched in the other one.\<close>

lemma unwatch_half:
  assumes "wf s" "0 \<le> fd" "fd < MAX_POLL_FDS" "fd \<notin> own s" "fd \<in> rd s" "fd \<in> wr s"
  shows "\<exists>s'. unwatch fd CB_WRONLY s = Inr (False, s') \<and> wf s' \<and> rd s' = rd s \<and> wr s' = wr s - {fd}"
  using unwatch_law [OF assms(1-4), of CB_WRONLY] assms(5,6)
  by (auto simp: direction_def reads_def writes_def dir_def)

end

subsection \<open>Both implementations satisfy it\<close>

text \<open>\<^verbatim>\<open>select\<close> looks at descriptors up to \<^verbatim>\<open>highfds_\<close> only, so that nothing watched may lie above it.\<close>

definition select_wf :: "select_aio \<Rightarrow> bool" where
  "select_wf s \<longleftrightarrow> sa_pipe s \<in> sa_rfds s \<and> (\<forall>fd \<in> sa_rfds s \<union> sa_wfds s. 0 \<le> fd \<and> fd \<le> sa_highfds s)"

lemma fold_last: "fold (\<lambda>i h. if P i then i else h) xs h = (if filter P xs = [] then h else last (filter P xs))"
  by (induction xs arbitrary: h) auto

lemma sorted_le_last: "sorted xs \<Longrightarrow> x \<in> set xs \<Longrightarrow> x \<le> last xs"
  by (induction xs) auto

lemma new_high_max:
  assumes "fd \<in> sa_rfds s \<union> sa_wfds s" "0 \<le> fd" "fd \<le> sa_highfds s"
  shows "fd \<le> new_high s"
proof -
  let ?P = "\<lambda>i. i \<in> sa_rfds s \<or> i \<in> sa_wfds s"
  have "new_high s = fold (\<lambda>i h. if ?P i then i else h) [0..sa_highfds s] (sa_pipe s)"
    unfolding new_high_def by (rule fold_cong) auto
  moreover have m: "fd \<in> set (filter ?P [0..sa_highfds s])" using assms by simp
  moreover have "filter ?P [0..sa_highfds s] \<noteq> []" using m by (metis empty_iff list.set(1))
  ultimately show ?thesis
    using sorted_le_last [OF _ m] by (simp add: fold_last sorted_wrt_filter)
qed

lemma select_wf_new: "0 \<le> p \<Longrightarrow> select_wf (select_new p)"
  by (simp add: select_wf_def select_new_def)

lemma select_watch_sel:
  assumes "direction fl"
  shows "sa_rfds (select_watch_fd fd fl s) = sa_rfds s \<union> dir (reads fl) fd"
    "sa_wfds (select_watch_fd fd fl s) = sa_wfds s \<union> dir (writes fl) fd"
    "sa_highfds (select_watch_fd fd fl s) = max (sa_highfds s) fd" "sa_pipe (select_watch_fd fd fl s) = sa_pipe s"
  using assms by (auto simp: select_watch_fd_def direction_def reads_def writes_def dir_def Let_def)

lemma unwatch_finish:
  "\<exists>v. (let s = (if fd \<notin> sa_rfds t \<and> fd \<notin> sa_wfds t \<and> fd = sa_highfds t then t\<lparr>sa_highfds := new_high t\<rparr> else t);
            s = (if fl = CB_RDWR then s\<lparr>sa_bytes := sa_bytes s + 1\<rparr> else s)
        in Inr (fd \<notin> sa_rfds s \<and> fd \<notin> sa_wfds s, s)) = Inr (fd \<notin> sa_rfds v \<union> sa_wfds v, v)
     \<and> sa_rfds v = sa_rfds t \<and> sa_wfds v = sa_wfds t \<and> sa_pipe v = sa_pipe t
     \<and> (sa_highfds v = new_high t \<or> sa_highfds v = sa_highfds t)"
  by (cases "fd \<notin> sa_rfds t \<and> fd \<notin> sa_wfds t \<and> fd = sa_highfds t"; cases "fl = CB_RDWR") (simp_all add: Let_def)

lemma select_unwatch_sel:
  assumes "direction fl" "select_wf s"
  shows "\<exists>s'. select_unwatch_fd fd fl s = Inr (fd \<notin> sa_rfds s' \<union> sa_wfds s', s')
     \<and> sa_rfds s' = sa_rfds s - dir (reads fl) fd \<and> sa_wfds s' = sa_wfds s - dir (writes fl) fd \<and> sa_pipe s' = sa_pipe s
     \<and> (\<forall>x \<in> sa_rfds s' \<union> sa_wfds s'. x \<le> sa_highfds s')"
proof -
  define t where "t = s\<lparr>sa_wfds := sa_wfds s - dir (writes fl) fd, sa_rfds := sa_rfds s - dir (reads fl) fd\<rparr>"
  then have t: "sa_rfds t = sa_rfds s - dir (reads fl) fd" "sa_wfds t = sa_wfds s - dir (writes fl) fd" "sa_pipe t = sa_pipe s"
    "sa_highfds t = sa_highfds s" by simp_all
  have e: "select_unwatch_fd fd fl s = (let s = (if fd \<notin> sa_rfds t \<and> fd \<notin> sa_wfds t \<and> fd = sa_highfds t then t\<lparr>sa_highfds := new_high t\<rparr> else t);
            s = (if fl = CB_RDWR then s\<lparr>sa_bytes := sa_bytes s + 1\<rparr> else s)
        in Inr (fd \<notin> sa_rfds s \<and> fd \<notin> sa_wfds s, s))"
    unfolding select_unwatch_fd_def t_def using assms(1)
    by (cases fl) (auto simp: direction_def reads_def writes_def dir_def)
  obtain v where v: "select_unwatch_fd fd fl s = Inr (fd \<notin> sa_rfds v \<union> sa_wfds v, v)" "sa_rfds v = sa_rfds t"
    "sa_wfds v = sa_wfds t" "sa_pipe v = sa_pipe t" "sa_highfds v = new_high t \<or> sa_highfds v = sa_highfds t"
    using unwatch_finish [of fd t fl] unfolding e by blast
  have "x \<le> new_high t \<and> x \<le> sa_highfds t" if "x \<in> sa_rfds t \<union> sa_wfds t" for x
    using that assms(2) new_high_max [OF that] t by (auto simp: select_wf_def)
  then show ?thesis using v t by (intro exI [of _ v]) auto
qed

interpretation sel: aio_mgr "\<lambda>fd fl s. Inr (select_watch_fd fd fl s)" select_unwatch_fd sa_rfds sa_wfds "\<lambda>s. {sa_pipe s}" select_wf
proof
  fix s fd fl
  assume a: "select_wf s" "0 \<le> fd" "fd \<notin> {sa_pipe s}" "direction fl"
  show "\<exists>s'. Inr (select_watch_fd fd fl s) = Inr s' \<and> select_wf s' \<and> {sa_pipe s'} = {sa_pipe s}
      \<and> sa_rfds s' = sa_rfds s \<union> dir (reads fl) fd \<and> sa_wfds s' = sa_wfds s \<union> dir (writes fl) fd"
    using a(1,2) by (auto simp: select_watch_sel [OF a(4)] select_wf_def dir_def le_max_iff_disj split: if_splits)
  obtain s' where "select_unwatch_fd fd fl s = Inr (fd \<notin> sa_rfds s' \<union> sa_wfds s', s')"
    "sa_rfds s' = sa_rfds s - dir (reads fl) fd" "sa_wfds s' = sa_wfds s - dir (writes fl) fd" "sa_pipe s' = sa_pipe s"
    "\<forall>x \<in> sa_rfds s' \<union> sa_wfds s'. x \<le> sa_highfds s'" using select_unwatch_sel [OF a(4,1)] by blast
  moreover have "select_wf s'" using a(1,3) calculation(2-5) by (auto simp: select_wf_def dir_def)
  ultimately show "\<exists>s'. select_unwatch_fd fd fl s = Inr (fd \<notin> sa_rfds s' \<union> sa_wfds s', s') \<and> select_wf s'
      \<and> {sa_pipe s'} = {sa_pipe s} \<and> sa_rfds s' = sa_rfds s - dir (reads fl) fd \<and> sa_wfds s' = sa_wfds s - dir (writes fl) fd"
    by blast
qed


definition ep_rd :: "epoll_aio \<Rightarrow> int set" where "ep_rd s = {fd. ep_fdstatus s fd AND 0x1 \<noteq> 0}"
definition ep_wr :: "epoll_aio \<Rightarrow> int set" where "ep_wr s = {fd. ep_fdstatus s fd AND 0x10 \<noteq> 0}"

definition epoll_wf :: "epoll_aio \<Rightarrow> bool" where
  "epoll_wf s \<longleftrightarrow> (\<forall>fd. ep_fdstatus s fd \<in> {0, 0x1, 0x10, 0x11}
     \<and> ep_interest s fd = (if ep_fdstatus s fd = 0 then None else Some (status_events (ep_fdstatus s fd))))"

lemma epoll_watch_sel:
  assumes "epoll_wf s" "0 \<le> fd" "fd < MAX_POLL_FDS" "direction fl"
  shows "\<exists>s'. epoll_watch_fd fd fl s = Inr s' \<and> epoll_wf s' \<and> ep_fdstatus s' = (ep_fdstatus s)(fd := ep_fdstatus s fd OR flag_bits fl)"
proof -
  have st: "ep_fdstatus s fd \<in> {0, 0x1, 0x10, 0x11}"
    "ep_interest s fd = (if ep_fdstatus s fd = 0 then None else Some (status_events (ep_fdstatus s fd)))"
    using assms(1) by (simp_all add: epoll_wf_def)
  let ?s = "s\<lparr>ep_fdstatus := (ep_fdstatus s)(fd := ep_fdstatus s fd OR flag_bits fl),
    ep_interest := (ep_interest s)(fd \<mapsto> status_events (ep_fdstatus s fd OR flag_bits fl))\<rparr>"
  have "epoll_watch_fd fd fl s = Inr ?s"
    using assms(2-4) st by (cases fl) (auto simp: epoll_watch_fd_def direction_def reads_def writes_def status_events_def Let_def)
  moreover have "ep_fdstatus s fd OR flag_bits fl \<in> {0x1, 0x10, 0x11}"
    using assms(4) st(1) by (cases fl) (auto simp: direction_def reads_def writes_def)
  then have "epoll_wf ?s" using assms(1) by (auto simp: epoll_wf_def)
  ultimately show ?thesis by auto
qed

lemma epoll_unwatch_sel:
  assumes "epoll_wf s" "0 \<le> fd" "fd < MAX_POLL_FDS" "direction fl" "ep_fdstatus s fd \<noteq> 0"
  shows "\<exists>s'. epoll_unwatch_fd fd fl s = Inr (ep_fdstatus s fd AND NOT (flag_bits fl) = 0, s') \<and> epoll_wf s'
     \<and> ep_fdstatus s' = (ep_fdstatus s)(fd := ep_fdstatus s fd AND NOT (flag_bits fl))"
proof -
  let ?st = "ep_fdstatus s fd AND NOT (flag_bits fl)"
  have st: "ep_fdstatus s fd \<in> {0x1, 0x10, 0x11}" "ep_interest s fd \<noteq> None" using assms(1,5) by (auto simp: epoll_wf_def)
  let ?s = "s\<lparr>ep_fdstatus := (ep_fdstatus s)(fd := ?st),
    ep_interest := (ep_interest s)(fd := if ?st = 0 then None else Some (status_events ?st))\<rparr>"
  have z: "?st \<in> {0, 0x1, 0x10}" "fl = CB_RDWR \<Longrightarrow> ?st = 0"
    using assms(4) st(1) by (cases fl; auto simp: direction_def reads_def writes_def)+
  then have "epoll_unwatch_fd fd fl s = Inr (?st = 0, ?s)"
    using assms(2,3) st(2) by (auto simp: epoll_unwatch_fd_def Let_def)
  moreover have "epoll_wf ?s" using assms(1) z(1) by (auto simp: epoll_wf_def)
  ultimately show ?thesis by auto
qed

interpretation ep: aio_mgr epoll_watch_fd epoll_unwatch_fd ep_rd ep_wr "\<lambda>s. {}" epoll_wf
proof
  fix s fd fl
  assume a: "epoll_wf s" "0 \<le> fd" "fd < MAX_POLL_FDS" "direction fl"
  have st: "ep_fdstatus s fd \<in> {0, 0x1, 0x10, 0x11}" using a(1) by (simp add: epoll_wf_def)
  obtain s' where s': "epoll_watch_fd fd fl s = Inr s'" "epoll_wf s'"
    "ep_fdstatus s' = (ep_fdstatus s)(fd := ep_fdstatus s fd OR flag_bits fl)" using epoll_watch_sel [OF a] by blast
  have "ep_rd s' = ep_rd s \<union> dir (reads fl) fd" "ep_wr s' = ep_wr s \<union> dir (writes fl) fd"
    using st a(4) by (cases fl; auto simp: ep_rd_def ep_wr_def s'(3) dir_def direction_def reads_def writes_def)+
  then show "\<exists>s'. epoll_watch_fd fd fl s = Inr s' \<and> epoll_wf s' \<and> {} = {}
      \<and> ep_rd s' = ep_rd s \<union> dir (reads fl) fd \<and> ep_wr s' = ep_wr s \<union> dir (writes fl) fd" using s'(1,2) by blast
next
  fix s fd fl
  assume a: "epoll_wf s" "0 \<le> fd" "fd < MAX_POLL_FDS" "direction fl" and w: "fd \<in> ep_rd s \<union> ep_wr s"
  have "ep_fdstatus s fd \<in> {0, 0x1, 0x10, 0x11}" using a(1) by (simp add: epoll_wf_def)
  then have st: "ep_fdstatus s fd \<in> {0x1, 0x10, 0x11}" using w by (auto simp: ep_rd_def ep_wr_def)
  then obtain s' where s': "epoll_unwatch_fd fd fl s = Inr (ep_fdstatus s fd AND NOT (flag_bits fl) = 0, s')" "epoll_wf s'"
    "ep_fdstatus s' = (ep_fdstatus s)(fd := ep_fdstatus s fd AND NOT (flag_bits fl))" using epoll_unwatch_sel [OF a] by auto
  have "ep_rd s' = ep_rd s - dir (reads fl) fd" "ep_wr s' = ep_wr s - dir (writes fl) fd"
    "(ep_fdstatus s fd AND NOT (flag_bits fl) = 0) = (fd \<notin> ep_rd s' \<union> ep_wr s')"
    using st a(4) by (cases fl; auto simp: ep_rd_def ep_wr_def s'(3) dir_def direction_def reads_def writes_def)+
  then show "\<exists>s'. epoll_unwatch_fd fd fl s = Inr (fd \<notin> ep_rd s' \<union> ep_wr s', s') \<and> epoll_wf s' \<and> {} = {}
      \<and> ep_rd s' = ep_rd s - dir (reads fl) fd \<and> ep_wr s' = ep_wr s - dir (writes fl) fd" using s'(1,2) by auto
qed


text \<open>The property of both: what a client of an \<^verbatim>\<open>aio_mgr\<close> registers and takes back leaves no trace.\<close>

text \<open>Both implementations of \<^verbatim>\<open>aio_mgr\<close> keep the contract: for every sound state and free descriptor, watching it
  in some direction and unwatching it in the same direction succeeds, reports that nothing is left to
  watch, and leaves the sets of watched descriptors as they were.\<close>

theorem watch_unwatch_restores:
  assumes "direction fl" "0 \<le> fd" "fd < MAX_POLL_FDS"
  shows "(select_wf s \<and> fd \<noteq> sa_pipe s \<and> fd \<notin> sa_rfds s \<union> sa_wfds s \<longrightarrow>
       (\<exists>s'. select_unwatch_fd fd fl (select_watch_fd fd fl s) = Inr (True, s') \<and> select_wf s'
          \<and> sa_rfds s' = sa_rfds s \<and> sa_wfds s' = sa_wfds s))
     \<and> (epoll_wf e \<and> fd \<notin> ep_rd e \<union> ep_wr e \<longrightarrow>
       (\<exists>e1 e2. epoll_watch_fd fd fl e = Inr e1 \<and> epoll_unwatch_fd fd fl e1 = Inr (True, e2) \<and> epoll_wf e2
          \<and> ep_rd e2 = ep_rd e \<and> ep_wr e2 = ep_wr e))"
  using sel.watch_unwatch [of s fd fl] ep.watch_unwatch [of e fd fl] assms by auto

text \<open>\<^verbatim>\<open>CB_MASK\<close> is the complement of the flag bits, so that \<^verbatim>\<open>EPollAIO::is_watched\<close> answers no to every question.\<close>

theorem epoll_never_watched:
  assumes "epoll_wf s" "0 \<le> fd" "fd < MAX_POLL_FDS" "direction fl"
  shows "epoll_is_watched fd fl s = Inr False"
proof -
  have "ep_fdstatus s fd \<in> {0, 0x1, 0x10, 0x11}" using assms(1) by (simp add: epoll_wf_def)
  then show ?thesis using assms(2-4)
    by (cases fl) (auto simp: epoll_is_watched_def direction_def reads_def writes_def)
qed

subsection \<open>The loop and the threads that change the table\<close>

text \<open>Where the thread of \<^verbatim>\<open>wait_loop\<close> is; a callback is run without the mutex.\<close>

datatype phase = Top | Waking | Selecting "int set" "int set" int | Dispatching "(int \<times> bool) list"
  | Calling int "(int \<times> bool) list"

record 'c poll_sys =
  ps_mgr :: "'c poll_mgr"
  ps_phase :: phase
  ps_waiting :: "int set"
  ps_woken :: "int set"
  ps_gone :: "int set"

definition poll_sys_new :: "int \<Rightarrow> 'c poll_sys" where
  "poll_sys_new p = \<lparr>ps_mgr = poll_mgr_new p, ps_phase = Top, ps_waiting = {}, ps_woken = {}, ps_gone = {}\<rparr>"

text \<open>A descriptor is not registered again while a thread is removing it. With \<open>spurious\<close> a thread in
  \<^verbatim>\<open>pthread_cond_wait\<close> may wake up without a broadcast, as POSIX allows.\<close>

inductive poll_system :: "bool \<Rightarrow> int \<Rightarrow> 'c poll_sys \<Rightarrow> bool" for spurious p where
  po_start: "poll_system spurious p (poll_sys_new p)"
| po_add: "poll_system spurious p s \<Longrightarrow> fd \<notin> ps_waiting s \<union> ps_woken s \<Longrightarrow> add_callback fd fl ch (ps_mgr s) = Inr m \<Longrightarrow>
    poll_system spurious p (s\<lparr>ps_mgr := m, ps_gone := ps_gone s - {fd}\<rparr>)"
| po_del: "poll_system spurious p s \<Longrightarrow> del_callback fd fl (ps_mgr s) = Inr m \<Longrightarrow> poll_system spurious p (s\<lparr>ps_mgr := m\<rparr>)"
| po_remove: "poll_system spurious p s \<Longrightarrow> block_remove_begin fd (ps_mgr s) = Inr m \<Longrightarrow>
    poll_system spurious p (s\<lparr>ps_mgr := m, ps_waiting := insert fd (ps_waiting s), ps_gone := ps_gone s - {fd}\<rparr>)"
| po_spurious: "poll_system spurious p s \<Longrightarrow> spurious \<Longrightarrow> fd \<in> ps_waiting s \<Longrightarrow>
    poll_system spurious p (s\<lparr>ps_waiting := ps_waiting s - {fd}, ps_woken := insert fd (ps_woken s)\<rparr>)"
| po_removed: "poll_system spurious p s \<Longrightarrow> fd \<in> ps_woken s \<Longrightarrow>
    poll_system spurious p (s\<lparr>ps_mgr := block_remove_end fd (ps_mgr s), ps_woken := ps_woken s - {fd}, ps_gone := insert fd (ps_gone s)\<rparr>)"
| po_broadcast: "poll_system spurious p s \<Longrightarrow> ps_phase s = Top \<Longrightarrow> wait_loop_top (ps_mgr s) = (True, m) \<Longrightarrow>
    poll_system spurious p (s\<lparr>ps_mgr := m, ps_phase := Waking, ps_woken := ps_woken s \<union> ps_waiting s, ps_waiting := {}\<rparr>)"
| po_quiet: "poll_system spurious p s \<Longrightarrow> ps_phase s = Top \<Longrightarrow> wait_loop_top (ps_mgr s) = (False, m) \<Longrightarrow>
    poll_system spurious p (s\<lparr>ps_phase := Waking\<rparr>)"
| po_select: "poll_system spurious p s \<Longrightarrow> ps_phase s = Waking \<Longrightarrow> wait_ready_fds (pm_aio (ps_mgr s)) = (tr, tw, high) \<Longrightarrow>
    poll_system spurious p (s\<lparr>ps_phase := Selecting tr tw high\<rparr>)"
| po_ready: "poll_system spurious p s \<Longrightarrow> ps_phase s = Selecting tr tw high \<Longrightarrow>
    r = Select_EINTR \<or> (\<exists>R \<subseteq> tr. \<exists>W \<subseteq> tw. r = Select_ready R W) \<Longrightarrow> wait_loop_ready r high (ps_mgr s) = Inr (todo, m) \<Longrightarrow>
    poll_system spurious p (s\<lparr>ps_mgr := m, ps_phase := Dispatching todo\<rparr>)"
| po_call: "poll_system spurious p s \<Longrightarrow> ps_phase s = Dispatching ((fd, w) # todo) \<Longrightarrow> pm_callbacks (ps_mgr s) fd \<noteq> None \<Longrightarrow>
    poll_system spurious p (s\<lparr>ps_phase := Calling fd todo\<rparr>)"
| po_skip: "poll_system spurious p s \<Longrightarrow> ps_phase s = Dispatching ((fd, w) # todo) \<Longrightarrow> pm_callbacks (ps_mgr s) fd = None \<Longrightarrow>
    poll_system spurious p (s\<lparr>ps_phase := Dispatching todo\<rparr>)"
| po_return: "poll_system spurious p s \<Longrightarrow> ps_phase s = Calling fd todo \<Longrightarrow> poll_system spurious p (s\<lparr>ps_phase := Dispatching todo\<rparr>)"
| po_again: "poll_system spurious p s \<Longrightarrow> ps_phase s = Dispatching [] \<Longrightarrow> poll_system spurious p (s\<lparr>ps_phase := Top\<rparr>)"


fun phase_fds :: "phase \<Rightarrow> int set" where
  "phase_fds Top = {}"
| "phase_fds Waking = {}"
| "phase_fds (Selecting tr tw high) = tr \<union> tw"
| "phase_fds (Dispatching todo) = fst ` set todo"
| "phase_fds (Calling fd todo) = insert fd (fst ` set todo)"

definition watched :: "'c poll_sys \<Rightarrow> int set" where
  "watched s = sa_rfds (pm_aio (ps_mgr s)) \<union> sa_wfds (pm_aio (ps_mgr s))"

definition poll_inv :: "'c poll_sys \<Rightarrow> bool" where
  "poll_inv s \<longleftrightarrow> (ps_waiting s \<union> ps_woken s \<union> ps_gone s) \<inter> watched s = {}
     \<and> (ps_woken s \<union> ps_gone s) \<inter> phase_fds (ps_phase s) = {}"

lemma add_callback_watched:
  "add_callback fd fl ch m = Inr m' \<Longrightarrow>
     sa_rfds (pm_aio m') \<union> sa_wfds (pm_aio m') \<subseteq> insert fd (sa_rfds (pm_aio m) \<union> sa_wfds (pm_aio m))"
  by (auto simp: add_callback_def select_watch_fd_def Let_def split: if_splits)

lemma unwatch_watched:
  assumes "select_unwatch_fd fd fl a = Inr (b, a')"
  shows "sa_rfds a' \<union> sa_wfds a' \<subseteq> sa_rfds a \<union> sa_wfds a" "fl = CB_RDWR \<Longrightarrow> fd \<notin> sa_rfds a' \<union> sa_wfds a'"
  using assms by (auto simp: select_unwatch_fd_def Let_def split: if_splits)

lemma del_callback_watched:
  "del_callback fd fl m = Inr m' \<Longrightarrow>
     sa_rfds (pm_aio m') \<union> sa_wfds (pm_aio m') \<subseteq> sa_rfds (pm_aio m) \<union> sa_wfds (pm_aio m)"
  using unwatch_watched(1) by (fastforce simp: del_callback_def res_bind_Inr Let_def split: if_splits)

lemma block_remove_watched:
  assumes "block_remove_begin fd m = Inr m'"
  shows "sa_rfds (pm_aio m') \<union> sa_wfds (pm_aio m') \<subseteq> (sa_rfds (pm_aio m) \<union> sa_wfds (pm_aio m)) - {fd}"
  using assms unwatch_watched by (fastforce simp: block_remove_begin_def res_bind_Inr)

lemma wait_ready_lists_sel:
  "wait_ready_lists (Select_ready R W) high a = Inr (rs, ws, a') \<Longrightarrow>
     set rs \<subseteq> R \<and> set ws \<subseteq> W \<and> sa_rfds a' = sa_rfds a \<and> sa_wfds a' = sa_wfds a"
  by (simp add: wait_ready_lists_def Let_def split: if_splits) (elim conjE, hypsubst, auto)+

lemma wait_loop_ready_fds:
  assumes "wait_loop_ready r high m = Inr (todo, m')" "r = Select_EINTR \<or> (\<exists>R \<subseteq> tr. \<exists>W \<subseteq> tw. r = Select_ready R W)"
  shows "fst ` set todo \<subseteq> tr \<union> tw" "sa_rfds (pm_aio m') = sa_rfds (pm_aio m)" "sa_wfds (pm_aio m') = sa_wfds (pm_aio m)"
proof -
  obtain rs ws a where a: "wait_ready_lists r high (pm_aio m) = Inr (rs, ws, a)"
    "todo = map (\<lambda>fd. (fd, False)) rs @ map (\<lambda>fd. (fd, True)) ws" "m' = m\<lparr>pm_aio := a\<rparr>"
    using assms(1) by (auto simp: wait_loop_ready_def res_bind_Inr)
  have "set rs \<subseteq> tr \<and> set ws \<subseteq> tw \<and> sa_rfds a = sa_rfds (pm_aio m) \<and> sa_wfds a = sa_wfds (pm_aio m)"
  proof (cases "r = Select_EINTR")
    case True
    then show ?thesis using a(1) by (simp add: wait_ready_lists_def)
  next
    case False
    then obtain R W where "R \<subseteq> tr" "W \<subseteq> tw" "r = Select_ready R W" using assms(2) by blast
    then show ?thesis using wait_ready_lists_sel [of R W high "pm_aio m" rs ws a] a(1) by blast
  qed
  then show "fst ` set todo \<subseteq> tr \<union> tw" "sa_rfds (pm_aio m') = sa_rfds (pm_aio m)" "sa_wfds (pm_aio m') = sa_wfds (pm_aio m)"
    using a(2,3) by auto
qed

lemma poll_system_inv: "poll_system False p s \<Longrightarrow> poll_inv s"
proof (induction rule: poll_system.induct)
  case po_start
  then show ?case by (simp add: poll_inv_def poll_sys_new_def)
next
  case (po_add s fd fl ch m)
  then show ?case using add_callback_watched [OF po_add.hyps(3)] by (auto simp: poll_inv_def watched_def)
next
  case (po_del s fd fl m)
  then show ?case using del_callback_watched [OF po_del.hyps(2)] by (auto simp: poll_inv_def watched_def)
next
  case (po_remove s fd m)
  then show ?case using block_remove_watched [OF po_remove.hyps(2)] by (auto simp: poll_inv_def watched_def)
next
  case (po_removed s fd)
  then show ?case by (auto simp: poll_inv_def watched_def block_remove_end_def)
next
  case (po_broadcast s m)
  then show ?case by (auto simp: poll_inv_def watched_def wait_loop_top_def split: if_splits)
next
  case (po_select s tr tw high)
  then show ?case by (auto simp: poll_inv_def watched_def wait_ready_fds_def)
next
  case (po_ready s tr tw high r todo m)
  then show ?case using wait_loop_ready_fds [OF po_ready.hyps(4,3)] by (auto simp: poll_inv_def watched_def)
qed (auto simp: poll_inv_def watched_def)


text \<open>A run: descriptor 5 is registered, becomes readable, and is removed while its callback runs.\<close>

definition sample_poll :: "phase \<Rightarrow> bool \<Rightarrow> bool \<Rightarrow> int set \<Rightarrow> int set \<Rightarrow> int set \<Rightarrow> unit poll_sys" where
  "sample_poll ph on pend wt wk gn = \<lparr>ps_mgr = \<lparr>pm_callbacks = (if gn = {} then [5 \<mapsto> ()] else Map.empty),
     pm_aio = (if on then \<lparr>sa_rfds = {3, 5}, sa_wfds = {}, sa_highfds = 5, sa_pipe = 3, sa_bytes = Suc 0\<rparr>
       else \<lparr>sa_rfds = {3}, sa_wfds = {}, sa_highfds = 3, sa_pipe = 3, sa_bytes = Suc (Suc 0)\<rparr>),
     pm_pending = pend\<rparr>, ps_phase = ph, ps_waiting = wt, ps_woken = wk, ps_gone = gn\<rparr>"

lemma sample_added: "poll_system b 3 (sample_poll Top True False {} {} {})"
  using po_add [OF po_start, where spurious = b and p = 3 and fd = 5 and fl = CB_RDONLY and ch = "()"]
  by (simp add: sample_poll_def poll_sys_new_def poll_mgr_new_def add_callback_def select_watch_fd_def select_new_def
      MAX_POLL_FDS_def Let_def insert_commute)

lemma sample_ready:
  "wait_loop_ready (Select_ready {5} {}) 5 (ps_mgr (sample_poll ph True pend wt wk gn))
     = Inr ([(5, False)], ps_mgr (sample_poll ph True pend wt wk gn))"
  by (simp add: sample_poll_def wait_loop_ready_def wait_ready_lists_def Let_def upto.simps)

lemma sample_poll_running: "poll_system b 3 (sample_poll (Calling 5 []) True False {} {} {})"
proof -
  have "poll_system b 3 (sample_poll Waking True False {} {} {})"
    using po_quiet [OF sample_added] by (simp add: sample_poll_def wait_loop_top_def)
  then have sel: "poll_system b 3 (sample_poll (Selecting {3, 5} {} 5) True False {} {} {})"
    using po_select [of b 3 "sample_poll Waking True False {} {} {}" "{3, 5}" "{}" 5] by (simp add: sample_poll_def wait_ready_fds_def)
  have r: "Select_ready {5} {} = Select_EINTR \<or> (\<exists>R \<subseteq> {3, 5}. \<exists>W \<subseteq> {}. Select_ready {5} {} = Select_ready R W)" by auto
  have "ps_phase (sample_poll (Selecting {3, 5} {} 5) True False {} {} {}) = Selecting {3, 5} {} 5" by (simp add: sample_poll_def)
  then have "poll_system b 3 (sample_poll (Dispatching [(5, False)]) True False {} {} {})"
    using po_ready [OF sel _ r sample_ready] by (simp add: sample_poll_def)
  then show ?thesis
    using po_call [of b 3 "sample_poll (Dispatching [(5, False)]) True False {} {} {}" 5 False "[]"] by (simp add: sample_poll_def)
qed

lemma sample_poll_removing: "poll_system b 3 (sample_poll (Calling 5 []) False True {5} {} {})"
proof -
  have "{3, 5} - {5} = {3 :: int}" by auto
  then have "block_remove_begin 5 (ps_mgr (sample_poll (Calling 5 []) True False {} {} {}))
      = Inr (ps_mgr (sample_poll (Calling 5 []) False True {5} {} {}))"
    by (simp add: sample_poll_def block_remove_begin_def select_unwatch_fd_def new_high_def Let_def upto.simps)
  from po_remove [OF sample_poll_running this] show ?thesis by (simp add: sample_poll_def)
qed



theorem watch_unwatch_restores_witness:
  "\<exists>s'. select_unwatch_fd 5 CB_RDWR (select_watch_fd 5 CB_RDWR (select_new 3)) = Inr (True, s') \<and> sa_rfds s' = {3}"
  using watch_unwatch_restores [of CB_RDWR 5 "select_new 3" epoll_new] select_wf_new [of 3]
  by (auto simp: direction_def reads_def MAX_POLL_FDS_def select_new_def)

end
