(* ===== verification/Rpc_Call.thy ===== *)
theory Rpc_Call
  imports Rpc_Client Text_IO "HOL-Library.Signed_Division"
begin

text \<open>
  The rest of the RPC library around a call: time arithmetic and the loop of \<^verbatim>\<open>call1\<close> that waits and
  retransmits, the connection a client keeps (\<^verbatim>\<open>get_refconn\<close>) and the connections a server accepts
  (\<^verbatim>\<open>tcpsconn\<close>) with their reference counts, the addresses of nodes, and the templates for calls and
  handlers of other arities than those of \<open>Rpc_Client\<close> and \<open>Rpc_Server\<close>. The clock, the kernel and the name
  service are arguments.
\<close>

subsection \<open>Time\<close>

record timespec =
  tv_sec :: int
  tv_nsec :: int

definition cmp_timespec :: "timespec \<Rightarrow> timespec \<Rightarrow> int" where
  "cmp_timespec a b =
     (if tv_sec a > tv_sec b then 1
      else if tv_sec a < tv_sec b then - 1
      else if tv_nsec a > tv_nsec b then 1
      else if tv_nsec a < tv_nsec b then - 1
      else 0)"

function norm_timespec :: "int \<Rightarrow> int \<Rightarrow> timespec" where
  "norm_timespec s n = (if n > 1000000000 then norm_timespec (s + 1) (n - 1000000000) else \<lparr>tv_sec = s, tv_nsec = n\<rparr>)"
  by pat_completeness auto

termination
  by (relation "measure (\<lambda>(s, n). nat n)") auto

declare norm_timespec.simps [simp del]

definition add_timespec :: "timespec \<Rightarrow> int \<Rightarrow> timespec res" where
  "add_timespec a b =
     (let s = tv_sec a + b sdiv 1000; n = tv_nsec a + (b smod 1000) * 1000000
      in if n < 0 then Inl Verify_failed else Inr (norm_timespec s n))"

definition diff_timespec :: "timespec \<Rightarrow> timespec \<Rightarrow> int res" where
  "diff_timespec end start =
     (let diff = (if tv_sec end > tv_sec start then (tv_sec end - tv_sec start) * 1000 else 0)
      in if diff = 0 \<and> tv_sec end \<noteq> tv_sec start then Inl Verify_failed
         else Inr (if tv_nsec end > tv_nsec start then diff + (tv_nsec end - tv_nsec start) sdiv 1000000
                   else diff - (tv_nsec start - tv_nsec end) sdiv 1000000))"

subsection \<open>Waiting for the reply\<close>

definition to_max :: int where "to_max = 120000"
definition to_min :: int where "to_min = 1000"

text \<open>The inner loop. \<^verbatim>\<open>pthread_cond_timedwait\<close> refuses a deadline with more than 999999999 nanoseconds and returns at
  once with the mutex held, so that the loop does not end (\<open>None\<close>); otherwise it ends when the call is done
  or at the deadline. \<open>before\<close> and \<open>after\<close>: whether the call is done when the loop starts and ends.\<close>

definition wait_reply :: "timespec \<Rightarrow> bool \<Rightarrow> bool \<Rightarrow> bool option" where
  "wait_reply deadline before after =
     (if before then Some True
      else if tv_nsec deadline < 0 \<or> tv_nsec deadline \<ge> 1000000000 then None
      else Some after)"

text \<open>What the loop of \<^verbatim>\<open>call1\<close> meets in round \<open>k\<close>: the time, the progress of the call, and whether the channel is
  missing or dead after the wait\<close>

record rounds =
  rd_clock :: "nat \<Rightarrow> timespec"
  rd_before :: "nat \<Rightarrow> bool"
  rd_after :: "nat \<Rightarrow> bool"
  rd_dead :: "nat \<Rightarrow> bool"

text \<open>Result: whether the call is done, the deadline of the last wait, and the rounds in which the request was
  transmitted. The outer \<open>None\<close> is a loop that has not ended. The shift of \<^verbatim>\<open>curr_to\<close> must not overflow.\<close>

fun call1_loop :: "nat \<Rightarrow> bool \<Rightarrow> rounds \<Rightarrow> nat \<Rightarrow> bool \<Rightarrow> int \<Rightarrow> timespec \<Rightarrow> timespec \<Rightarrow> nat list
    \<Rightarrow> (bool \<times> timespec \<times> nat list) res option" where
  "call1_loop 0 retrans w k transmit cur final last_dl sent = None"
| "call1_loop (Suc fuel) retrans w k transmit cur final last_dl sent =
     (let sent = (if transmit then sent @ [k] else sent)
      in if tv_sec final = 0 then Some (Inr (False, last_dl, sent))
         else case add_timespec (rd_clock w k) cur of
             Inl e \<Rightarrow> Some (Inl e)
           | Inr next_dl \<Rightarrow>
               (let (dl, final) = (if cmp_timespec next_dl final > 0 then (final, final\<lparr>tv_sec := 0\<rparr>) else (next_dl, final))
                in case wait_reply dl (rd_before w k) (rd_after w k) of
                    None \<Rightarrow> None
                  | Some True \<Rightarrow> Some (Inr (True, dl, sent))
                  | Some False \<Rightarrow>
                      if cur * 2 \<ge> 2 ^ 31 then Some (Inl Undefined_behaviour)
                      else call1_loop fuel retrans w (k + 1) (retrans \<and> rd_dead w k) (cur * 2) final dl sent))"

declare call1_loop.simps [simp del]

definition call1_wait :: "nat \<Rightarrow> bool \<Rightarrow> rounds \<Rightarrow> timespec \<Rightarrow> int \<Rightarrow> (bool \<times> timespec \<times> nat list) res option" where
  "call1_wait fuel retrans w now to =
     (case add_timespec now to of
        Inl e \<Rightarrow> Some (Inl e)
      | Inr final \<Rightarrow> call1_loop fuel retrans w 0 True to_min final final [])"

subsection \<open>Time arithmetic is exact\<close>

definition ns :: "timespec \<Rightarrow> int" where
  "ns t = tv_sec t * 1000000000 + tv_nsec t"

definition ts_ok :: "timespec \<Rightarrow> bool" where
  "ts_ok t \<longleftrightarrow> 0 \<le> tv_nsec t \<and> tv_nsec t < 1000000000"

lemma sdiv_smod_nonneg: "0 \<le> (b :: int) \<Longrightarrow> b sdiv 1000 = b div 1000" "0 \<le> b \<Longrightarrow> b smod 1000 = b mod 1000"
  by (simp_all add: signed_divide_int_def signed_modulo_int_def sgn_if minus_div_mult_eq_mod)

lemma ms_split: "d * 1000 + r = (b :: int) \<Longrightarrow> (x + d) * 1000000000 + (y + r * 1000000) = x * 1000000000 + y + b * 1000000"
  by simp

lemma norm_small: "n \<le> 1000000000 \<Longrightarrow> norm_timespec s n = \<lparr>tv_sec = s, tv_nsec = n\<rparr>"
  by (subst norm_timespec.simps) simp

lemma norm_timespec_ns:
  "0 \<le> n \<Longrightarrow> ns (norm_timespec s n) = s * 1000000000 + n \<and> 0 \<le> tv_nsec (norm_timespec s n)
     \<and> tv_nsec (norm_timespec s n) \<le> 1000000000 \<and> (0 < n \<longrightarrow> 0 < tv_nsec (norm_timespec s n))"
proof (induction s n rule: norm_timespec.induct)
  case (1 s n)
  then show ?case by (cases "n > 1000000000") (simp_all add: norm_timespec.simps [of s n] ns_def)
qed



subsection \<open>The loop ends\<close>

lemma add_whole_seconds:
  assumes "ts_ok a" "0 \<le> b" "b mod 1000 = 0"
  shows "\<exists>t. add_timespec a b = Inr t \<and> ts_ok t \<and> ns t = ns a + b * 1000000 \<and> tv_sec t = tv_sec a + b div 1000"
proof -
  let ?t = "\<lparr>tv_sec = tv_sec a + b div 1000, tv_nsec = tv_nsec a\<rparr>"
  have "add_timespec a b = Inr ?t"
    using assms by (simp add: add_timespec_def sdiv_smod_nonneg norm_small ts_ok_def)
  moreover have "b div 1000 * 1000 = b" using div_mult_mod_eq [of b 1000] assms(3) by linarith
  then have "ns ?t = ns a + b * 1000000" by (simp add: ns_def)
  ultimately show ?thesis using assms(1) by (simp add: ts_ok_def)
qed

lemma cmp_timespec_ns: "ts_ok a \<Longrightarrow> ts_ok b \<Longrightarrow> 0 < cmp_timespec a b \<longleftrightarrow> ns b < ns a"
  by (auto simp: cmp_timespec_def ns_def ts_ok_def)

lemma wait_reply_ok: "ts_ok dl \<Longrightarrow> wait_reply dl b a = Some (b \<or> a)"
  by (simp add: wait_reply_def ts_ok_def)

text \<open>One round, and the round after the final deadline\<close>

lemma call1_round:
  assumes "ts_ok (rd_clock w k)" "ts_ok final" "tv_sec final \<noteq> 0" "0 \<le> cur" "cur mod 1000 = 0" "cur * 2 < 2 ^ 31"
  shows "\<exists>dl final'. call1_loop (Suc fuel) retrans w k transmit cur final last_dl sent =
       (if rd_before w k \<or> rd_after w k then Some (Inr (True, dl, if transmit then sent @ [k] else sent))
        else call1_loop fuel retrans w (k + 1) (retrans \<and> rd_dead w k) (cur * 2) final' dl (if transmit then sent @ [k] else sent))
     \<and> (if ns final < ns (rd_clock w k) + cur * 1000000 then dl = final \<and> tv_sec final' = 0 else final' = final)"
proof -
  obtain t where t: "add_timespec (rd_clock w k) cur = Inr t" "ts_ok t" "ns t = ns (rd_clock w k) + cur * 1000000"
    using add_whole_seconds [OF assms(1,4,5)] by blast
  show ?thesis
  proof (cases "0 < cmp_timespec t final")
    case True
    then show ?thesis using t assms(2,3,6) cmp_timespec_ns [OF t(2) assms(2)]
      by (intro exI [of _ final] exI [of _ "final\<lparr>tv_sec := 0\<rparr>"]) (simp add: call1_loop.simps wait_reply_ok)
  next
    case False
    then show ?thesis using t assms(3,6) cmp_timespec_ns [OF t(2) assms(2)]
      by (intro exI [of _ t] exI [of _ final]) (simp add: call1_loop.simps wait_reply_ok)
  qed
qed

lemma call1_last:
  "tv_sec final = 0 \<Longrightarrow> \<exists>sent'. call1_loop (Suc n) retrans w k transmit cur final dl sent = Some (Inr (False, dl, sent'))"
  by (simp add: call1_loop.simps)

lemma call1_step:
  assumes "ts_ok (rd_clock w k)" "ns now \<le> ns (rd_clock w k)" "ts_ok final" "tv_sec final \<noteq> 0"
    and "ns final \<le> ns now + to * 1000000" "0 \<le> cur" "cur mod 1000 = 0" "cur * 2 < 2 ^ 31"
  shows "(\<exists>dn dl sent'. call1_loop (Suc (Suc n)) retrans w k transmit cur final last_dl sent = Some (Inr (dn, dl, sent'))
        \<and> (dn \<or> dl = final))
     \<or> cur \<le> to \<and> (\<exists>transmit' dl sent'. call1_loop (Suc (Suc n)) retrans w k transmit cur final last_dl sent
        = call1_loop (Suc n) retrans w (k + 1) transmit' (cur * 2) final dl sent')"
proof -
  let ?sent = "if transmit then sent @ [k] else sent"
  obtain dl final' where r: "call1_loop (Suc (Suc n)) retrans w k transmit cur final last_dl sent =
       (if rd_before w k \<or> rd_after w k then Some (Inr (True, dl, ?sent))
        else call1_loop (Suc n) retrans w (k + 1) (retrans \<and> rd_dead w k) (cur * 2) final' dl ?sent)"
    "if ns final < ns (rd_clock w k) + cur * 1000000 then dl = final \<and> tv_sec final' = 0 else final' = final"
    using call1_round [OF assms(1,3,4,6-8)] by blast
  show ?thesis
  proof (cases "rd_before w k \<or> rd_after w k")
    case True
    then show ?thesis using r(1) by auto
  next
    case False
    note r1 = r(1) [unfolded if_not_P [OF False]]
    show ?thesis
    proof (cases "ns final < ns (rd_clock w k) + cur * 1000000")
      case True
      then have "dl = final" "tv_sec final' = 0" using r(2) by simp_all
      then show ?thesis using r1 call1_last [of final' n retrans w "k + 1" "retrans \<and> rd_dead w k" "cur * 2" dl ?sent] by metis
    next
      case False
      then have "final' = final" "cur \<le> to" using r(2) assms(2,5) by simp_all
      then show ?thesis using r1 by blast
    qed
  qed
qed

lemma call1_loop_ends:
  assumes "\<And>k. ts_ok (rd_clock w k) \<and> ns now \<le> ns (rd_clock w k)" "ts_ok final" "tv_sec final \<noteq> 0"
    and "ns final \<le> ns now + to * 1000000" "to \<le> 2 ^ 28" "j + m = 19"
  shows "\<exists>dn dl sent'. call1_loop (Suc (Suc m)) retrans w k transmit (1000 * 2 ^ j) final last_dl sent = Some (Inr (dn, dl, sent'))
     \<and> (dn \<or> dl = final)"
  using assms(6)
proof (induction m arbitrary: j k transmit last_dl sent)
  case 0
  then have "j = 19" by simp
  then show ?case
    using call1_step [of w k now final to "1000 * 2 ^ j" 0 retrans transmit last_dl sent] assms(1-5) by simp
next
  case (Suc m)
  have "(2 :: int) ^ j \<le> 2 ^ 18" using Suc.prems by (intro power_increasing) auto
  then have "(1000 * 2 ^ j * 2 :: int) < 2 ^ 31" by simp
  then consider "\<exists>dn dl sent'. call1_loop (Suc (Suc (Suc m))) retrans w k transmit (1000 * 2 ^ j) final last_dl sent = Some (Inr (dn, dl, sent'))
        \<and> (dn \<or> dl = final)"
    | transmit' dl sent' where "call1_loop (Suc (Suc (Suc m))) retrans w k transmit (1000 * 2 ^ j) final last_dl sent
        = call1_loop (Suc (Suc m)) retrans w (k + 1) transmit' (1000 * 2 ^ j * 2) final dl sent'"
    using call1_step [of w k now final to "1000 * 2 ^ j" "Suc m" retrans transmit last_dl sent] assms(1-4) by auto
  then show ?case
  proof cases
    case 2
    have "1000 * 2 ^ j * 2 = (1000 * 2 ^ Suc j :: int)" by simp
    then show ?thesis using 2 Suc.IH [of "Suc j" "k + 1" transmit' dl sent'] Suc.prems by simp
  qed
qed



subsection \<open>Calls and handlers with more arguments\<close>

text \<open>The argument buffers of \<^verbatim>\<open>rpcc::call\<close> with no and with four to seven arguments, and the handlers \<^verbatim>\<open>rpcs::reg\<close>
  builds for methods of five to seven arguments.\<close>

definition call_args0 :: marshall where
  "call_args0 = marshall_new"

definition call_args4 :: "('a \<Rightarrow> marshall \<Rightarrow> marshall) \<Rightarrow> ('b \<Rightarrow> marshall \<Rightarrow> marshall) \<Rightarrow> ('c \<Rightarrow> marshall \<Rightarrow> marshall)
    \<Rightarrow> ('d \<Rightarrow> marshall \<Rightarrow> marshall)
    \<Rightarrow> 'a \<Rightarrow> 'b \<Rightarrow> 'c \<Rightarrow> 'd \<Rightarrow> marshall" where
  "call_args4 put1 put2 put3 put4 a1 a2 a3 a4 =
     put4 a4 (put3 a3 (put2 a2 (put1 a1 marshall_new)))"

definition call_args5 :: "('a \<Rightarrow> marshall \<Rightarrow> marshall) \<Rightarrow> ('b \<Rightarrow> marshall \<Rightarrow> marshall) \<Rightarrow> ('c \<Rightarrow> marshall \<Rightarrow> marshall)
    \<Rightarrow> ('d \<Rightarrow> marshall \<Rightarrow> marshall) \<Rightarrow> ('e \<Rightarrow> marshall \<Rightarrow> marshall)
    \<Rightarrow> 'a \<Rightarrow> 'b \<Rightarrow> 'c \<Rightarrow> 'd \<Rightarrow> 'e \<Rightarrow> marshall" where
  "call_args5 put1 put2 put3 put4 put5 a1 a2 a3 a4 a5 =
     put5 a5 (put4 a4 (put3 a3 (put2 a2 (put1 a1 marshall_new))))"

definition call_args6 :: "('a \<Rightarrow> marshall \<Rightarrow> marshall) \<Rightarrow> ('b \<Rightarrow> marshall \<Rightarrow> marshall) \<Rightarrow> ('c \<Rightarrow> marshall \<Rightarrow> marshall)
    \<Rightarrow> ('d \<Rightarrow> marshall \<Rightarrow> marshall) \<Rightarrow> ('e \<Rightarrow> marshall \<Rightarrow> marshall) \<Rightarrow> ('f \<Rightarrow> marshall \<Rightarrow> marshall)
    \<Rightarrow> 'a \<Rightarrow> 'b \<Rightarrow> 'c \<Rightarrow> 'd \<Rightarrow> 'e \<Rightarrow> 'f \<Rightarrow> marshall" where
  "call_args6 put1 put2 put3 put4 put5 put6 a1 a2 a3 a4 a5 a6 =
     put6 a6 (put5 a5 (put4 a4 (put3 a3 (put2 a2 (put1 a1 marshall_new)))))"

definition call_args7 :: "('a \<Rightarrow> marshall \<Rightarrow> marshall) \<Rightarrow> ('b \<Rightarrow> marshall \<Rightarrow> marshall) \<Rightarrow> ('c \<Rightarrow> marshall \<Rightarrow> marshall)
    \<Rightarrow> ('d \<Rightarrow> marshall \<Rightarrow> marshall) \<Rightarrow> ('e \<Rightarrow> marshall \<Rightarrow> marshall) \<Rightarrow> ('f \<Rightarrow> marshall \<Rightarrow> marshall)
    \<Rightarrow> ('g \<Rightarrow> marshall \<Rightarrow> marshall)
    \<Rightarrow> 'a \<Rightarrow> 'b \<Rightarrow> 'c \<Rightarrow> 'd \<Rightarrow> 'e \<Rightarrow> 'f \<Rightarrow> 'g \<Rightarrow> marshall" where
  "call_args7 put1 put2 put3 put4 put5 put6 put7 a1 a2 a3 a4 a5 a6 a7 =
     put7 a7 (put6 a6 (put5 a5 (put4 a4 (put3 a3 (put2 a2 (put1 a1 marshall_new))))))"

definition reg_h5 :: "(unmarshall \<Rightarrow> 'a \<times> unmarshall) \<Rightarrow> (unmarshall \<Rightarrow> 'b \<times> unmarshall)
    \<Rightarrow> (unmarshall \<Rightarrow> 'c \<times> unmarshall) \<Rightarrow> (unmarshall \<Rightarrow> 'd \<times> unmarshall)
    \<Rightarrow> (unmarshall \<Rightarrow> 'e \<times> unmarshall)
    \<Rightarrow> ('r \<Rightarrow> marshall \<Rightarrow> marshall)
    \<Rightarrow> ('a \<Rightarrow> 'b \<Rightarrow> 'c \<Rightarrow> 'd \<Rightarrow> 'e \<Rightarrow> 's \<Rightarrow> (int \<times> 'r \<times> 's) res) \<Rightarrow> 's handler" where
  "reg_h5 get1 get2 get3 get4 get5 putr meth args ret s =
     (let (a1, args) = get1 args; (a2, args) = get2 args; (a3, args) = get3 args;
          (a4, args) = get4 args; (a5, args) = get5 args
      in if \<not> okdone args then Inr (unmarshal_args_failure, ret, s)
         else res_bind (meth a1 a2 a3 a4 a5 s) (\<lambda>(b, r, s). Inr (b, putr r ret, s)))"

definition reg_h6 :: "(unmarshall \<Rightarrow> 'a \<times> unmarshall) \<Rightarrow> (unmarshall \<Rightarrow> 'b \<times> unmarshall)
    \<Rightarrow> (unmarshall \<Rightarrow> 'c \<times> unmarshall) \<Rightarrow> (unmarshall \<Rightarrow> 'd \<times> unmarshall)
    \<Rightarrow> (unmarshall \<Rightarrow> 'e \<times> unmarshall) \<Rightarrow> (unmarshall \<Rightarrow> 'f \<times> unmarshall)
    \<Rightarrow> ('r \<Rightarrow> marshall \<Rightarrow> marshall)
    \<Rightarrow> ('a \<Rightarrow> 'b \<Rightarrow> 'c \<Rightarrow> 'd \<Rightarrow> 'e \<Rightarrow> 'f \<Rightarrow> 's \<Rightarrow> (int \<times> 'r \<times> 's) res) \<Rightarrow> 's handler" where
  "reg_h6 get1 get2 get3 get4 get5 get6 putr meth args ret s =
     (let (a1, args) = get1 args; (a2, args) = get2 args; (a3, args) = get3 args;
          (a4, args) = get4 args; (a5, args) = get5 args; (a6, args) = get6 args
      in if \<not> okdone args then Inr (unmarshal_args_failure, ret, s)
         else res_bind (meth a1 a2 a3 a4 a5 a6 s) (\<lambda>(b, r, s). Inr (b, putr r ret, s)))"

definition reg_h7 :: "(unmarshall \<Rightarrow> 'a \<times> unmarshall) \<Rightarrow> (unmarshall \<Rightarrow> 'b \<times> unmarshall)
    \<Rightarrow> (unmarshall \<Rightarrow> 'c \<times> unmarshall) \<Rightarrow> (unmarshall \<Rightarrow> 'd \<times> unmarshall)
    \<Rightarrow> (unmarshall \<Rightarrow> 'e \<times> unmarshall) \<Rightarrow> (unmarshall \<Rightarrow> 'f \<times> unmarshall)
    \<Rightarrow> (unmarshall \<Rightarrow> 'g \<times> unmarshall)
    \<Rightarrow> ('r \<Rightarrow> marshall \<Rightarrow> marshall)
    \<Rightarrow> ('a \<Rightarrow> 'b \<Rightarrow> 'c \<Rightarrow> 'd \<Rightarrow> 'e \<Rightarrow> 'f \<Rightarrow> 'g \<Rightarrow> 's \<Rightarrow> (int \<times> 'r \<times> 's) res) \<Rightarrow> 's handler" where
  "reg_h7 get1 get2 get3 get4 get5 get6 get7 putr meth args ret s =
     (let (a1, args) = get1 args; (a2, args) = get2 args; (a3, args) = get3 args;
          (a4, args) = get4 args; (a5, args) = get5 args; (a6, args) = get6 args;
          (a7, args) = get7 args
      in if \<not> okdone args then Inr (unmarshal_args_failure, ret, s)
         else res_bind (meth a1 a2 a3 a4 a5 a6 a7 s) (\<lambda>(b, r, s). Inr (b, putr r ret, s)))"

text \<open>Operators applied one after the other satisfy the contract of a single one, so that a handler of several arguments
  is a handler of one tuple.\<close>

definition put_both :: "('a \<Rightarrow> marshall \<Rightarrow> marshall) \<Rightarrow> ('b \<Rightarrow> marshall \<Rightarrow> marshall) \<Rightarrow> 'a \<times> 'b \<Rightarrow> marshall \<Rightarrow> marshall" where
  "put_both p q x m = q (snd x) (p (fst x) m)"

definition get_both :: "(unmarshall \<Rightarrow> 'a \<times> unmarshall) \<Rightarrow> (unmarshall \<Rightarrow> 'b \<times> unmarshall) \<Rightarrow> unmarshall \<Rightarrow> ('a \<times> 'b) \<times> unmarshall" where
  "get_both g h u = (let (a, u) = g u; (b, u) = h u in ((a, b), u))"

definition enc_both :: "('a \<Rightarrow> byte list) \<Rightarrow> ('b \<Rightarrow> byte list) \<Rightarrow> 'a \<times> 'b \<Rightarrow> byte list" where
  "enc_both e f x = e (fst x) @ f (snd x)"

lemma codec_both:
  assumes "codec p g e fits" "codec q h f fits'"
  shows "codec (put_both p q) (get_both g h) (enc_both e f) (\<lambda>x. fits (fst x) \<and> fits' (snd x))"
proof -
  have r: "g (ustate pre (e a @ f b @ bs)) = (a, ustate (pre @ map Some (e a)) (f b @ bs))"
    "h (ustate (pre @ map Some (e a)) (f b @ bs)) = (b, ustate (pre @ map Some (e a) @ map Some (f b)) bs)"
    if "fits a" "fits' b" "length pre + (length (e a) + length (f b)) + length bs < 2 ^ 32" for a b pre bs
    using codec.get_enc [OF assms(1) that(1), of pre "f b @ bs"] codec.get_enc [OF assms(2) that(2), of "pre @ map Some (e a)" bs] that(3)
    by simp_all
  show ?thesis using assms by unfold_locales
    (simp_all add: put_both_def get_both_def enc_both_def codec.put_ok codec.put_content codec.put_header r)
qed

lemma handlers_of_tuples:
  "reg_h5 g1 g2 g3 g4 g5 putr (\<lambda>a b c d e. meth5 (a, b, c, d, e))
     = reg_h1 (get_both g1 (get_both g2 (get_both g3 (get_both g4 g5)))) putr meth5"
  "reg_h6 g1 g2 g3 g4 g5 g6 putr (\<lambda>a b c d e f. meth6 (a, b, c, d, e, f))
     = reg_h1 (get_both g1 (get_both g2 (get_both g3 (get_both g4 (get_both g5 g6))))) putr meth6"
  "reg_h7 g1 g2 g3 g4 g5 g6 g7 putr (\<lambda>a b c d e f g. meth7 (a, b, c, d, e, f, g))
     = reg_h1 (get_both g1 (get_both g2 (get_both g3 (get_both g4 (get_both g5 (get_both g6 g7)))))) putr meth7"
  by (simp_all add: fun_eq_iff reg_h1_def reg_h5_def reg_h6_def reg_h7_def get_both_def split_beta Let_def)

lemma calls_of_tuples:
  "call_args5 p1 p2 p3 p4 p5 a b c d e = call_args1 (put_both p1 (put_both p2 (put_both p3 (put_both p4 p5)))) (a, b, c, d, e)"
  "call_args6 p1 p2 p3 p4 p5 p6 a b c d e f
     = call_args1 (put_both p1 (put_both p2 (put_both p3 (put_both p4 (put_both p5 p6))))) (a, b, c, d, e, f)"
  "call_args7 p1 p2 p3 p4 p5 p6 p7 a b c d e f g
     = call_args1 (put_both p1 (put_both p2 (put_both p3 (put_both p4 (put_both p5 (put_both p6 p7)))))) (a, b, c, d, e, f, g)"
  by (simp_all add: call_args1_def call_args5_def call_args6_def call_args7_def put_both_def)

text \<open>A handler of seven arguments receives the seven arguments of the call, in order, whatever types they have whose operators
  satisfy the contract.\<close>

theorem seven_arguments:
  assumes "codec p1 g1 e1 f1" "codec p2 g2 e2 f2" "codec p3 g3 e3 f3" "codec p4 g4 e4 f4" "codec p5 g5 e5 f5" "codec p6 g6 e6 f6"
    "codec p7 g7 e7 f7" "f1 a1" "f2 a2" "f3 a3" "f4 a4" "f5 a5" "f6 a6" "f7 a7"
    "m_ind (call_args7 p1 p2 p3 p4 p5 p6 p7 a1 a2 a3 a4 a5 a6 a7) < 2 ^ 32"
  shows "reg_h7 g1 g2 g3 g4 g5 g6 g7 putr meth
      (snd (unpack_req_header (unmarshall_buf (wire (pack_req_header h (call_args7 p1 p2 p3 p4 p5 p6 p7 a1 a2 a3 a4 a5 a6 a7)))))) ret s
    = res_bind (meth a1 a2 a3 a4 a5 a6 a7 s) (\<lambda>(b, r, s). Inr (b, putr r ret, s))"
proof -
  note c = codec_both [OF assms(1) codec_both [OF assms(2) codec_both [OF assms(3) codec_both [OF assms(4)
    codec_both [OF assms(5) codec_both [OF assms(6,7)]]]]]]
  show ?thesis
    using codec.handler_reads [OF c, of "(a1, a2, a3, a4, a5, a6, a7)" putr "\<lambda>(a, b, c, d, e, f, g). meth a b c d e f g" h ret s]
      assms(8-15)
    by (simp add: calls_of_tuples flip: handlers_of_tuples(3))
qed

subsection \<open>Connections and their references\<close>

type_synonym conn_heap = "nat \<rightharpoonup> connection"

definition h_incref :: "nat \<Rightarrow> conn_heap \<Rightarrow> conn_heap res" where
  "h_incref a h = (case h a of None \<Rightarrow> Inl Undefined_behaviour | Some c \<Rightarrow> Inr (h(a \<mapsto> incref c)))"

definition h_decref :: "nat \<Rightarrow> conn_heap \<Rightarrow> conn_heap res" where
  "h_decref a h = (case h a of None \<Rightarrow> Inl Undefined_behaviour | Some c \<Rightarrow> res_bind (decref c) (\<lambda>c'. Inr (h(a := c'))))"

text \<open>\<open>ok\<close>: whether the kernel connects; \<open>a\<close> is the address of the new object.\<close>

definition connect_to_dst :: "bool \<Rightarrow> nat \<Rightarrow> int \<times> int \<Rightarrow> conn_heap \<Rightarrow> nat option \<times> conn_heap" where
  "connect_to_dst ok a time h = (if \<not> ok then (None, h) else (Some a, h(a \<mapsto> connection_new time)))"

definition get_refconn :: "bool \<Rightarrow> nat \<Rightarrow> int \<times> int \<Rightarrow> nat option \<Rightarrow> nat option \<Rightarrow> conn_heap
    \<Rightarrow> (nat option \<times> nat option \<times> conn_heap) res" where
  "get_refconn ok a time chan ch h =
     res_bind
       (case chan of
          None \<Rightarrow> Inr (connect_to_dst ok a time h)
        | Some c \<Rightarrow> (case h c of
              None \<Rightarrow> Inl Undefined_behaviour
            | Some x \<Rightarrow> if c_dead x then res_bind (h_decref c h) (\<lambda>h. Inr (connect_to_dst ok a time h)) else Inr (Some c, h)))
       (\<lambda>(chan, h). case chan of
            None \<Rightarrow> Inr (None, ch, h)
          | Some c \<Rightarrow> res_bind (case ch of None \<Rightarrow> Inr h | Some c' \<Rightarrow> h_decref c' h)
              (\<lambda>h. res_bind (h_incref c h) (\<lambda>h. Inr (Some c, Some c, h))))"

text \<open>\<^verbatim>\<open>tcpsconn\<close>: the connections by file descriptor. \<open>None\<close>: the thread has ended.\<close>

fun gc_conns :: "(int \<times> nat) list \<Rightarrow> conn_heap \<Rightarrow> ((int \<times> nat) list \<times> conn_heap) res" where
  "gc_conns [] h = Inr ([], h)"
| "gc_conns ((fd, i) # cs) h =
     (case h i of
        None \<Rightarrow> Inl Undefined_behaviour
      | Some x \<Rightarrow>
          if c_dead x \<and> c_refno x = 1 then res_bind (h_decref i h) (gc_conns cs)
          else res_bind (gc_conns cs h) (\<lambda>(cs, h). Inr ((fd, i) # cs, h)))"

definition process_accept :: "int \<Rightarrow> nat \<Rightarrow> int \<times> int \<Rightarrow> (int, nat) smap \<Rightarrow> conn_heap \<Rightarrow> ((int, nat) smap \<times> conn_heap) option res" where
  "process_accept s1 a time conns h =
     (if s1 < 0 then Inr None
      else res_bind (gc_conns conns (h(a \<mapsto> connection_new time)))
        (\<lambda>(conns, h). Inr (Some (smap_set s1 a conns, h))))"

datatype accept_event = Ev_EINTR | Ev_error | Ev_pipe | Ev_tcp int | Ev_other

definition accept_conn :: "accept_event \<Rightarrow> nat \<Rightarrow> int \<times> int \<Rightarrow> (int, nat) smap \<Rightarrow> conn_heap \<Rightarrow> ((int, nat) smap \<times> conn_heap) option res" where
  "accept_conn ev a time conns h =
     (case ev of
        Ev_EINTR \<Rightarrow> Inr (Some (conns, h))
      | Ev_error \<Rightarrow> Inl Verify_failed
      | Ev_pipe \<Rightarrow> Inr None
      | Ev_tcp s1 \<Rightarrow> process_accept s1 a time conns h
      | Ev_other \<Rightarrow> Inl Verify_failed)"

fun tcpsconn_close :: "(int \<times> nat) list \<Rightarrow> conn_heap \<Rightarrow> conn_heap res" where
  "tcpsconn_close [] h = Inr h"
| "tcpsconn_close ((fd, i) # cs) h =
     (case h i of
        None \<Rightarrow> Inl Undefined_behaviour
      | Some x \<Rightarrow> res_bind (h_decref i (h(i \<mapsto> closeconn x))) (tcpsconn_close cs))"

text \<open>The garbage collection in \<^verbatim>\<open>process_accept\<close>.\<close>

definition collectable :: "conn_heap \<Rightarrow> nat \<Rightarrow> bool" where
  "collectable h i \<longleftrightarrow> c_dead (the (h i)) \<and> c_refno (the (h i)) = 1"

definition conns_ok :: "(int \<times> nat) list \<Rightarrow> conn_heap \<Rightarrow> bool" where
  "conns_ok cs h \<longleftrightarrow> distinct (map snd cs)
     \<and> (\<forall>(fd, i) \<in> set cs. \<exists>x. h i = Some x \<and> 1 \<le> c_refno x \<and> pd_buf (c_wpdu x) = None)"

lemma conns_ok_upd: "a \<notin> snd ` set cs \<Longrightarrow> conns_ok cs h \<Longrightarrow> conns_ok cs (h(a := v))"
  unfolding conns_ok_def by (auto simp: image_iff Ball_def)

lemma collectable_upd: "a \<notin> snd ` set cs \<Longrightarrow> filter (\<lambda>(fd, j). \<not> collectable (h(a := v)) j) cs = filter (\<lambda>(fd, j). \<not> collectable h j) cs"
  "a \<notin> snd ` set cs \<Longrightarrow> (j \<in> snd ` set cs \<and> collectable (h(a := v)) j) = (j \<in> snd ` set cs \<and> collectable h j)"
  by (force simp: collectable_def intro!: filter_cong)+

lemma set_smap_set_new: "k \<notin> fst ` set m \<Longrightarrow> set (smap_set k v m) = insert (k, v) (set m)"
  by (induction k v m rule: smap_set.induct) auto

lemma gc_conns_collects:
  "conns_ok cs h \<Longrightarrow> gc_conns cs h =
     Inr (filter (\<lambda>(fd, i). \<not> collectable h i) cs, \<lambda>j. if j \<in> snd ` set cs \<and> collectable h j then None else h j)"
proof (induction cs arbitrary: h)
  case (Cons e cs)
  obtain fd i where e: "e = (fd, i)" by fastforce
  obtain x where x: "h i = Some x" "1 \<le> c_refno x" "pd_buf (c_wpdu x) = None"
    using Cons.prems e by (auto simp: conns_ok_def)
  have i: "i \<notin> snd ` set cs" using Cons.prems e by (auto simp: conns_ok_def)
  have keep: "gc_conns cs h = Inr (filter (\<lambda>(fd, i). \<not> collectable h i) cs, \<lambda>j. if j \<in> snd ` set cs \<and> collectable h j then None else h j)"
    using Cons.prems by (intro Cons.IH) (auto simp: conns_ok_def)
  have "conns_ok cs (h(i := None))"
    using Cons.prems e i by (intro conns_ok_upd) (auto simp: conns_ok_def)
  note gone = Cons.IH [OF this]
  have h: "(\<lambda>j. if j \<in> snd ` set cs \<and> collectable h j then None else (h(i := None)) j)
      = (\<lambda>j. if j \<in> snd ` set (e # cs) \<and> collectable h j then None else h j)" if "collectable h i"
    using that e by (auto simp: fun_eq_iff)
  show ?case
  proof (cases "collectable h i")
    case True
    then have "h_decref i h = Inr (h(i := None))" "c_dead x" "c_refno x = 1"
      using x by (simp_all add: collectable_def h_decref_def decref_def)
    then have "gc_conns (e # cs) h = gc_conns cs (h(i := None))" using x(1) e by simp
    also have "\<dots> = Inr (filter (\<lambda>(fd, i). \<not> collectable h i) cs,
        \<lambda>j. if j \<in> snd ` set (e # cs) \<and> collectable h j then None else h j)"
      unfolding gone collectable_upd [OF i] h [OF True] ..
    finally show ?thesis using True e by simp
  next
    case False
    then have "\<not> (c_dead x \<and> c_refno x = 1)" using x(1) by (simp add: collectable_def)
    then show ?thesis using False x(1) e keep i by (auto simp: fun_eq_iff)
  qed
qed simp

text \<open>Accepting a connection collects exactly the connections that are dead and that only the table refers to: no connection a
  handler still refers to is freed, and the table then holds the others and the new one.\<close>

theorem accept_collects:
  assumes "conns_ok conns h" "h a = None" "0 \<le> s1" "s1 \<notin> fst ` set conns"
  shows "\<exists>conns' h'. accept_conn (Ev_tcp s1) a time conns h = Inr (Some (conns', h')) \<and> h' a = Some (connection_new time)
     \<and> (fd, i) \<in> set conns' = ((fd, i) = (s1, a) \<or> (fd, i) \<in> set conns \<and> \<not> collectable h i)
     \<and> (i \<noteq> a \<longrightarrow> h' i = (if i \<in> snd ` set conns \<and> collectable h i then None else h i))"
proof -
  have a: "a \<notin> snd ` set conns" using assms(1,2) by (fastforce simp: conns_ok_def)
  then have "conns_ok conns (h(a \<mapsto> connection_new time))"
    using assms(1) by (rule conns_ok_upd)
  note g = gc_conns_collects [OF this, unfolded collectable_upd [OF a]]
  have "s1 \<notin> fst ` set (filter (\<lambda>(fd, j). \<not> collectable h j) conns)" using assms(4) by auto
  from set_smap_set_new [OF this] show ?thesis using assms(3) a
    by (auto simp: accept_conn_def process_accept_def g)
qed

subsection \<open>Addresses\<close>

record sockaddr_in =
  s_addr :: u32
  sin_port :: u16

definition sockaddr_less :: "sockaddr_in \<Rightarrow> sockaddr_in \<Rightarrow> bool" where
  "sockaddr_less a b \<longleftrightarrow> s_addr a < s_addr b \<or> s_addr a = s_addr b \<and> sin_port a < sin_port b"

definition atoi :: "string \<Rightarrow> int" where
  "atoi s = (let s = dropWhile is_space s;
                 (neg, s) = (case s of c # t \<Rightarrow> if c = CHR ''-'' then (True, t) else if c = CHR ''+'' then (False, t) else (False, s) | [] \<Rightarrow> (False, s));
                 n = int (digits_val (takeWhile is_digit s))
             in if neg then - n else n)"

text \<open>\<open>inet_addr\<close> and \<open>gethostbyname\<close> are the name service; the port is kept in host order.\<close>

definition make_sockaddr2 :: "(string \<rightharpoonup> u32) \<Rightarrow> (string \<rightharpoonup> u32) \<Rightarrow> string \<Rightarrow> string \<Rightarrow> sockaddr_in res" where
  "make_sockaddr2 inet_addr gethostbyname host port =
     res_bind (case inet_addr host of
         Some a \<Rightarrow> Inr a
       | None \<Rightarrow> (case gethostbyname host of None \<Rightarrow> Inl Process_exit | Some a \<Rightarrow> Inr a))
       (\<lambda>a. Inr \<lparr>s_addr = a, sin_port = word_of_int (atoi port)\<rparr>)"

definition make_sockaddr :: "(string \<rightharpoonup> u32) \<Rightarrow> (string \<rightharpoonup> u32) \<Rightarrow> string \<Rightarrow> sockaddr_in res" where
  "make_sockaddr inet_addr gethostbyname hostandport =
     (if CHR '':'' \<notin> set hostandport
      then make_sockaddr2 inet_addr gethostbyname ''127.0.0.1'' hostandport
      else let host = takeWhile (\<lambda>c. c \<noteq> CHR '':'') hostandport
        in if length host \<ge> 200 then Inl Undefined_behaviour
           else make_sockaddr2 inet_addr gethostbyname host (tl (dropWhile (\<lambda>c. c \<noteq> CHR '':'') hostandport)))"

subsection \<open>The connection of a client is counted correctly\<close>

text \<open>Any number of calls share the connection \<open>chan\<close>; \<open>cs\<close> lists the variable \<^verbatim>\<open>ch\<close> of each. A connection may die at
  any time.\<close>

inductive conn_system :: "conn_heap \<Rightarrow> nat option \<Rightarrow> nat option list \<Rightarrow> bool" where
  co_start: "conn_system Map.empty None []"
| co_call: "conn_system h chan cs \<Longrightarrow> conn_system h chan (None # cs)"
| co_refconn: "conn_system h chan (xs @ ch # ys) \<Longrightarrow> h a = None \<Longrightarrow> get_refconn ok a time chan ch h = Inr (chan', ch', h') \<Longrightarrow>
    conn_system h' chan' (xs @ ch' # ys)"
| co_die: "conn_system h chan cs \<Longrightarrow> h c = Some x \<Longrightarrow> conn_system (h(c \<mapsto> closeconn x)) chan cs"
| co_return: "conn_system h chan (xs @ Some c # ys) \<Longrightarrow> h_decref c h = Inr h' \<Longrightarrow> conn_system h' chan (xs @ ys)"
| co_return_none: "conn_system h chan (xs @ None # ys) \<Longrightarrow> conn_system h chan (xs @ ys)"

definition holders :: "nat \<Rightarrow> nat option \<Rightarrow> nat option list \<Rightarrow> int" where
  "holders c chan cs = (if chan = Some c then 1 else 0) + int (count_list cs (Some c))"

definition conn_inv :: "conn_heap \<Rightarrow> nat option \<Rightarrow> nat option list \<Rightarrow> bool" where
  "conn_inv h chan cs \<longleftrightarrow> (\<forall>c x. h c = Some x \<longrightarrow> c_refno x = holders c chan cs \<and> 0 < holders c chan cs
       \<and> pd_buf (c_wpdu x) = None \<and> (chan \<noteq> Some c \<longrightarrow> c_dead x))
     \<and> (\<forall>c. 0 < holders c chan cs \<longrightarrow> h c \<noteq> None)"

lemma conn_invD:
  assumes "conn_inv h chan cs"
  shows "h c = Some x \<Longrightarrow> c_refno x = holders c chan cs \<and> 0 < holders c chan cs \<and> pd_buf (c_wpdu x) = None \<and> (chan \<noteq> Some c \<longrightarrow> c_dead x)"
    and "0 < holders c chan cs \<Longrightarrow> \<exists>x. h c = Some x"
  using assms by (auto simp: conn_inv_def)

lemma holders_simps [simp]:
  "holders c chan (None # cs) = holders c chan cs" "holders c chan (xs @ None # ys) = holders c chan (xs @ ys)"
  "holders c chan (xs @ Some d # ys) = (if c = d then 1 else 0) + holders c chan (xs @ ys)"
  "0 \<le> holders c chan cs" "holders c (Some d) cs = (if c = d then 1 else 0) + holders c None cs"
  by (auto simp: holders_def)

text \<open>A holder gives its reference up.\<close>

lemma conn_inv_drop:
  assumes I: "conn_inv h chan cs" and x: "h c = Some x"
    and n: "holders c chan' cs' = holders c chan cs - 1" "\<And>d. d \<noteq> c \<Longrightarrow> holders d chan' cs' = holders d chan cs"
    and d: "chan' \<noteq> Some c \<Longrightarrow> c_dead x" "\<And>d. d \<noteq> c \<Longrightarrow> chan' = Some d \<longleftrightarrow> chan = Some d"
  shows "\<exists>h'. h_decref c h = Inr h' \<and> conn_inv h' chan' cs'"
proof -
  have c: "c_refno x = holders c chan cs" "0 < holders c chan cs" "pd_buf (c_wpdu x) = None" using conn_invD(1) [OF I x] by simp_all
  let ?n = "holders c chan' cs'"
  have pos: "chan' = Some c \<Longrightarrow> ?n \<noteq> 0" by (simp add: holders_def)
  then have dd: "?n = 0 \<Longrightarrow> c_dead x" using d(1) by blast
  then have e: "h_decref c h = Inr (h(c := if ?n = 0 then None else Some (x\<lparr>c_refno := ?n\<rparr>)))"
    using x c n(1) by (auto simp: h_decref_def decref_def Let_def)
  have "conn_inv (h(c := if ?n = 0 then None else Some (x\<lparr>c_refno := ?n\<rparr>))) chan' cs'"
    unfolding conn_inv_def
  proof (intro conjI allI impI)
    fix b y assume y: "(h(c := if ?n = 0 then None else Some (x\<lparr>c_refno := ?n\<rparr>))) b = Some y"
    have "c_refno y = holders b chan' cs' \<and> 0 < holders b chan' cs' \<and> pd_buf (c_wpdu y) = None \<and> (chan' \<noteq> Some b \<longrightarrow> c_dead y)"
    proof (cases "b = c")
      case True
      then show ?thesis using y c(3) d(1) holders_simps(4) [of c chan' cs'] by (auto simp: order_le_less split: if_splits)
    next
      case False
      then have "h b = Some y" using y by simp
      then show ?thesis using conn_invD(1) [OF I, of b y] n(2) [OF False] d(2) [OF False] by simp
    qed
    then show "c_refno y = holders b chan' cs'" "0 < holders b chan' cs'" "pd_buf (c_wpdu y) = None" "chan' \<noteq> Some b \<Longrightarrow> c_dead y" by simp_all
  next
    fix b assume b: "0 < holders b chan' cs'"
    then show "(h(c := if ?n = 0 then None else Some (x\<lparr>c_refno := ?n\<rparr>))) b \<noteq> None"
      using conn_invD(2) [OF I, of b] n(2) [of b] by (cases "b = c") auto
  qed
  then show ?thesis using e by blast
qed

lemma holders_pos: "chan = Some c \<or> Some c \<in> set cs \<Longrightarrow> 0 < holders c chan cs"
  by (auto simp: holders_def count_list_0_iff add_nonneg_pos intro!: gr_zeroI)

lemma conn_inv_held: "conn_inv h chan cs \<Longrightarrow> chan = Some c \<or> Some c \<in> set cs \<Longrightarrow> \<exists>x. h c = Some x"
  using conn_invD(2) holders_pos by blast

lemma conn_inv_connect:
  assumes I: "conn_inv h None cs" and a: "h a = None"
  shows "conn_inv (h(a \<mapsto> connection_new time)) (Some a) cs"
proof -
  have "holders a None cs = 0" 
  proof (rule ccontr)
    assume "holders a None cs \<noteq> 0"
    then show False using conn_invD(2) [OF I, of a] a holders_simps(4) [of a None cs] by simp
  qed
  then show ?thesis using I by (auto simp: conn_inv_def connection_new_def no_pdu_def)
qed

lemma conn_inv_share:
  assumes I: "conn_inv h (Some c) (xs @ None # ys)"
  shows "\<exists>h'. h_incref c h = Inr h' \<and> conn_inv h' (Some c) (xs @ Some c # ys)"
proof -
  obtain x where x: "h c = Some x" using conn_inv_held [OF I, of c] by auto
  have k: "holders e (Some c) (xs @ Some c # ys) = holders e (Some c) (xs @ None # ys) + (if e = c then 1 else 0)" for e
    by simp
  have "conn_inv (h(c \<mapsto> incref x)) (Some c) (xs @ Some c # ys)"
    unfolding conn_inv_def k using I conn_invD(1) [OF I x] by (auto simp: conn_inv_def incref_def simp del: holders_simps)
  then show ?thesis using x by (simp add: h_incref_def)
qed

lemma get_refconn_inv:
  assumes I: "conn_inv h chan (xs @ ch # ys)" and a: "h a = None"
  shows "\<exists>chan' ch' h'. get_refconn ok a time chan ch h = Inr (chan', ch', h') \<and> conn_inv h' chan' (xs @ ch' # ys)"
proof -
  have fresh: "\<exists>chan' h'. connect_to_dst ok a time g = (chan', h') \<and> conn_inv h' chan' (xs @ ch # ys)"
    if "conn_inv g None (xs @ ch # ys)" "g a = None" for g
    using conn_inv_connect [OF that] that(1) by (simp add: connect_to_dst_def)
  have "\<exists>chan' h'. (case chan of
          None \<Rightarrow> Inr (connect_to_dst ok a time h)
        | Some c \<Rightarrow> (case h c of
              None \<Rightarrow> Inl Undefined_behaviour
            | Some x \<Rightarrow> if c_dead x then res_bind (h_decref c h) (\<lambda>h. Inr (connect_to_dst ok a time h)) else Inr (Some c, h)))
      = Inr (chan', h') \<and> conn_inv h' chan' (xs @ ch # ys)"
  proof (cases chan)
    case None
    then show ?thesis using fresh [of h] I a by simp
  next
    case (Some c)
    obtain x where x: "h c = Some x" using conn_inv_held [OF I, of c] Some by auto
    show ?thesis
    proof (cases "c_dead x")
      case True
      obtain h' where h': "h_decref c h = Inr h'" "conn_inv h' None (xs @ ch # ys)"
        using conn_inv_drop [OF I x, of None "xs @ ch # ys"] True Some by (auto simp: holders_def)
      moreover have "h' a = None" using h'(1) x a by (auto simp: h_decref_def res_bind_Inr split: if_splits)
      ultimately show ?thesis using fresh [of h'] Some x True by simp
    qed (use Some x I in simp)
  qed
  then obtain chan1 h1 where g: "get_refconn ok a time chan ch h = (case chan1 of
            None \<Rightarrow> Inr (None, ch, h1)
          | Some c \<Rightarrow> res_bind (case ch of None \<Rightarrow> Inr h1 | Some c' \<Rightarrow> h_decref c' h1)
              (\<lambda>h. res_bind (h_incref c h) (\<lambda>h. Inr (Some c, Some c, h))))" "conn_inv h1 chan1 (xs @ ch # ys)"
    unfolding get_refconn_def by auto
  show ?thesis
  proof (cases chan1)
    case None
    then show ?thesis using g by simp
  next
    case (Some c)
    have "\<exists>h2. (case ch of None \<Rightarrow> Inr h1 | Some c' \<Rightarrow> h_decref c' h1) = Inr h2 \<and> conn_inv h2 (Some c) (xs @ None # ys)"
    proof (cases ch)
      case None
      then show ?thesis using g(2) Some by simp
    next
      case (Some d)
      obtain x where x: "h1 d = Some x" using conn_inv_held [OF g(2), of d] Some by auto
      show ?thesis using conn_inv_drop [OF g(2) x, of chan1 "xs @ None # ys"] conn_invD(1) [OF g(2) x] Some \<open>chan1 = Some c\<close> by auto
    qed
    then show ?thesis using g(1) Some conn_inv_share by fastforce
  qed
qed

lemma conn_system_inv: "conn_system h chan cs \<Longrightarrow> conn_inv h chan cs"
proof (induction rule: conn_system.induct)
  case co_start
  then show ?case by (simp add: conn_inv_def holders_def)
next
  case (co_call h chan cs)
  then show ?case by (simp add: conn_inv_def)
next
  case (co_refconn h chan xs ch ys a ok time chan' ch' h')
  then show ?case using get_refconn_inv [OF co_refconn.IH co_refconn.hyps(2), of ok time] by auto
next
  case (co_die h chan cs c x)
  then show ?case by (auto simp: conn_inv_def closeconn_def)
next
  case (co_return h chan xs c ys h')
  obtain x where x: "h c = Some x" using conn_inv_held [OF co_return.IH, of c] by auto
  show ?case
    using conn_inv_drop [OF co_return.IH x, of chan "xs @ ys"] conn_invD(1) [OF co_return.IH x] co_return.hyps(2) by auto
next
  case (co_return_none h chan xs ys)
  then show ?case by (simp add: conn_inv_def)
qed

text \<open>(C22) The connection of a client is never freed while it is in use and never leaked: with any number of calls, lost
  connections and failed attempts to connect, \<^verbatim>\<open>get_refconn\<close> and the end of a call touch only live
  objects, the reference count of every connection is the number of its holders, and an object that
  exists has a holder.\<close>

theorem refconn_counted:
  assumes "conn_system h chan (xs @ ch # ys)" "h a = None"
  shows "(\<exists>r. get_refconn ok a time chan ch h = Inr r) \<and> (ch = None \<or> (\<exists>h'. h_decref (the ch) h = Inr h'))
     \<and> (h c = None \<or> c_refno (the (h c)) = holders c chan (xs @ ch # ys) \<and> 0 < holders c chan (xs @ ch # ys))"
proof -
  note I = conn_system_inv [OF assms(1)]
  have "\<exists>h'. h_decref d h = Inr h'" if d: "ch = Some d" for d
  proof -
    obtain x where x: "h d = Some x" using conn_inv_held [OF I, of d] d by auto
    show ?thesis using conn_inv_drop [OF I x, of chan "xs @ ys"] conn_invD(1) [OF I x] d by auto
  qed
  moreover have "h c = None \<or> c_refno (the (h c)) = holders c chan (xs @ ch # ys) \<and> 0 < holders c chan (xs @ ch # ys)"
    using conn_invD(1) [OF I, of c] by (cases "h c") auto
  ultimately show ?thesis using get_refconn_inv [OF I assms(2), of ok time] by (cases ch) auto
qed

theorem refconn_counted_witness:
  "\<exists>h c. conn_system h (Some 0) [Some 0] \<and> h 0 = Some c \<and> c_refno c = 2"
proof -
  let ?c = "incref (connection_new (0, 0))"
  have s: "conn_system [0 \<mapsto> ?c] (Some 0) ([] @ Some 0 # [])"
    using co_refconn [of Map.empty None "[]" None "[]" 0 True "(0, 0)" "Some 0" "Some 0" "[0 \<mapsto> ?c]"] co_call [OF co_start]
    by (simp add: get_refconn_def connect_to_dst_def h_incref_def)
  show ?thesis using refconn_counted [OF s, of 1 True "(0, 0)" 0] s
    by (intro exI [of _ "[0 \<mapsto> ?c]"] exI [of _ ?c]) (simp add: holders_def)
qed

end
