(* ===== verification/Extent.thy ===== *)
theory Extent
  imports Protocols
begin

text \<open>
  The extent server (\<^verbatim>\<open>extent_server.cc\<close>), which stores the contents and the attributes of files and
  directories, and the extent client (\<^verbatim>\<open>extent_client.cc\<close>), which caches extents until they are
  flushed. The client reaches the server through a record of remote calls; what it relies on is
  the locale \<open>extent_store\<close>, which the server satisfies. As in the code, the operations of the
  client assume that the caller holds the lock of the extent.
\<close>

subsection \<open>Server\<close>

definition ext_OK :: int where "ext_OK = 0"
definition ext_IOERR :: int where "ext_IOERR = 3"

record extent_server =
  es_contents :: "(u64, string) smap"
  es_attributes :: "(u64, attr) smap"

definition attr_zero :: attr where
  "attr_zero = \<lparr>at_atime = 0, at_mtime = 0, at_ctime = 0, at_size = 0\<rparr>"

definition es_new :: extent_server where
  "es_new = \<lparr>es_contents = smap_set 1 [] [], es_attributes = smap_set 1 attr_zero []\<rparr>"

text \<open>\<open>now\<close> is the result of \<^verbatim>\<open>time(NULL)\<close>; \<open>g\<close> is the value of the local \<^verbatim>\<open>a.atime\<close>, which is not
  initialized.\<close>

definition es_put :: "u32 \<Rightarrow> u32 \<Rightarrow> u64 \<Rightarrow> string \<Rightarrow> extent_server \<Rightarrow> int \<times> extent_server" where
  "es_put now g eid buf s =
     (ext_OK, s\<lparr>es_contents := smap_set eid buf (es_contents s),
        es_attributes := smap_set eid \<lparr>at_atime = g, at_mtime = now, at_ctime = now,
          at_size = of_nat (length buf)\<rparr> (es_attributes s)\<rparr>)"

definition es_get :: "u32 \<Rightarrow> u64 \<Rightarrow> string \<Rightarrow> extent_server \<Rightarrow> int \<times> string \<times> extent_server" where
  "es_get now eid buf s =
     (if \<not> smap_has eid (es_contents s) then (ext_IOERR, buf, s)
      else (ext_OK, smap_val [] eid (es_contents s),
        s\<lparr>es_attributes := smap_set eid ((smap_val attr_zero eid (es_attributes s))\<lparr>at_atime := now\<rparr>) (es_attributes s)\<rparr>))"

definition es_getattr :: "u64 \<Rightarrow> attr \<Rightarrow> extent_server \<Rightarrow> int \<times> attr \<times> extent_server" where
  "es_getattr eid a s =
     (if \<not> smap_has eid (es_attributes s) then (ext_IOERR, a, s)
      else (ext_OK, smap_val attr_zero eid (es_attributes s), s))"

definition es_remove :: "u64 \<Rightarrow> extent_server \<Rightarrow> int \<times> extent_server" where
  "es_remove eid s =
     (if \<not> smap_has eid (es_contents s) then (ext_IOERR, s)
      else (ext_OK, s\<lparr>es_contents := smap_del eid (es_contents s), es_attributes := smap_del eid (es_attributes s)\<rparr>))"

subsection \<open>Client\<close>

text \<open>The remote calls: the first argument is the time at the server; the results that a failing call
  does not set keep the values of the variables passed by reference.\<close>

record 'w extent_rpc =
  x_get :: "u32 \<Rightarrow> u64 \<Rightarrow> string \<Rightarrow> 'w \<Rightarrow> int \<times> string \<times> 'w"
  x_getattr :: "u32 \<Rightarrow> u64 \<Rightarrow> attr \<Rightarrow> 'w \<Rightarrow> int \<times> attr \<times> 'w"
  x_put :: "u32 \<Rightarrow> u64 \<Rightarrow> string \<Rightarrow> 'w \<Rightarrow> int \<times> 'w"
  x_remove :: "u32 \<Rightarrow> u64 \<Rightarrow> 'w \<Rightarrow> int \<times> 'w"

record extent_client =
  ec_contents :: "(u64, string) smap"
  ec_attributes :: "(u64, attr) smap"

definition ec_new :: extent_client where
  "ec_new = \<lparr>ec_contents = [], ec_attributes = []\<rparr>"

definition ec_erase :: "u64 \<Rightarrow> extent_client \<Rightarrow> extent_client" where
  "ec_erase eid c = c\<lparr>ec_contents := smap_del eid (ec_contents c), ec_attributes := smap_del eid (ec_attributes c)\<rparr>"

definition ec_get :: "'w extent_rpc \<Rightarrow> attr \<Rightarrow> u32 \<Rightarrow> u32 \<Rightarrow> u64 \<Rightarrow> string \<Rightarrow> extent_client \<times> 'w
    \<Rightarrow> int \<times> string \<times> extent_client \<times> 'w" where
  "ec_get rpc a0 now snow eid buf = (\<lambda>(c, w).
     let (ret, c, w) =
           (if smap_has eid (ec_attributes c) then (ext_OK, c, w)
            else let (ret, a, w) = x_getattr rpc snow eid a0 w
              in (ret, c\<lparr>ec_attributes := smap_set eid a (ec_attributes c)\<rparr>, w));
         c = c\<lparr>ec_attributes := smap_set eid ((smap_val attr_zero eid (ec_attributes c))\<lparr>at_atime := now\<rparr>)
              (ec_attributes c)\<rparr>;
         (ret, c, w) =
           (if smap_has eid (ec_contents c) then (ret, c, w)
            else let (ret, buf, w) = x_get rpc snow eid buf w
              in (ret, c\<lparr>ec_contents := smap_set eid buf (ec_contents c)\<rparr>, w));
         buf = smap_val [] eid (ec_contents c)
     in (ret, buf, if ret \<noteq> ext_OK then ec_erase eid c else c, w))"

definition ec_getattr :: "'w extent_rpc \<Rightarrow> u32 \<Rightarrow> u64 \<Rightarrow> attr \<Rightarrow> extent_client \<times> 'w
    \<Rightarrow> int \<times> attr \<times> extent_client \<times> 'w" where
  "ec_getattr rpc snow eid a = (\<lambda>(c, w).
     let (ret, c, w) =
           (if smap_has eid (ec_attributes c) then (ext_OK, c, w)
            else let (ret, a, w) = x_getattr rpc snow eid a w
              in (ret, c\<lparr>ec_attributes := smap_set eid a (ec_attributes c)\<rparr>, w));
         a = smap_val attr_zero eid (ec_attributes c)
     in (ret, a, if ret \<noteq> ext_OK then ec_erase eid c else c, w))"

definition ec_put :: "u32 \<Rightarrow> u64 \<Rightarrow> string \<Rightarrow> extent_client \<Rightarrow> int \<times> extent_client" where
  "ec_put now eid buf c =
     (let a = smap_val attr_zero eid (ec_attributes c)
      in (ext_OK, c\<lparr>ec_attributes := smap_set eid
            (a\<lparr>at_mtime := now, at_ctime := now, at_size := of_nat (length buf)\<rparr>) (ec_attributes c),
          ec_contents := smap_set eid buf (ec_contents c)\<rparr>))"

definition ec_remove :: "u64 \<Rightarrow> extent_client \<Rightarrow> int \<times> extent_client" where
  "ec_remove eid c = (ext_OK, ec_erase eid c)"

definition ec_flush :: "'w extent_rpc \<Rightarrow> u32 \<Rightarrow> u64 \<Rightarrow> extent_client \<times> 'w \<Rightarrow> int \<times> extent_client \<times> 'w" where
  "ec_flush rpc snow eid = (\<lambda>(c, w).
     let (ret, w) =
           (if \<not> smap_has eid (ec_attributes c) then x_remove rpc snow eid w
            else if smap_has eid (ec_contents c)
              then x_put rpc snow eid (smap_val [] eid (ec_contents c)) w
            else (ext_OK, w))
     in (ret, ec_erase eid c, w))"

subsection \<open>Operations on one extent and their specification\<close>

datatype ext_op = Ext_get | Ext_getattr | Ext_put string | Ext_remove

datatype ext_obs = Obs_content string | Obs_size u32 | Obs_done | Obs_error

text \<open>One operation through the cache, with the times and the uninitialized attributes of the call.\<close>

fun ec_step :: "'w extent_rpc \<Rightarrow> u64 \<Rightarrow> (attr \<times> u32 \<times> u32) \<times> ext_op \<Rightarrow> extent_client \<times> 'w
    \<Rightarrow> ext_obs \<times> extent_client \<times> 'w" where
  "ec_step rpc eid ((a0, now, snow), Ext_get) cw =
     (case ec_get rpc a0 now snow eid [] cw of (ret, buf, cw) \<Rightarrow>
        (if ret = ext_OK then Obs_content buf else Obs_error, cw))"
| "ec_step rpc eid ((a0, now, snow), Ext_getattr) cw =
     (case ec_getattr rpc snow eid a0 cw of (ret, a, cw) \<Rightarrow>
        (if ret = ext_OK then Obs_size (at_size a) else Obs_error, cw))"
| "ec_step rpc eid ((a0, now, snow), Ext_put b) (c, w) = (Obs_done, snd (ec_put now eid b c), w)"
| "ec_step rpc eid ((a0, now, snow), Ext_remove) (c, w) = (Obs_done, snd (ec_remove eid c), w)"

fun ec_run :: "'w extent_rpc \<Rightarrow> u64 \<Rightarrow> ((attr \<times> u32 \<times> u32) \<times> ext_op) list \<Rightarrow> extent_client \<times> 'w
    \<Rightarrow> ext_obs list \<times> extent_client \<times> 'w" where
  "ec_run rpc eid [] cw = ([], cw)"
| "ec_run rpc eid (x # xs) cw =
     (let (r, cw) = ec_step rpc eid x cw; (rs, cw) = ec_run rpc eid xs cw in (r # rs, cw))"

text \<open>The same operations on the content of an extent that is not cached.\<close>

fun spec_step :: "ext_op \<Rightarrow> string option \<Rightarrow> ext_obs \<times> string option" where
  "spec_step Ext_get v = (case v of Some b \<Rightarrow> Obs_content b | None \<Rightarrow> Obs_error, v)"
| "spec_step Ext_getattr v = (case v of Some b \<Rightarrow> Obs_size (of_nat (length b)) | None \<Rightarrow> Obs_error, v)"
| "spec_step (Ext_put b) v = (Obs_done, Some b)"
| "spec_step Ext_remove v = (Obs_done, None)"

fun spec_run :: "ext_op list \<Rightarrow> string option \<Rightarrow> ext_obs list \<times> string option" where
  "spec_run [] v = ([], v)"
| "spec_run (x # xs) v = (let (r, v) = spec_step x v; (rs, v) = spec_run xs v in (r # rs, v))"

text \<open>The cache forgets that an extent was removed: no operation reads it before it is written again.\<close>

fun removed_after :: "bool \<Rightarrow> ext_op \<Rightarrow> bool" where
  "removed_after t Ext_get = t"
| "removed_after t Ext_getattr = t"
| "removed_after t (Ext_put b) = False"
| "removed_after t Ext_remove = True"

fun reads_ok :: "bool \<Rightarrow> ext_op list \<Rightarrow> bool" where
  "reads_ok t [] = True"
| "reads_ok t (x # xs) \<longleftrightarrow> (t \<longrightarrow> x \<noteq> Ext_get \<and> x \<noteq> Ext_getattr) \<and> reads_ok (removed_after t x) xs"

text \<open>The cache \<open>c\<close> over the store \<open>w\<close> stands for the content \<open>v\<close> of extent \<open>e\<close>; \<open>t\<close> says that it was
  removed since it was last written.\<close>

definition cache_inv :: "('w \<Rightarrow> u64 \<Rightarrow> string option) \<Rightarrow> u64 \<Rightarrow> bool \<Rightarrow> string option \<Rightarrow> extent_client \<Rightarrow> 'w \<Rightarrow> bool" where
  "cache_inv content e t v c w \<longleftrightarrow>
     (case map_of (ec_contents c) e of
        Some b \<Rightarrow> v = Some b \<and> \<not> t \<and> (\<exists>a. map_of (ec_attributes c) e = Some a \<and> at_size a = of_nat (length b))
      | None \<Rightarrow>
          (case map_of (ec_attributes c) e of
             Some a \<Rightarrow> \<not> t \<and> v = content w e \<and> (\<exists>b. v = Some b \<and> at_size a = of_nat (length b))
           | None \<Rightarrow> if t then v = None else v = content w e))"

text \<open>Something is known about the extent, so that flushing it does the right thing.\<close>

definition touched :: "u64 \<Rightarrow> bool \<Rightarrow> string option \<Rightarrow> extent_client \<Rightarrow> bool" where
  "touched e t v c \<longleftrightarrow> t \<or> v = None \<or> map_of (ec_attributes c) e \<noteq> None"

subsection \<open>What the client relies on\<close>

text \<open>\<open>content w eid\<close> is the content of an extent in the store, \<open>good\<close> its invariant.\<close>

locale extent_store =
  fixes rpc :: "'w extent_rpc" and content :: "'w \<Rightarrow> u64 \<Rightarrow> string option" and good :: "'w \<Rightarrow> bool"
  assumes get_some: "good w \<Longrightarrow> content w e = Some b \<Longrightarrow>
      \<exists>w'. x_get rpc t e old w = (ext_OK, b, w') \<and> good w' \<and> content w' = content w"
    and get_none: "good w \<Longrightarrow> content w e = None \<Longrightarrow>
      \<exists>st b w'. x_get rpc t e old w = (st, b, w') \<and> st \<noteq> ext_OK \<and> good w' \<and> content w' = content w"
    and getattr_some: "good w \<Longrightarrow> content w e = Some b \<Longrightarrow>
      \<exists>a w'. x_getattr rpc t e a0 w = (ext_OK, a, w') \<and> at_size a = of_nat (length b) \<and> good w'
        \<and> content w' = content w"
    and getattr_none: "good w \<Longrightarrow> content w e = None \<Longrightarrow>
      \<exists>st a w'. x_getattr rpc t e a0 w = (st, a, w') \<and> st \<noteq> ext_OK \<and> good w' \<and> content w' = content w"
    and put_content: "good w \<Longrightarrow>
      \<exists>w'. x_put rpc t e b w = (ext_OK, w') \<and> good w' \<and> content w' = (content w)(e \<mapsto> b)"
    and remove_content: "good w \<Longrightarrow>
      \<exists>st w'. x_remove rpc t e w = (st, w') \<and> good w' \<and> content w' = (content w)(e := None)"
begin

lemmas cache_defs = cache_inv_def touched_def ec_get_def ec_getattr_def ec_put_def ec_remove_def
  ec_erase_def smap_has_def smap_val_def Let_def split_beta

lemma step_get:
  assumes "good w" "cache_inv content e False v c w" "ec_get rpc a0 now snow e [] (c, w) = (ret, buf, c', w')"
  shows "(ret = ext_OK \<longleftrightarrow> v \<noteq> None) \<and> (ret = ext_OK \<longrightarrow> v = Some buf) \<and> cache_inv content e False v c' w'
     \<and> touched e False v c' \<and> good w' \<and> content w' = content w"
proof (cases "map_of (ec_contents c) e")
  case (Some b)
  then show ?thesis using assms by (auto simp: cache_defs)
next
  case None
  note none = this
  show ?thesis
  proof (cases "map_of (ec_attributes c) e")
    case (Some a)
    then obtain b where b: "v = Some b" "content w e = Some b" "at_size a = of_nat (length b)"
      using none assms(2) by (auto simp: cache_inv_def)
    obtain w1 where "x_get rpc snow e [] w = (ext_OK, b, w1)" "good w1" "content w1 = content w"
      using get_some [OF assms(1) b(2)] by blast
    then show ?thesis using assms(3) none Some b by (auto simp: cache_defs)
  next
    case None
    then have v: "v = content w e" using none assms(2) by (simp add: cache_inv_def)
    show ?thesis
    proof (cases v)
      case vn: None
      obtain st a w1 where "x_getattr rpc snow e a0 w = (st, a, w1)" "good w1" "content w1 = content w"
        using getattr_none [OF assms(1)] vn v by metis
      moreover obtain st2 b w2 where "x_get rpc snow e [] w1 = (st2, b, w2)" "st2 \<noteq> ext_OK" "good w2" "content w2 = content w1"
        using get_none [OF \<open>good w1\<close>] calculation(3) vn v by metis
      ultimately show ?thesis using assms(3) none None vn v by (auto simp: cache_defs)
    next
      case vs: (Some b)
      obtain a w1 where "x_getattr rpc snow e a0 w = (ext_OK, a, w1)" "at_size a = of_nat (length b)"
        "good w1" "content w1 = content w" using getattr_some [OF assms(1)] vs v by metis
      moreover obtain w2 where "x_get rpc snow e [] w1 = (ext_OK, b, w2)" "good w2" "content w2 = content w1"
        using get_some [OF \<open>good w1\<close>] calculation(4) vs v by metis
      ultimately show ?thesis using assms(3) none None vs v by (auto simp: cache_defs)
    qed
  qed
qed

lemma step_getattr:
  assumes "good w" "cache_inv content e False v c w" "ec_getattr rpc snow e a0 (c, w) = (ret, a, c', w')"
  shows "(ret = ext_OK \<longleftrightarrow> v \<noteq> None) \<and> (ret = ext_OK \<longrightarrow> (\<exists>b. v = Some b \<and> at_size a = of_nat (length b)))
     \<and> cache_inv content e False v c' w' \<and> touched e False v c' \<and> good w' \<and> content w' = content w"
proof (cases "map_of (ec_attributes c) e")
  case (Some a)
  then show ?thesis using assms by (auto simp: cache_defs split: option.splits)
next
  case None
  then have v: "v = content w e" "map_of (ec_contents c) e = None" using assms(2) by (auto simp: cache_inv_def split: option.splits)
  show ?thesis
  proof (cases v)
    case vn: None
    obtain st a w1 where "x_getattr rpc snow e a0 w = (st, a, w1)" "st \<noteq> ext_OK" "good w1" "content w1 = content w"
      using getattr_none [OF assms(1)] vn v by metis
    then show ?thesis using assms(3) None vn v by (auto simp: cache_defs)
  next
    case vs: (Some b)
    obtain a w1 where "x_getattr rpc snow e a0 w = (ext_OK, a, w1)" "at_size a = of_nat (length b)"
      "good w1" "content w1 = content w" using getattr_some [OF assms(1)] vs v by metis
    then show ?thesis using assms(3) None vs v by (auto simp: cache_defs)
  qed
qed

lemma step_correct:
  assumes "good w" "cache_inv content e t v c w" "t \<longrightarrow> op \<noteq> Ext_get \<and> op \<noteq> Ext_getattr"
    and "ec_step rpc e (x, op) (c, w) = (r, c', w')"
  shows "\<exists>v'. spec_step op v = (r, v') \<and> cache_inv content e (removed_after t op) v' c' w'
     \<and> touched e (removed_after t op) v' c' \<and> good w' \<and> content w' = content w"
proof -
  obtain a0 now snow where x: "x = (a0, now, snow)" by (cases x)
  show ?thesis
  proof (cases op)
    case Ext_get
    then show ?thesis using assms x step_get [of w e v c a0 now snow] by (auto split: prod.splits)
  next
    case Ext_getattr
    then show ?thesis using assms x step_getattr [of w e v c snow a0] by (auto split: prod.splits)
  next
    case (Ext_put b)
    then show ?thesis using assms x by (auto simp: cache_defs)
  next
    case Ext_remove
    then show ?thesis using assms x by (auto simp: cache_defs)
  qed
qed

lemma run_correct:
  assumes "good w" "cache_inv content e t v c w" "reads_ok t (map snd xs)" "ec_run rpc e xs (c, w) = (rs, c', w')"
  shows "\<exists>v' t'. spec_run (map snd xs) v = (rs, v') \<and> cache_inv content e t' v' c' w' \<and> good w' \<and> content w' = content w
     \<and> (xs \<noteq> [] \<or> touched e t v c \<longrightarrow> touched e t' v' c')"
  using assms
proof (induction xs arbitrary: t v c w rs)
  case (Cons x xs)
  obtain y op where x: "x = (y, op)" by (cases x)
  obtain r c1 w1 where r: "ec_step rpc e (y, op) (c, w) = (r, c1, w1)" by (cases "ec_step rpc e (y, op) (c, w)")
  obtain rs1 where rs1: "ec_run rpc e xs (c1, w1) = (rs1, c', w')" "rs = r # rs1"
    using Cons.prems(4) x r by (auto simp: Let_def split: prod.splits)
  obtain v1 where v1: "spec_step op v = (r, v1)" "cache_inv content e (removed_after t op) v1 c1 w1"
    "touched e (removed_after t op) v1 c1" "good w1" "content w1 = content w"
    using step_correct [OF Cons.prems(1,2) _ r] Cons.prems(3) x by auto
  then show ?case using Cons.IH [OF v1(4,2) _ rs1(1)] Cons.prems(3) x rs1(2) by auto
qed auto

lemma flush_correct:
  assumes "good w" "cache_inv content e t v c w" "touched e t v c" "ec_flush rpc snow e (c, w) = (ret, c', w')"
  shows "good w' \<and> content w' = (content w)(e := v) \<and> c' = ec_erase e c"
proof (cases "map_of (ec_attributes c) e")
  case None
  then have "v = None" using assms(2,3) by (auto simp: cache_inv_def touched_def split: option.splits)
  then show ?thesis using None assms(4) remove_content [OF assms(1), of snow e]
    by (auto simp: ec_flush_def smap_has_def split: prod.splits)
next
  case (Some a)
  show ?thesis
  proof (cases "map_of (ec_contents c) e")
    case None
    then have "content w e = v" using Some assms(2) by (auto simp: cache_inv_def)
    then show ?thesis using None Some assms(1,4) by (auto simp: ec_flush_def smap_has_def)
  next
    case (Some b)
    then have "v = Some b" using assms(2) by (auto simp: cache_inv_def)
    then show ?thesis
      using \<open>map_of (ec_attributes c) e = Some a\<close> Some assms(4) put_content [OF assms(1), of snow e b]
      by (auto simp: ec_flush_def smap_has_def smap_val_def split: prod.splits)
  qed
qed

text \<open>From an extent that is not in the cache to the flush of that extent\<close>

lemma session_correct:
  assumes "good w" "map_of (ec_attributes c) e = None" "map_of (ec_contents c) e = None"
    and "xs \<noteq> []" "reads_ok False (map snd xs)"
    and "ec_run rpc e xs (c, w) = (rs, c1, w1)" "ec_flush rpc snow e (c1, w1) = (ret, c2, w2)"
  shows "\<exists>v. spec_run (map snd xs) (content w e) = (rs, v) \<and> good w2 \<and> content w2 = (content w)(e := v)
     \<and> content w1 = content w \<and> map_of (ec_attributes c2) e = None \<and> map_of (ec_contents c2) e = None"
proof -
  have "cache_inv content e False (content w e) c w" using assms(2,3) by (simp add: cache_inv_def)
  then obtain v t where v: "spec_run (map snd xs) (content w e) = (rs, v)" "cache_inv content e t v c1 w1" "good w1"
    "content w1 = content w" "touched e t v c1"
    using run_correct [OF assms(1) _ assms(5,6)] assms(4) by blast
  then show ?thesis using flush_correct [OF v(3,2,5) assms(7)] by (auto simp: ec_erase_def)
qed

end

subsection \<open>The server provides it\<close>

definition server_rpc :: "u32 \<Rightarrow> extent_server extent_rpc" where
  "server_rpc g = \<lparr>x_get = es_get, x_getattr = \<lambda>now. es_getattr, x_put = \<lambda>now. es_put now g, x_remove = \<lambda>now. es_remove\<rparr>"

text \<open>Contents and attributes have the same keys, and the attributes record the length.\<close>

definition es_wf :: "extent_server \<Rightarrow> bool" where
  "es_wf s \<longleftrightarrow> (\<forall>e. map_option at_size (map_of (es_attributes s) e)
     = map_option (\<lambda>b. of_nat (length b)) (map_of (es_contents s) e))"

lemma es_wf_at: "es_wf s \<Longrightarrow> map_option at_size (map_of (es_attributes s) e)
     = map_option (\<lambda>b. of_nat (length b)) (map_of (es_contents s) e)"
  by (simp add: es_wf_def)

lemma es_wf_new: "es_wf es_new"
  by (simp add: es_wf_def es_new_def attr_zero_def)

interpretation srv: extent_store "server_rpc g" "\<lambda>s. map_of (es_contents s)" es_wf
proof (unfold_locales, goal_cases)
  case (1 w e b t old)
  then obtain a where "map_of (es_attributes w) e = Some a" "at_size a = of_nat (length b)"
    using es_wf_at [OF 1(1), of e] by auto
  then show ?case using 1 by (auto simp: server_rpc_def es_get_def smap_has_def smap_val_def es_wf_def)
next
  case (2 w e t old)
  then show ?case by (auto simp: server_rpc_def es_get_def smap_has_def ext_OK_def ext_IOERR_def)
next
  case (3 w e b t a0)
  then show ?case using es_wf_at [OF 3(1), of e]
    by (auto simp: server_rpc_def es_getattr_def smap_has_def smap_val_def)
next
  case (4 w e t a0)
  then show ?case using es_wf_at [OF 4(1), of e]
    by (auto simp: server_rpc_def es_getattr_def smap_has_def ext_OK_def ext_IOERR_def)
next
  case (5 w t e b)
  then show ?case by (auto simp: server_rpc_def es_put_def es_wf_def)
next
  case (6 w t e)
  then show ?case by (auto simp: server_rpc_def es_remove_def es_wf_def smap_has_def)
qed


definition sample_session :: "((attr \<times> u32 \<times> u32) \<times> ext_op) list" where
  "sample_session = map (\<lambda>x. ((attr_zero, 1, 2), x)) [Ext_getattr, Ext_put ''ab'', Ext_get]"


text \<open>(C36) A failed read is followed by the deletion of the extent: when the call of get does not
  succeed (a timeout, say), the client drops the attributes of the extent, and the next flush takes
  the missing attributes for a removal and removes the extent from the server.\<close>

theorem failed_read_deletes:
  assumes "map_of (ec_contents c) e = None" "st \<noteq> ext_OK"
    and "ec_get ((server_rpc g)\<lparr>x_get := \<lambda>_ _ b s. (st, b, s)\<rparr>) a0 now snow e buf (c, s) = (ret, buf', c1, s1)"
  shows "ret = st \<and> es_contents s1 = es_contents s \<and>
     map_of (es_contents (snd (snd (ec_flush (server_rpc g) snow' e (c1, s1))))) e = None"
proof -
  have "map_of (ec_attributes c1) e = None" "ret = st" "es_contents s1 = es_contents s"
    using assms by (auto simp: ec_get_def ec_erase_def smap_has_def Let_def server_rpc_def es_getattr_def
        split: if_splits)
  then show ?thesis
    by (auto simp: ec_flush_def server_rpc_def es_remove_def smap_has_def split_beta)
qed

theorem failed_read_deletes_witness:
  "\<exists>c1 s1. ec_get ((server_rpc 0)\<lparr>x_get := \<lambda>_ _ b s. (- 1, b, s)\<rparr>) attr_zero 1 2 1 [] (ec_new, es_new)
       = (- 1, [], c1, s1) \<and> map_of (es_contents es_new) 1 = Some []
     \<and> map_of (es_contents (snd (snd (ec_flush (server_rpc 0) 3 1 (c1, s1))))) 1 = None"
proof -
  let ?g = "ec_get ((server_rpc 0)\<lparr>x_get := \<lambda>_ _ b s. (- 1, b, s)\<rparr>) attr_zero 1 2 1 [] (ec_new, es_new)"
  have "fst (snd ?g) = []"
    by (simp add: ec_get_def server_rpc_def es_getattr_def ec_new_def es_new_def smap_has_def smap_val_def Let_def)
  moreover obtain ret buf c1 s1 where g: "?g = (ret, buf, c1, s1)" by (cases ?g)
  ultimately show ?thesis
    using failed_read_deletes [of ec_new 1 "- 1" 0 attr_zero 1 2 "[]" es_new ret buf c1 s1 3]
    by (simp add: ec_new_def es_new_def ext_OK_def)
qed

end
