(* ===== verification/Yfs.thy ===== *)
theory Yfs
  imports Extent Text_IO
begin

text \<open>
  The file system operations of \<^verbatim>\<open>yfs_client.cc\<close> over the extent client. A directory is a text of
  words \<^verbatim>\<open>inum@name\<close>. The locks of \<^verbatim>\<open>yfs_lock.h\<close> and the accesses to extents are recorded in a
  trace, so that the locking discipline can be stated; one operation runs without interference on
  the extents whose locks it holds. \<open>env\<close> gives the time at the client and at the server and the
  uninitialized attributes at each step. Offsets (\<^verbatim>\<open>off_t\<close>) are not negative.
\<close>

subsection \<open>Names and numbers\<close>

definition yfs_OK :: int where "yfs_OK = 0"
definition yfs_NOENT :: int where "yfs_NOENT = 2"
definition yfs_IOERR :: int where "yfs_IOERR = 3"
definition yfs_EXIST :: int where "yfs_EXIST = 4"

lemmas yfs_status = yfs_OK_def yfs_NOENT_def yfs_IOERR_def yfs_EXIST_def

record fileinfo =
  fi_size :: u64
  fi_atime :: u32
  fi_mtime :: u32
  fi_ctime :: u32

record dirinfo =
  di_atime :: u32
  di_mtime :: u32
  di_ctime :: u32

definition n2i :: "u64 \<Rightarrow> string \<Rightarrow> u64" where
  "n2i g n = fst (extract_uint g (istream_of n))"

definition filename :: "u64 \<Rightarrow> string" where
  "filename inum = show_nat (unat inum)"

definition isfile :: "u64 \<Rightarrow> bool" where
  "isfile inum \<longleftrightarrow> and inum 0x80000000 \<noteq> 0"

definition isdir :: "u64 \<Rightarrow> bool" where
  "isdir inum \<longleftrightarrow> \<not> isfile inum"

subsection \<open>State\<close>

datatype event = Lock_acquire u64 | Lock_release u64 | Extent_access u64

record 'w yfs =
  yf_ec :: extent_client
  yf_net :: 'w
  yf_trace :: "event list"

type_synonym env = "nat \<Rightarrow> attr \<times> u32 \<times> u32"

definition yfs_event :: "event \<Rightarrow> 'w yfs \<Rightarrow> 'w yfs" where
  "yfs_event e y = y\<lparr>yf_trace := e # yf_trace y\<rparr>"

text \<open>The constructor and the destructor of \<^verbatim>\<open>YFSLock\<close>\<close>

definition yfs_lock :: "u64 \<Rightarrow> 'w yfs \<Rightarrow> 'w yfs" where
  "yfs_lock inum y = yfs_event (Lock_acquire inum) y"

definition yfs_unlock :: "u64 \<Rightarrow> 'w yfs \<Rightarrow> 'w yfs" where
  "yfs_unlock inum y = yfs_event (Lock_release inum) y"

definition yfs_put :: "env \<Rightarrow> u64 \<Rightarrow> string \<Rightarrow> 'w yfs \<Rightarrow> int \<times> 'w yfs" where
  "yfs_put env inum content y =
     (let (a0, now, snow) = env (length (yf_trace y)); (ret, ec) = ec_put now inum content (yf_ec y);
          y = yfs_event (Extent_access inum) (y\<lparr>yf_ec := ec\<rparr>)
      in if ret \<noteq> ext_OK then (yfs_IOERR, y) else (yfs_OK, y))"

definition yfs_get :: "'w extent_rpc \<Rightarrow> env \<Rightarrow> u64 \<Rightarrow> string \<Rightarrow> 'w yfs \<Rightarrow> int \<times> string \<times> 'w yfs" where
  "yfs_get rpc env inum buf y =
     (let (a0, now, snow) = env (length (yf_trace y));
          (ret, buf, ec, w) = ec_get rpc a0 now snow inum buf (yf_ec y, yf_net y);
          y = yfs_event (Extent_access inum) (y\<lparr>yf_ec := ec, yf_net := w\<rparr>)
      in if ret \<noteq> ext_OK then (yfs_NOENT, buf, y) else (yfs_OK, buf, y))"

definition yfs_getattr :: "'w extent_rpc \<Rightarrow> env \<Rightarrow> u64 \<Rightarrow> 'w yfs \<Rightarrow> int \<times> attr \<times> 'w yfs" where
  "yfs_getattr rpc env inum y =
     (let (a0, now, snow) = env (length (yf_trace y));
          (ret, a, ec, w) = ec_getattr rpc snow inum a0 (yf_ec y, yf_net y)
      in (ret, a, yfs_event (Extent_access inum) (y\<lparr>yf_ec := ec, yf_net := w\<rparr>)))"

subsection \<open>Attributes\<close>

definition getfile :: "'w extent_rpc \<Rightarrow> env \<Rightarrow> u64 \<Rightarrow> fileinfo \<Rightarrow> 'w yfs \<Rightarrow> int \<times> fileinfo \<times> 'w yfs" where
  "getfile rpc env inum fin y =
     (let y = yfs_lock inum y; (ret, a, y) = yfs_getattr rpc env inum y
      in if ret \<noteq> ext_OK then (yfs_IOERR, fin, yfs_unlock inum y)
         else (yfs_OK, \<lparr>fi_size = ucast (at_size a), fi_atime = at_atime a, fi_mtime = at_mtime a,
             fi_ctime = at_ctime a\<rparr>, yfs_unlock inum y))"

definition getdir :: "'w extent_rpc \<Rightarrow> env \<Rightarrow> u64 \<Rightarrow> dirinfo \<Rightarrow> 'w yfs \<Rightarrow> int \<times> dirinfo \<times> 'w yfs" where
  "getdir rpc env inum din y =
     (let y = yfs_lock inum y; (ret, a, y) = yfs_getattr rpc env inum y
      in if ret \<noteq> ext_OK then (yfs_IOERR, din, yfs_unlock inum y)
         else (yfs_OK, \<lparr>di_atime = at_atime a, di_mtime = at_mtime a, di_ctime = at_ctime a\<rparr>,
           yfs_unlock inum y))"

subsection \<open>Directories\<close>

text \<open>\<^verbatim>\<open>c_str\<close> of a string, as \<^verbatim>\<open>strcmp\<close> reads it\<close>

definition c_str :: "string \<Rightarrow> string" where
  "c_str s = takeWhile (\<lambda>c. c \<noteq> CHR 0x00) s"

text \<open>One word of a directory; \<^verbatim>\<open>finum\<close> is always set, because the word is not empty.\<close>

definition parse_entry :: "string \<Rightarrow> u64 \<times> string" where
  "parse_entry w =
     (let (finum, iss) = extract_uint 0 (istream_of w); iss = stream_get iss; (fname, iss) = extract_word [] iss
      in (finum, fname))"

function lookup_loop :: "istream \<Rightarrow> string \<Rightarrow> string \<Rightarrow> u64 \<Rightarrow> int \<times> u64" where
  "lookup_loop ist w name inum =
     (let (w, ist') = extract_word w ist
      in if \<not> st_ok ist' then (yfs_OK, inum)
         else let (finum, fname) = parse_entry w
           in if c_str fname = name then (yfs_EXIST, finum) else lookup_loop ist' w name inum)"
  by pat_completeness auto

termination
  by (relation "measure (\<lambda>(ist, _). length (st_rest ist))") (auto dest: extract_word_shrinks [OF sym])

declare lookup_loop.simps [simp del]

definition lookup_text :: "string \<Rightarrow> string \<Rightarrow> u64 \<Rightarrow> int \<times> u64" where
  "lookup_text dcontent name inum = lookup_loop (istream_of dcontent) [] name inum"

definition lookupfile :: "'w extent_rpc \<Rightarrow> env \<Rightarrow> u64 \<Rightarrow> string \<Rightarrow> u64 \<Rightarrow> 'w yfs \<Rightarrow> int \<times> u64 \<times> 'w yfs" where
  "lookupfile rpc env dinum name inum y =
     (let y = yfs_lock dinum y; (ret, dcontent, y) = yfs_get rpc env dinum [] y
      in if ret \<noteq> yfs_OK then (yfs_NOENT, inum, yfs_unlock dinum y)
         else let (ret, inum) = lookup_text dcontent name inum in (ret, inum, yfs_unlock dinum y))"

text \<open>\<open>rnd\<close> is the result of \<^verbatim>\<open>random()\<close>; \<open>f\<close> says whether a file is created.\<close>

definition new_inum :: "bool \<Rightarrow> u64 \<Rightarrow> u64" where
  "new_inum f rnd = (if f then or rnd 0x80000000 else and rnd 0x7FFFFFFF)"

definition createfile :: "'w extent_rpc \<Rightarrow> env \<Rightarrow> u64 \<Rightarrow> u64 \<Rightarrow> bool \<Rightarrow> string \<Rightarrow> 'w yfs
    \<Rightarrow> int \<times> u64 \<times> 'w yfs" where
  "createfile rpc env rnd dinum f name y =
     (let y = yfs_lock dinum y; inum = new_inum f rnd; y = yfs_lock inum y;
          leave = (\<lambda>y. yfs_unlock dinum (yfs_unlock inum y));
          (ret, dcontent, y) = yfs_get rpc env dinum [] y
      in if ret \<noteq> yfs_OK then (yfs_NOENT, inum, leave y)
         else if fst (lookup_text dcontent name 0) \<noteq> yfs_OK then (yfs_EXIST, inum, leave y)
         else let (ret, y) = yfs_put env dinum (dcontent @ [space] @ filename inum @ ''@'' @ name) y
           in if ret \<noteq> yfs_OK then (yfs_IOERR, inum, leave y)
              else let (ret, y) = yfs_put env inum [] y
                in if ret \<noteq> yfs_OK then (yfs_IOERR, inum, leave y) else (yfs_OK, inum, leave y))"

definition getcontent :: "'w extent_rpc \<Rightarrow> env \<Rightarrow> u64 \<Rightarrow> string \<Rightarrow> 'w yfs \<Rightarrow> int \<times> string \<times> 'w yfs" where
  "getcontent rpc env inum buf y =
     (let (ret, buf, y) = yfs_get rpc env inum buf (yfs_lock inum y) in (ret, buf, yfs_unlock inum y))"

definition yfs_remove :: "u64 \<Rightarrow> 'w yfs \<Rightarrow> int \<times> 'w yfs" where
  "yfs_remove inum y =
     (let y = yfs_lock inum y; (ret, ec) = ec_remove inum (yf_ec y);
          y = yfs_unlock inum (yfs_event (Extent_access inum) (y\<lparr>yf_ec := ec\<rparr>))
      in if ret \<noteq> ext_OK then (yfs_NOENT, y) else (yfs_OK, y))"

text \<open>The loop of \<^verbatim>\<open>unlink\<close> copies the entries that stay to \<open>ost\<close>.\<close>

function unlink_loop :: "istream \<Rightarrow> string \<Rightarrow> string \<Rightarrow> string \<Rightarrow> nat \<Rightarrow> bool \<Rightarrow> u64 \<Rightarrow> string \<times> bool \<times> u64" where
  "unlink_loop ist w name ost count found inum =
     (let (w, ist') = extract_word w ist
      in if \<not> st_ok ist' then (ost, found, inum)
         else let (finum, fname) = parse_entry w
           in if c_str fname \<noteq> name \<or> isdir finum
              then unlink_loop ist' w name (ost @ (if count > 0 then [space] else []) @ w) (count + 1) found inum
              else unlink_loop ist' w name ost count True finum)"
  by pat_completeness auto

termination
  by (relation "measure (\<lambda>(ist, _). length (st_rest ist))") (auto dest: extract_word_shrinks [OF sym])

declare unlink_loop.simps [simp del]

definition unlink :: "'w extent_rpc \<Rightarrow> env \<Rightarrow> u64 \<Rightarrow> string \<Rightarrow> 'w yfs \<Rightarrow> int \<times> 'w yfs" where
  "unlink rpc env parent name y =
     (let y = yfs_lock parent y
      in if \<not> isdir parent then (yfs_NOENT, yfs_unlock parent y)
         else let (ret, content, y) = yfs_get rpc env parent [] y
           in if ret \<noteq> yfs_OK then (yfs_NOENT, yfs_unlock parent y)
              else let (ost, found, inum) = unlink_loop (istream_of content) [] name [] 0 False 0
                in if \<not> found then (yfs_NOENT, yfs_unlock parent y)
                   else let (ret, y) = yfs_remove inum y
                     in if ret \<noteq> yfs_OK then (yfs_IOERR, yfs_unlock parent y)
                        else let (ret, y) = yfs_put env parent ost y
                          in if ret \<noteq> yfs_OK then (yfs_IOERR, yfs_unlock parent y)
                             else (yfs_OK, yfs_unlock parent y))"

subsection \<open>Files\<close>

text \<open>The loop of \<^verbatim>\<open>setsize\<close>: its bound shrinks while \<open>i\<close> grows. It starts with a length of at most
  \<open>sz\<close>, so that the unsigned difference does not wrap around.\<close>

function pad_loop :: "nat \<Rightarrow> nat \<Rightarrow> string \<Rightarrow> string" where
  "pad_loop i sz buf = (if i < sz - length buf then pad_loop (i + 1) sz (buf @ [space]) else buf)"
  by pat_completeness auto

termination
  by (relation "measure (\<lambda>(i, sz, buf). sz - length buf)") auto

declare pad_loop.simps [simp del]

definition setsize :: "'w extent_rpc \<Rightarrow> env \<Rightarrow> u64 \<Rightarrow> u32 \<Rightarrow> 'w yfs \<Rightarrow> int \<times> 'w yfs" where
  "setsize rpc env inum sz y =
     (let (ret, buf, y) = yfs_get rpc env inum [] (yfs_lock inum y)
      in if ret \<noteq> yfs_OK then (yfs_NOENT, yfs_unlock inum y)
         else let buf = (if length buf > unat sz then take (unat sz) buf else pad_loop 0 (unat sz) buf);
                  (ret, y) = yfs_put env inum buf y
           in if ret \<noteq> yfs_OK then (yfs_IOERR, yfs_unlock inum y) else (yfs_OK, yfs_unlock inum y))"

definition yfs_read :: "'w extent_rpc \<Rightarrow> env \<Rightarrow> u64 \<Rightarrow> u32 \<Rightarrow> nat \<Rightarrow> string \<Rightarrow> 'w yfs \<Rightarrow> int \<times> string \<times> 'w yfs" where
  "yfs_read rpc env inum sz off buf y =
     (let (ret, buf, y) = yfs_get rpc env inum buf (yfs_lock inum y)
      in if ret \<noteq> yfs_OK then (yfs_NOENT, buf, yfs_unlock inum y)
         else let off = (if off > length buf then length buf else off)
           in (yfs_OK, take (unat sz) (drop off buf), yfs_unlock inum y))"

definition yfs_write :: "'w extent_rpc \<Rightarrow> env \<Rightarrow> u64 \<Rightarrow> u32 \<Rightarrow> nat \<Rightarrow> string \<Rightarrow> 'w yfs \<Rightarrow> int \<times> 'w yfs" where
  "yfs_write rpc env inum sz off buf y =
     (let (ret, content, y) = yfs_get rpc env inum [] (yfs_lock inum y)
      in if ret \<noteq> yfs_OK then (yfs_NOENT, yfs_unlock inum y)
         else let rest = (if off + unat sz < length content then drop (off + unat sz) content else []);
                  content = (if off \<le> length content then take off content
                             else content @ replicate (off - length content) (CHR 0x00));
                  (ret, y) = yfs_put env inum (content @ take (unat sz) buf @ rest) y
           in if ret \<noteq> yfs_OK then (yfs_IOERR, yfs_unlock inum y) else (yfs_OK, yfs_unlock inum y))"

subsection \<open>Contents seen through the cache\<close>

text \<open>Through the cache, extent \<open>e\<close> has the content \<open>V e\<close>; the extents in \<open>T\<close> have been removed and not
  been flushed yet.\<close>

definition represents :: "('w \<Rightarrow> u64 \<Rightarrow> string option) \<Rightarrow> (u64 \<rightharpoonup> string) \<Rightarrow> u64 set \<Rightarrow> 'w yfs \<Rightarrow> bool" where
  "represents content V T y \<longleftrightarrow> (\<forall>e. cache_inv content e (e \<in> T) (V e) (yf_ec y) (yf_net y))"

lemma cache_inv_frame:
  assumes "cache_inv content e t v c w" "map_of (ec_contents c') e = map_of (ec_contents c) e"
    "map_of (ec_attributes c') e = map_of (ec_attributes c) e" "content w' = content w"
  shows "cache_inv content e t v c' w'"
  using assms(1) unfolding cache_inv_def assms(2-4) .

text \<open>A change of the cache at one extent\<close>

lemma represents_change:
  assumes "represents content V T y" "\<forall>e' \<noteq> e. map_of (ec_contents (yf_ec y')) e' = map_of (ec_contents (yf_ec y)) e'
      \<and> map_of (ec_attributes (yf_ec y')) e' = map_of (ec_attributes (yf_ec y)) e'"
    and "content (yf_net y') = content (yf_net y)" "cache_inv content e t v (yf_ec y') (yf_net y')"
    and "V' = V(e := v)" "T' = (if t then insert e T else T - {e})"
  shows "represents content V' T' y'"
  unfolding represents_def
proof
  fix e'
  show "cache_inv content e' (e' \<in> T') (V' e') (yf_ec y') (yf_net y')"
  proof (cases "e' = e")
    case True
    have "(e \<in> T') = t" "V' e = v" using assms(5,6) by simp_all
    then show ?thesis using assms(4) True by simp
  next
    case False
    have "cache_inv content e' (e' \<in> T) (V e') (yf_ec y) (yf_net y)" using assms(1) by (simp add: represents_def)
    then have "cache_inv content e' (e' \<in> T) (V e') (yf_ec y') (yf_net y')"
      by (rule cache_inv_frame) (use assms(2,3) False in simp_all)
    moreover have "(e' \<in> T') = (e' \<in> T)" "V' e' = V e'" using False assms(5,6) by simp_all
    ultimately show ?thesis by simp
  qed
qed

lemma ec_get_frame:
  assumes "ec_get rpc a0 now snow e buf (c, w) = (ret, buf', c', w')" "e' \<noteq> e"
  shows "map_of (ec_contents c') e' = map_of (ec_contents c) e'" "map_of (ec_attributes c') e' = map_of (ec_attributes c) e'"
  using assms by (auto simp: ec_get_def ec_erase_def Let_def split_beta split: if_splits)

lemma ec_getattr_frame:
  assumes "ec_getattr rpc snow e a (c, w) = (ret, a', c', w')" "e' \<noteq> e"
  shows "map_of (ec_contents c') e' = map_of (ec_contents c) e'" "map_of (ec_attributes c') e' = map_of (ec_attributes c) e'"
  using assms by (auto simp: ec_getattr_def ec_erase_def Let_def split_beta split: if_splits)

lemma represents_event [simp]: "represents content V T (yfs_event ev y) = represents content V T y"
  "yf_net (yfs_event ev y) = yf_net y" "yf_ec (yfs_event ev y) = yf_ec y"
  by (simp_all add: represents_def yfs_event_def)

lemma represents_lock [simp]:
  "represents content V T (yfs_lock i y) = represents content V T y"
  "represents content V T (yfs_unlock i y) = represents content V T y"
  "yf_net (yfs_lock i y) = yf_net y" "yf_net (yfs_unlock i y) = yf_net y"
  by (simp_all add: yfs_lock_def yfs_unlock_def)

lemma yfs_put_rep:
  assumes "represents content V T y" "yfs_put env e b y = (ret, y')"
  shows "ret = yfs_OK \<and> represents content (V(e \<mapsto> b)) (T - {e}) y' \<and> yf_net y' = yf_net y"
proof -
  obtain a0 now snow where t: "env (length (yf_trace y)) = (a0, now, snow)" by (cases "env (length (yf_trace y))")
  then have y': "ret = yfs_OK" "yf_net y' = yf_net y" "yf_ec y' = snd (ec_put now e b (yf_ec y))"
    using assms(2) by (auto simp: yfs_put_def ec_put_def Let_def)
  have "represents content (V(e \<mapsto> b)) (T - {e}) y'"
    by (rule represents_change [OF assms(1), of e _ False "Some b"])
      (simp_all add: y' ec_put_def cache_inv_def Let_def)
  with y' show ?thesis by simp
qed

lemma yfs_remove_rep:
  assumes "represents content V T y" "yfs_remove e y = (ret, y')"
  shows "ret = yfs_OK \<and> represents content (V(e := None)) (insert e T) y' \<and> yf_net y' = yf_net y"
proof -
  have y': "ret = yfs_OK" "yf_net y' = yf_net y" "yf_ec y' = ec_erase e (yf_ec y)"
    using assms(2) by (auto simp: yfs_remove_def ec_remove_def Let_def yfs_lock_def yfs_unlock_def)
  have "represents content (V(e := None)) (insert e T) y'"
    by (rule represents_change [OF assms(1), of e _ True None]) (simp_all add: y' ec_erase_def cache_inv_def)
  with y' show ?thesis by simp
qed

context extent_store
begin

lemma yfs_get_rep:
  assumes "good (yf_net y)" "represents content V T y" "e \<notin> T" "yfs_get rpc env e [] y = (ret, buf, y')"
  shows "good (yf_net y') \<and> represents content V T y'
     \<and> (case V e of Some b \<Rightarrow> ret = yfs_OK \<and> buf = b | None \<Rightarrow> ret = yfs_NOENT)"
proof -
  obtain a0 now snow where t: "env (length (yf_trace y)) = (a0, now, snow)" by (cases "env (length (yf_trace y))")
  obtain st b c w where g: "ec_get rpc a0 now snow e [] (yf_ec y, yf_net y) = (st, b, c, w)"
    by (cases "ec_get rpc a0 now snow e [] (yf_ec y, yf_net y)")
  have y': "yf_ec y' = c" "yf_net y' = w" "buf = b" "ret = (if st = ext_OK then yfs_OK else yfs_NOENT)"
    using assms(4) t g by (auto simp: yfs_get_def Let_def split: if_splits)
  have "cache_inv content e (e \<in> T) (V e) (yf_ec y) (yf_net y)" using assms(2) by (simp add: represents_def)
  then have "cache_inv content e False (V e) (yf_ec y) (yf_net y)" using assms(3) by simp
  note st = step_get [OF assms(1) this g]
  have "represents content V T y'"
    by (rule represents_change [OF assms(2), of e _ False "V e"])
      (use st assms(3) ec_get_frame [OF g] in \<open>simp_all add: y'\<close>)
  then show ?thesis using y' st by (auto split: option.splits)
qed

lemma yfs_getattr_rep:
  assumes "good (yf_net y)" "represents content V T y" "e \<notin> T" "yfs_getattr rpc env e y = (ret, a, y')"
  shows "good (yf_net y') \<and> represents content V T y'
     \<and> (case V e of Some b \<Rightarrow> ret = ext_OK \<and> at_size a = of_nat (length b) | None \<Rightarrow> ret \<noteq> ext_OK)"
proof -
  obtain a0 now snow where t: "env (length (yf_trace y)) = (a0, now, snow)" by (cases "env (length (yf_trace y))")
  obtain st b c w where g: "ec_getattr rpc snow e a0 (yf_ec y, yf_net y) = (st, b, c, w)"
    by (cases "ec_getattr rpc snow e a0 (yf_ec y, yf_net y)")
  have y': "yf_ec y' = c" "yf_net y' = w" "a = b" "ret = st"
    using assms(4) t g by (auto simp: yfs_getattr_def Let_def)
  have "cache_inv content e (e \<in> T) (V e) (yf_ec y) (yf_net y)" using assms(2) by (simp add: represents_def)
  then have "cache_inv content e False (V e) (yf_ec y) (yf_net y)" using assms(3) by simp
  note st = step_getattr [OF assms(1) this g]
  have "represents content V T y'"
    by (rule represents_change [OF assms(2), of e _ False "V e"])
      (use st assms(3) ec_getattr_frame [OF g] in \<open>simp_all add: y'\<close>)
  then show ?thesis using y' st by (auto split: option.splits)
qed

end

subsection \<open>The entries of a directory\<close>

definition dir_entries :: "string \<Rightarrow> (u64 \<times> string) list" where
  "dir_entries txt = map parse_entry (words txt)"

lemma lookup_loop_words:
  "lookup_loop (istream_of s) w name inum =
     (case find (\<lambda>e. c_str (snd e) = name) (map parse_entry (words s)) of
        Some e \<Rightarrow> (yfs_EXIST, fst e) | None \<Rightarrow> (yfs_OK, inum))"
proof (induction "words s" arbitrary: s w)
  case Nil
  then show ?case using extract_word_words [of s w] by (subst lookup_loop.simps) auto
next
  case (Cons v vs)
  obtain t where t: "words s = v # words t" "extract_word w (istream_of s) = (v, istream_of t)"
    using Cons.hyps(2) extract_word_words [of s w] by auto
  have "vs = words t" using Cons.hyps(2) t(1) by simp
  from Cons.hyps(1) [OF this, of v] show ?case
    by (subst lookup_loop.simps) (simp add: t split_beta Let_def)
qed

lemma lookup_text_entries:
  "lookup_text txt name inum = (case find (\<lambda>e. c_str (snd e) = name) (dir_entries txt) of
     Some e \<Rightarrow> (yfs_EXIST, fst e) | None \<Rightarrow> (yfs_OK, inum))"
  by (simp add: lookup_text_def dir_entries_def lookup_loop_words)

definition stays :: "string \<Rightarrow> string \<Rightarrow> bool" where
  "stays name w \<longleftrightarrow> c_str (snd (parse_entry w)) \<noteq> name \<or> isdir (fst (parse_entry w))"

lemma stays_fun: "stays name = (\<lambda>w. c_str (snd (parse_entry w)) \<noteq> name \<or> isdir (fst (parse_entry w)))"
  by (simp add: fun_eq_iff stays_def)

fun join_words :: "nat \<Rightarrow> string list \<Rightarrow> string" where
  "join_words k [] = []"
| "join_words k (w # ws) = (if k > 0 then [space] else []) @ w @ join_words (k + 1) ws"

lemma unlink_loop_words:
  "unlink_loop (istream_of s) w name ost k found inum =
     (ost @ join_words k (filter (stays name) (words s)), found \<or> filter (\<lambda>w. \<not> stays name w) (words s) \<noteq> [],
      last (inum # map (fst \<circ> parse_entry) (filter (\<lambda>w. \<not> stays name w) (words s))))"
proof (induction "words s" arbitrary: s w ost k found inum)
  case Nil
  then show ?case using extract_word_words [of s w] by (subst unlink_loop.simps) auto
next
  case (Cons v vs)
  obtain t where t: "words s = v # words t" "extract_word w (istream_of s) = (v, istream_of t)"
    using Cons.hyps(2) extract_word_words [of s w] by auto
  have "vs = words t" using Cons.hyps(2) t(1) by simp
  note IH = Cons.hyps(1) [OF this, of v]
  show ?case
    by (subst unlink_loop.simps) (simp add: t IH split_beta Let_def stays_def)
qed

lemma words_is_word: "w \<in> set (words s) \<Longrightarrow> is_word w"
proof (induction "words s" arbitrary: s)
  case (Cons v vs)
  obtain t where t: "words s = v # words t" "is_word v"
    using Cons.hyps(2) extract_word_words [of s "[]"] by auto
  then have "vs = words t" using Cons.hyps(2) by simp
  then show ?case using Cons.hyps(1) [of t] Cons.prems t by auto
qed simp

lemma words_join: "\<forall>w \<in> set ws. is_word w \<Longrightarrow> words (join_words k ws) = ws"
proof (induction ws arbitrary: k)
  case (Cons w ws)
  have "join_words (k + 1) ws = [] \<or> is_space (hd (join_words (k + 1) ws))" by (cases ws) simp_all
  then have "words (w @ join_words (k + 1) ws) = w # ws" using Cons by (simp add: words_word)
  then show ?case by (cases k) (simp_all add: words_space)
qed simp

lemma parse_entry_new:
  assumes "is_word name"
  shows "parse_entry (filename i @ ''@'' @ name) = (i, name)"
proof -
  have "extract_uint 0 (istream_of (show_nat (unat i) @ CHR ''@'' # name)) = (i, istream_of (CHR ''@'' # name))"
    by (rule extract_uint_show) (simp add: is_digit_def)
  moreover have "extract_word [] (istream_of name) = (name, istream_of [])"
    using extract_word_append [OF assms, of "[]"] by simp
  ultimately show ?thesis by (simp add: parse_entry_def filename_def stream_get_Cons)
qed

lemma dir_entries_add:
  assumes "is_word name"
  shows "dir_entries (txt @ [space] @ filename i @ ''@'' @ name) = dir_entries txt @ [(i, name)]"
proof -
  have "is_word (filename i @ ''@'' @ name)"
    using assms is_word_show_nat [of "unat i"] by (auto simp: is_word_def filename_def is_space_def)
  then have "words (txt @ space # filename i @ ''@'' @ name) = words txt @ [filename i @ ''@'' @ name]"
    by (simp add: words_append words_single)
  then show ?thesis using parse_entry_new [OF assms] by (simp add: dir_entries_def)
qed

subsection \<open>Directory operations\<close>

text \<open>The content of an extent in the extent server\<close>

abbreviation stored :: "extent_server \<Rightarrow> u64 \<rightharpoonup> string" where
  "stored s \<equiv> map_of (es_contents s)"

lemma find_None_bex: "find P xs = None \<longleftrightarrow> \<not> (\<exists>x \<in> set xs. P x)"
  by (induction xs) simp_all

lemma find_snoc: "find P (xs @ [x]) = (case find P xs of Some y \<Rightarrow> Some y | None \<Rightarrow> if P x then Some x else None)"
  by (induction xs) simp_all

lemmas server_get = srv.yfs_get_rep

lemma getfile_rep:
  assumes "es_wf (yf_net y)" "represents stored V T y" "i \<notin> T" "getfile (server_rpc g) env i fin y = (ret, fin', y')"
  shows "es_wf (yf_net y') \<and> represents stored V T y'
     \<and> (case V i of Some b \<Rightarrow> ret = yfs_OK \<and> fi_size fin' = ucast (of_nat (length b) :: u32) | None \<Rightarrow> ret = yfs_IOERR)"
proof -
  obtain st a y1 where g: "yfs_getattr (server_rpc g) env i (yfs_lock i y) = (st, a, y1)"
    by (cases "yfs_getattr (server_rpc g) env i (yfs_lock i y)")
  then show ?thesis using srv.yfs_getattr_rep [where V = V and T = T, OF _ _ assms(3) g] assms
    by (auto simp: getfile_def Let_def split: option.splits if_splits)
qed

lemma getdir_rep:
  assumes "es_wf (yf_net y)" "represents stored V T y" "i \<notin> T" "getdir (server_rpc g) env i din y = (ret, din', y')"
  shows "es_wf (yf_net y') \<and> represents stored V T y' \<and> ret = (if V i = None then yfs_IOERR else yfs_OK)"
proof -
  obtain st a y1 where g: "yfs_getattr (server_rpc g) env i (yfs_lock i y) = (st, a, y1)"
    by (cases "yfs_getattr (server_rpc g) env i (yfs_lock i y)")
  then show ?thesis using srv.yfs_getattr_rep [where V = V and T = T, OF _ _ assms(3) g] assms
    by (auto simp: getdir_def Let_def split: option.splits if_splits)
qed

lemma getcontent_rep:
  assumes "es_wf (yf_net y)" "represents stored V T y" "i \<notin> T" "getcontent (server_rpc g) env i [] y = (ret, buf, y')"
  shows "es_wf (yf_net y') \<and> represents stored V T y'
     \<and> (case V i of Some b \<Rightarrow> ret = yfs_OK \<and> buf = b | None \<Rightarrow> ret = yfs_NOENT)"
proof -
  obtain st b y1 where g: "yfs_get (server_rpc g) env i [] (yfs_lock i y) = (st, b, y1)"
    by (cases "yfs_get (server_rpc g) env i [] (yfs_lock i y)")
  then show ?thesis using server_get [where V = V and T = T, OF _ _ assms(3) g] assms by (auto simp: getcontent_def)
qed

lemma lookupfile_rep:
  assumes "es_wf (yf_net y)" "represents stored V T y" "d \<notin> T"
    and "lookupfile (server_rpc g) env d name inum y = (ret, i, y')"
  shows "es_wf (yf_net y') \<and> represents stored V T y' \<and>
     (case V d of None \<Rightarrow> ret = yfs_NOENT
      | Some txt \<Rightarrow> (ret, i) = (case find (\<lambda>e. c_str (snd e) = name) (dir_entries txt) of
          Some e \<Rightarrow> (yfs_EXIST, fst e) | None \<Rightarrow> (yfs_OK, inum)))"
proof -
  obtain st buf y1 where g: "yfs_get (server_rpc g) env d [] (yfs_lock d y) = (st, buf, y1)"
    by (cases "yfs_get (server_rpc g) env d [] (yfs_lock d y)")
  have "yfs_NOENT \<noteq> yfs_OK" by (simp add: yfs_status)
  then show ?thesis using assms(4) g server_get [where V = V and T = T, OF _ _ assms(3) g] assms(1,2)
    by (auto simp: lookupfile_def Let_def lookup_text_entries split: prod.splits option.splits)
qed

lemma createfile_rep:
  assumes "es_wf (yf_net y)" "represents stored V T y" "d \<notin> T" "is_word name"
    and "createfile (server_rpc g) env rnd d f name y = (ret, i, y')"
  shows "es_wf (yf_net y') \<and> i = new_inum f rnd \<and>
     (case V d of
        None \<Rightarrow> ret = yfs_NOENT \<and> represents stored V T y'
      | Some txt \<Rightarrow>
          if \<exists>e \<in> set (dir_entries txt). c_str (snd e) = name then ret = yfs_EXIST \<and> represents stored V T y'
          else ret = yfs_OK \<and> (\<exists>txt'. dir_entries txt' = dir_entries txt @ [(i, name)]
             \<and> represents stored (V(d \<mapsto> txt', i \<mapsto> [])) (T - {d, i}) y'))"
proof -
  let ?i = "new_inum f rnd"
  obtain st buf y1 where g: "yfs_get (server_rpc g) env d [] (yfs_lock ?i (yfs_lock d y)) = (st, buf, y1)"
    by (cases "yfs_get (server_rpc g) env d [] (yfs_lock ?i (yfs_lock d y))")
  have y1: "es_wf (yf_net y1)" "represents stored V T y1"
    "case V d of None \<Rightarrow> st = yfs_NOENT | Some txt \<Rightarrow> st = yfs_OK \<and> buf = txt"
    using server_get [where V = V and T = T, OF _ _ assms(3) g] assms(1,2) by (auto split: option.splits)
  show ?thesis
  proof (cases "V d")
    case None
    then show ?thesis using g y1 assms(5) by (auto simp: createfile_def Let_def yfs_status)
  next
    case (Some tx)
    have b: "st = yfs_OK" "buf = tx" using y1(3) Some by simp_all
    let ?new = "tx @ [space] @ filename ?i @ ''@'' @ name"
    show ?thesis
    proof (cases "find (\<lambda>e. c_str (snd e) = name) (dir_entries tx)")
      case (Some e)
      then have "\<exists>e \<in> set (dir_entries tx). c_str (snd e) = name"
        using find_None_bex [of "\<lambda>e. c_str (snd e) = name" "dir_entries tx"] by simp
      moreover have "createfile (server_rpc g) env rnd d f name y = (yfs_EXIST, ?i, yfs_unlock d (yfs_unlock ?i y1))"
        by (simp add: createfile_def Let_def lookup_text_entries g b Some) (simp add: yfs_status)
      ultimately show ?thesis using assms(5) y1(1,2) \<open>V d = Some tx\<close> by simp
    next
      case None
      then have no: "\<not> (\<exists>e \<in> set (dir_entries tx). c_str (snd e) = name)" unfolding find_None_bex .
      obtain r2 y2 where p: "yfs_put env d ?new y1 = (r2, y2)" by (cases "yfs_put env d ?new y1")
      obtain r3 y3 where q: "yfs_put env ?i [] y2 = (r3, y3)" by (cases "yfs_put env ?i [] y2")
      note y2 = yfs_put_rep [OF y1(2) p] note y3 = yfs_put_rep [OF conjunct1 [OF conjunct2 [OF y2]] q]
      have "createfile (server_rpc g) env rnd d f name y = (yfs_OK, ?i, yfs_unlock d (yfs_unlock ?i y3))"
        using y2 y3 p q by (simp add: createfile_def Let_def lookup_text_entries g b None)
      then have r: "ret = yfs_OK" "i = ?i" "y' = yfs_unlock d (yfs_unlock ?i y3)" using assms(5) by simp_all
      have "T - {d} - {i} = T - {d, i}" by blast
      then have rep: "represents stored (V(d \<mapsto> ?new, i \<mapsto> [])) (T - {d, i}) y'" using y3 r(2,3) by simp
      have e: "dir_entries ?new = dir_entries tx @ [(i, name)]" using dir_entries_add [OF assms(4)] r(2) by simp
      have "es_wf (yf_net y')" using r(3) y1(1) y2 y3 by simp
      then show ?thesis using r(1,2) rep e no Some by auto
    qed
  qed
qed

text \<open>Creating a file or a directory: if the directory has no entry with that name, the name is a
  word and the new number is not that of the directory, the directory gets one more entry at its end,
  all other entries stay, the new extent is empty and every other extent is unchanged; a later lookup
  of the name finds the new number. If the name exists, the result is EXIST and nothing changes.\<close>

theorem create_lookup:
  assumes "es_wf (yf_net y)" "represents stored V T y" "d \<notin> T" "V d = Some txt"
    and "is_word name" "c_str name = name" "new_inum f rnd \<noteq> d"
    and "createfile (server_rpc g) env rnd d f name y = (ret, i, y')"
  shows "if \<exists>e \<in> set (dir_entries txt). c_str (snd e) = name
     then ret = yfs_EXIST \<and> represents stored V T y'
     else ret = yfs_OK \<and> i = new_inum f rnd
       \<and> (\<exists>txt'. dir_entries txt' = dir_entries txt @ [(i, name)]
            \<and> represents stored (V(d \<mapsto> txt', i \<mapsto> [])) (T - {d, i}) y')
       \<and> (\<exists>y''. lookupfile (server_rpc g) env' d name x y' = (yfs_EXIST, i, y''))"
proof -
  note c = createfile_rep [OF assms(1-3,5,8)]
  show ?thesis
  proof (cases "\<exists>e \<in> set (dir_entries txt). c_str (snd e) = name")
    case True
    then show ?thesis using c assms(4) by simp
  next
    case False
    then obtain txt' where r: "ret = yfs_OK" "i = new_inum f rnd" "dir_entries txt' = dir_entries txt @ [(i, name)]"
      "represents stored (V(d \<mapsto> txt', i \<mapsto> [])) (T - {d, i}) y'" "es_wf (yf_net y')"
      using c assms(4) by auto
    obtain r4 j y4 where l: "lookupfile (server_rpc g) env' d name x y' = (r4, j, y4)"
      by (cases "lookupfile (server_rpc g) env' d name x y'")
    have "find (\<lambda>e. c_str (snd e) = name) (dir_entries txt) = None" using False find_None_bex by blast
    then have "(r4, j) = (yfs_EXIST, i)"
      using lookupfile_rep [OF r(5,4) _ l] r(2,3) assms(6,7) by (simp add: find_snoc)
    then show ?thesis unfolding if_not_P [OF False] using r(1-4) l by blast
  qed
qed

lemma unlink_rep:
  assumes "es_wf (yf_net y)" "represents stored V T y" "isdir d" "d \<notin> T"
    and "unlink (server_rpc g) env d name y = (ret, y')"
  shows "es_wf (yf_net y') \<and>
     (case V d of
        None \<Rightarrow> ret = yfs_NOENT \<and> represents stored V T y'
      | Some txt \<Rightarrow>
          let gone = filter (\<lambda>e. c_str (snd e) = name \<and> isfile (fst e)) (dir_entries txt)
          in if gone = [] then ret = yfs_NOENT \<and> represents stored V T y'
             else ret = yfs_OK \<and> (\<exists>txt'. dir_entries txt' = filter (\<lambda>e. c_str (snd e) \<noteq> name \<or> isdir (fst e)) (dir_entries txt)
               \<and> represents stored (V(fst (last gone) := None, d \<mapsto> txt')) (insert (fst (last gone)) T - {d}) y'))"
proof -
  obtain st buf y1 where g: "yfs_get (server_rpc g) env d [] (yfs_lock d y) = (st, buf, y1)"
    by (cases "yfs_get (server_rpc g) env d [] (yfs_lock d y)")
  have y1: "es_wf (yf_net y1)" "represents stored V T y1"
    "case V d of None \<Rightarrow> st = yfs_NOENT | Some txt \<Rightarrow> st = yfs_OK \<and> buf = txt"
    using server_get [where V = V and T = T, OF _ _ assms(4) g] assms(1,2) by (auto split: option.splits)
  show ?thesis
  proof (cases "V d")
    case None
    then show ?thesis using g y1 assms(3,5) by (auto simp: unlink_def Let_def yfs_status)
  next
    case (Some tx)
    have b: "st = yfs_OK" "buf = tx" using y1(3) Some by simp_all
    define gone where "gone = filter (\<lambda>e. c_str (snd e) = name \<and> isfile (fst e)) (dir_entries tx)"
    let ?out = "filter (\<lambda>w. \<not> stays name w) (words tx)" and ?txt = "join_words 0 (filter (stays name) (words tx))"
    have gone: "gone = map parse_entry ?out"
      unfolding gone_def dir_entries_def filter_map by (simp add: comp_def stays_def isdir_def)
    have loop: "unlink_loop (istream_of tx) [] name [] 0 False 0 = (?txt, ?out \<noteq> [], last (0 # map fst gone))"
      by (simp add: unlink_loop_words gone del: last.simps)
    have "es_wf (yf_net y') \<and> (if gone = [] then ret = yfs_NOENT \<and> represents stored V T y'
        else ret = yfs_OK \<and> (\<exists>txt'. dir_entries txt' = filter (\<lambda>e. c_str (snd e) \<noteq> name \<or> isdir (fst e)) (dir_entries tx)
          \<and> represents stored (V(fst (last gone) := None, d \<mapsto> txt')) (insert (fst (last gone)) T - {d}) y'))"
    proof (cases "gone = []")
      case True
      then show ?thesis using assms(3,5) g y1 b loop gone by (auto simp: unlink_def Let_def)
    next
      case False
      then have l: "last (0 # map fst gone) = fst (last gone)" by (simp add: last_map)
      obtain r2 y2 where p: "yfs_remove (fst (last gone)) y1 = (r2, y2)" by (cases "yfs_remove (fst (last gone)) y1")
      obtain r3 y3 where q: "yfs_put env d ?txt y2 = (r3, y3)" by (cases "yfs_put env d ?txt y2")
      note y2 = yfs_remove_rep [OF y1(2) p] note y3 = yfs_put_rep [OF conjunct1 [OF conjunct2 [OF y2]] q]
      have r: "ret = yfs_OK" "y' = yfs_unlock d y3"
        using assms(3,5) g y1 b loop l gone False p q y2 y3 by (auto simp: unlink_def Let_def)
      have "words ?txt = filter (stays name) (words tx)" by (rule words_join) (auto dest: words_is_word)
      then have "dir_entries ?txt = filter (\<lambda>e. c_str (snd e) \<noteq> name \<or> isdir (fst e)) (dir_entries tx)"
        by (simp add: dir_entries_def filter_map comp_def stays_fun)
      then show ?thesis using False r y1(1) y2 y3 by auto
    qed
    then show ?thesis unfolding Some option.case Let_def gone_def .
  qed
qed

text \<open>Removing a name from a directory: the entries of files with that name disappear, all other
  entries stay in their order, the extent of the (last) removed file is removed and no other extent
  changes. If no file has that name, the result is NOENT and nothing changes.\<close>

theorem unlink_exact:
  assumes "es_wf (yf_net y)" "represents stored V T y" "isdir d" "d \<notin> T" "V d = Some txt"
    and "gone = filter (\<lambda>e. c_str (snd e) = name \<and> isfile (fst e)) (dir_entries txt)"
    and "unlink (server_rpc g) env d name y = (ret, y')"
  shows "if gone = [] then ret = yfs_NOENT \<and> represents stored V T y'
     else ret = yfs_OK \<and> (\<exists>txt'. dir_entries txt' = filter (\<lambda>e. c_str (snd e) \<noteq> name \<or> isdir (fst e)) (dir_entries txt)
       \<and> represents stored (V(fst (last gone) := None, d \<mapsto> txt')) (insert (fst (last gone)) T - {d}) y')"
  using unlink_rep [OF assms(1-4,7)] unfolding assms(5,6) Let_def option.case by (rule conjunct2)

subsection \<open>Reading and writing\<close>

lemma splice_nth:
  fixes b :: string
  assumes "length buf = n"
    and "new = (if off \<le> length b then take off b else b @ replicate (off - length b) z) @ buf @ drop (off + n) b"
  shows "length new = max (length b) (off + n)" "take n (drop off new) = buf"
    "\<forall>k < length new. k < off \<or> off + n \<le> k \<longrightarrow> new ! k = (if k < length b then b ! k else z)"
proof -
  obtain p where p: "new = p @ buf @ drop (off + n) b" "length p = off" "\<forall>k < off. p ! k = (if k < length b then b ! k else z)"
    using assms(2) by (auto simp: nth_append)
  then show "length new = max (length b) (off + n)" "take n (drop off new) = buf" using assms(1) by auto
  show "\<forall>k < length new. k < off \<or> off + n \<le> k \<longrightarrow> new ! k = (if k < length b then b ! k else z)"
    using p assms(1) by (auto simp: nth_append)
qed

definition splice :: "nat \<Rightarrow> string \<Rightarrow> string \<Rightarrow> string" where
  "splice off buf b = (if off \<le> length b then take off b else b @ replicate (off - length b) (CHR 0x00)) @ buf @ drop (off + length buf) b"

lemma yfs_read_rep:
  assumes "es_wf (yf_net y)" "represents stored V T y" "e \<notin> T" "yfs_read (server_rpc g) env e n off [] y = (ret, buf, y')"
  shows "es_wf (yf_net y') \<and> represents stored V T y'
     \<and> (case V e of Some b \<Rightarrow> ret = yfs_OK \<and> buf = take (unat n) (drop off b) | None \<Rightarrow> ret = yfs_NOENT)"
proof -
  obtain st c y1 where g: "yfs_get (server_rpc g) env e [] (yfs_lock e y) = (st, c, y1)"
    by (cases "yfs_get (server_rpc g) env e [] (yfs_lock e y)")
  then show ?thesis using server_get [where V = V and T = T, OF _ _ assms(3) g] assms
    by (auto simp: yfs_read_def Let_def yfs_status split: option.splits if_splits)
qed

lemma yfs_write_rep:
  assumes "es_wf (yf_net y)" "represents stored V T y" "e \<notin> T" "length buf = unat n"
    and "yfs_write (server_rpc g) env e n off buf y = (ret, y')"
  shows "es_wf (yf_net y') \<and>
     (case V e of
        None \<Rightarrow> ret = yfs_NOENT \<and> represents stored V T y'
      | Some b \<Rightarrow> ret = yfs_OK \<and> represents stored (V(e \<mapsto> splice off buf b)) T y')"
proof -
  obtain st c y1 where g: "yfs_get (server_rpc g) env e [] (yfs_lock e y) = (st, c, y1)"
    by (cases "yfs_get (server_rpc g) env e [] (yfs_lock e y)")
  have y1: "es_wf (yf_net y1)" "represents stored V T y1"
    "case V e of None \<Rightarrow> st = yfs_NOENT | Some b \<Rightarrow> st = yfs_OK \<and> c = b"
    using server_get [where V = V and T = T, OF _ _ assms(3) g] assms(1,2) by (auto split: option.splits)
  show ?thesis
  proof (cases "V e")
    case None
    then show ?thesis using g y1 assms(5) by (auto simp: yfs_write_def Let_def yfs_status)
  next
    case (Some b)
    obtain r2 y2 where p: "yfs_put env e (splice off buf b) y1 = (r2, y2)" by (cases "yfs_put env e (splice off buf b) y1")
    note y2 = yfs_put_rep [OF y1(2) p]
    have "(if off + unat n < length b then drop (off + unat n) b else []) = drop (off + unat n) b" by simp
    then have "ret = yfs_OK" "y' = yfs_unlock e y2"
      using assms(4,5) g y1(3) p y2 Some by (auto simp: yfs_write_def Let_def splice_def)
    then show ?thesis using y2 y1(1) assms(3) Some by simp
  qed
qed

text \<open>(C15) Writing \<open>n\<close> bytes at an offset and reading them back gives the bytes that were written; the
  file is as long as needed, every other byte is unchanged, a gap is filled with zero bytes, and no
  other extent changes.\<close>

theorem write_read:
  assumes "es_wf (yf_net y)" "represents stored V T y" "e \<notin> T" "V e = Some b" "length buf = unat n"
    and "yfs_write (server_rpc g) env e n off buf y = (ret, y')"
  shows "ret = yfs_OK \<and> (\<exists>new. represents stored (V(e \<mapsto> new)) T y' \<and> length new = max (length b) (off + unat n)
     \<and> (\<forall>k < length new. k < off \<or> off + unat n \<le> k \<longrightarrow> new ! k = (if k < length b then b ! k else CHR 0x00)))
     \<and> (\<exists>y''. yfs_read (server_rpc g) env' e n off [] y' = (yfs_OK, buf, y''))"
proof -
  note w = yfs_write_rep [OF assms(1-3,5,6)]
  note new = splice_nth [OF assms(5) refl, of off b "CHR 0x00", folded assms(5), folded splice_def]
  obtain st3 d y3 where h: "yfs_read (server_rpc g) env' e n off [] y' = (st3, d, y3)"
    by (cases "yfs_read (server_rpc g) env' e n off [] y'")
  have "st3 = yfs_OK" "d = buf"
    using yfs_read_rep [where V = "V(e \<mapsto> splice off buf b)" and T = T, OF _ _ assms(3) h] w assms(4,5) new(2) by simp_all
  then show ?thesis using w assms(4,5) h new(1,3) by auto
qed

lemma pad_loop_half:
  "length buf + i \<le> sz \<Longrightarrow> pad_loop i sz buf = buf @ replicate ((sz - length buf - i + 1) div 2) space"
proof (induction i sz buf rule: pad_loop.induct)
  case (1 i sz buf)
  show ?case
  proof (cases "i < sz - length buf")
    case True
    show ?thesis
    proof (cases "i + 1 < sz - length buf")
      case more: True
      then have "pad_loop (i + 1) sz (buf @ [space]) = buf @ space # replicate ((sz - length buf - i - 1) div 2) space"
        using 1(1) [OF True] by simp
      moreover have "(sz - length buf - i + 1) div 2 = Suc ((sz - length buf - i - 1) div 2)"
        using more by linarith
      ultimately show ?thesis using True by (subst pad_loop.simps) simp
    next
      case False
      then have "sz - length buf - i = 1" using True by simp
      then have "pad_loop i sz buf = pad_loop (i + 1) sz (buf @ [space])" using True by (subst pad_loop.simps) simp
      also have "\<not> i + 1 < sz - length (buf @ [space])" using False by auto
      then have "pad_loop (i + 1) sz (buf @ [space]) = buf @ [space]" by (subst pad_loop.simps) simp
      finally show ?thesis using \<open>sz - length buf - i = 1\<close> by simp
    qed
  next
    case False
    then have "sz - length buf - i = 0" by simp
    then show ?thesis using False by (subst pad_loop.simps) simp
  qed
qed

definition resize :: "nat \<Rightarrow> string \<Rightarrow> string" where
  "resize n b = (if n < length b then take n b else b @ replicate ((n - length b + 1) div 2) space)"

lemma setsize_rep:
  assumes "es_wf (yf_net y)" "represents stored V T y" "e \<notin> T" "setsize (server_rpc g) env e n y = (ret, y')"
  shows "es_wf (yf_net y') \<and>
     (case V e of
        None \<Rightarrow> ret = yfs_NOENT \<and> represents stored V T y'
      | Some b \<Rightarrow> ret = yfs_OK \<and> represents stored (V(e \<mapsto> resize (unat n) b)) T y')"
proof -
  obtain st c y1 where g: "yfs_get (server_rpc g) env e [] (yfs_lock e y) = (st, c, y1)"
    by (cases "yfs_get (server_rpc g) env e [] (yfs_lock e y)")
  have y1: "es_wf (yf_net y1)" "represents stored V T y1"
    "case V e of None \<Rightarrow> st = yfs_NOENT | Some b \<Rightarrow> st = yfs_OK \<and> c = b"
    using server_get [where V = V and T = T, OF _ _ assms(3) g] assms(1,2) by (auto split: option.splits)
  show ?thesis
  proof (cases "V e")
    case None
    then show ?thesis using g y1 assms(4) by (auto simp: setsize_def Let_def yfs_status)
  next
    case (Some b)
    let ?new = "if length b > unat n then take (unat n) b else pad_loop 0 (unat n) b"
    obtain r2 y2 where p: "yfs_put env e ?new y1 = (r2, y2)" by (cases "yfs_put env e ?new y1")
    note y2 = yfs_put_rep [OF y1(2) p]
    have "ret = yfs_OK" "y' = yfs_unlock e y2"
      using assms(4) g y1(3) p y2 Some by (auto simp: setsize_def Let_def)
    moreover have "?new = resize (unat n) b" using pad_loop_half [of b 0 "unat n"] by (simp add: resize_def)
    ultimately show ?thesis using y2 y1(1) assms(3) Some by simp
  qed
qed

text \<open>\<^verbatim>\<open>setsize\<close> cuts a file to the given size, but extends it only half of the way: the loop counts
  up to a difference that shrinks as the file grows. The padding is spaces, not zero bytes.\<close>

theorem setsize_half:
  assumes "es_wf (yf_net y)" "represents stored V T y" "e \<notin> T" "V e = Some b"
    and "setsize (server_rpc g) env e n y = (ret, y')"
  shows "ret = yfs_OK \<and> represents stored (V(e \<mapsto> if unat n < length b then take (unat n) b
     else b @ replicate ((unat n - length b + 1) div 2) space)) T y'"
  using setsize_rep [OF assms(1-3,5)] assms(4) by (simp add: resize_def)

subsection \<open>Locking\<close>

datatype yfs_op = Do_getfile u64 | Do_getdir u64 | Do_lookup u64 string | Do_create u64 u64 bool string
  | Do_getcontent u64 | Do_setsize u64 u32 | Do_read u64 u32 nat | Do_write u64 u32 nat string | Do_unlink u64 string

fun yfs_exec :: "'w extent_rpc \<Rightarrow> env \<Rightarrow> yfs_op \<Rightarrow> 'w yfs \<Rightarrow> 'w yfs" where
  "yfs_exec rpc env (Do_getfile i) y = snd (snd (getfile rpc env i \<lparr>fi_size = 0, fi_atime = 0, fi_mtime = 0, fi_ctime = 0\<rparr> y))"
| "yfs_exec rpc env (Do_getdir i) y = snd (snd (getdir rpc env i \<lparr>di_atime = 0, di_mtime = 0, di_ctime = 0\<rparr> y))"
| "yfs_exec rpc env (Do_lookup d name) y = snd (snd (lookupfile rpc env d name 0 y))"
| "yfs_exec rpc env (Do_create rnd d f name) y = snd (snd (createfile rpc env rnd d f name y))"
| "yfs_exec rpc env (Do_getcontent i) y = snd (snd (getcontent rpc env i [] y))"
| "yfs_exec rpc env (Do_setsize i n) y = snd (setsize rpc env i n y)"
| "yfs_exec rpc env (Do_read i n off) y = snd (snd (yfs_read rpc env i n off [] y))"
| "yfs_exec rpc env (Do_write i n off buf) y = snd (yfs_write rpc env i n off buf y)"
| "yfs_exec rpc env (Do_unlink d name) y = snd (unlink rpc env d name y)"

text \<open>The locks held after a trace (newest event first). It is wrong to take a lock that is held, which
  blocks forever, to give up one that is not held, and to access an extent without its lock.\<close>

fun locks_held :: "event list \<Rightarrow> u64 list option" where
  "locks_held [] = Some []"
| "locks_held (Lock_acquire i # tr) =
     (case locks_held tr of Some h \<Rightarrow> if i \<in> set h then None else Some (i # h) | None \<Rightarrow> None)"
| "locks_held (Lock_release i # tr) =
     (case locks_held tr of Some h \<Rightarrow> if i \<in> set h then Some (remove1 i h) else None | None \<Rightarrow> None)"
| "locks_held (Extent_access i # tr) =
     (case locks_held tr of Some h \<Rightarrow> if i \<in> set h then Some h else None | None \<Rightarrow> None)"

lemma trace_lock [simp]:
  "yf_trace (yfs_lock i y) = Lock_acquire i # yf_trace y" "yf_trace (yfs_unlock i y) = Lock_release i # yf_trace y"
  by (simp_all add: yfs_lock_def yfs_unlock_def yfs_event_def)

lemma trace_get: "yfs_get rpc env i buf y = (ret, b, y') \<Longrightarrow> yf_trace y' = Extent_access i # yf_trace y"
  by (auto simp: yfs_get_def yfs_event_def Let_def split: prod.splits if_splits)

lemma trace_getattr: "yfs_getattr rpc env i y = (ret, a, y') \<Longrightarrow> yf_trace y' = Extent_access i # yf_trace y"
  by (auto simp: yfs_getattr_def yfs_event_def split: prod.splits)

lemma trace_put: "yfs_put env i b y = (ret, y') \<Longrightarrow> yf_trace y' = Extent_access i # yf_trace y"
  by (auto simp: yfs_put_def yfs_event_def Let_def split: prod.splits if_splits)

lemma trace_remove: "yfs_remove i y = (ret, y') \<Longrightarrow>
    yf_trace y' = Lock_release i # Extent_access i # Lock_acquire i # yf_trace y"
  by (auto simp: yfs_remove_def yfs_event_def Let_def split: prod.splits if_splits)

lemmas traces = trace_get trace_getattr trace_put trace_remove

lemma unlink_loop_isfile:
  "unlink_loop (istream_of s) w name ost k False inum = (ost', True, i) \<Longrightarrow> isfile i"
proof -
  assume a: "unlink_loop (istream_of s) w name ost k False inum = (ost', True, i)"
  let ?out = "filter (\<lambda>w. \<not> stays name w) (words s)"
  have ne: "?out \<noteq> []" and i: "i = last (inum # map (fst \<circ> parse_entry) ?out)"
    using a by (auto simp: unlink_loop_words simp del: last.simps)
  have "i = fst (parse_entry (last ?out))" using i ne by (simp add: last_map)
  moreover have "\<not> stays name (last ?out)" using last_in_set [OF ne] by simp
  ultimately show ?thesis by (simp add: stays_def isdir_def)
qed



subsection \<open>Sample file system\<close>

text \<open>The root directory, which holds a file, over an empty cache\<close>

definition sample_fs :: "extent_server yfs" where
  "sample_fs = \<lparr>yf_ec = ec_new, yf_net = snd (es_put 1 0 1 ''2147483655@a'' (snd (es_put 1 0 2147483655 ''xyz'' es_new))),
     yf_trace = []\<rparr>"

definition sample_env :: env where "sample_env = (\<lambda>_. (attr_zero, 1, 2))"

lemma represents_empty_cache: "yf_ec y = ec_new \<Longrightarrow> represents content (content (yf_net y)) {} y"
  by (simp add: represents_def cache_inv_def ec_new_def)

lemma sample_fs_rep: "represents stored (stored (yf_net sample_fs)) {} sample_fs"
  by (rule represents_empty_cache) (simp add: sample_fs_def)

lemma sample_fs_wf: "es_wf (yf_net sample_fs)"
  using es_wf_new by (auto simp: sample_fs_def es_put_def es_wf_def)

lemma sample_fs_stored:
  "stored (yf_net sample_fs) 1 = Some ''2147483655@a''" "stored (yf_net sample_fs) 2147483655 = Some ''xyz''"
  by (simp_all add: sample_fs_def es_put_def)

lemma sample_entries: "dir_entries ''2147483655@a'' = [(2147483655, ''a'')]"
proof -
  have "digit 0 = CHR ''0''" "digit 1 = CHR ''1''" "digit 2 = CHR ''2''" "digit 3 = CHR ''3''" "digit 4 = CHR ''4''"
    "digit 5 = CHR ''5''" "digit 6 = CHR ''6''" "digit 7 = CHR ''7''" "digit 8 = CHR ''8''" by code_simp+
  then have "filename (2147483655 :: u64) = ''2147483655''" by (simp add: filename_def show_nat.simps)
  then have "parse_entry ''2147483655@a'' = (2147483655, ''a'')"
    using parse_entry_new [of "''a''" 2147483655] by (simp add: is_word_def is_space_def)
  moreover have "words ''2147483655@a'' = [''2147483655@a'']"
    by (rule words_single) (simp add: is_word_def is_space_def)
  ultimately show ?thesis by (simp add: dir_entries_def)
qed

theorem create_lookup_witness:
  "\<exists>y' y''. createfile (server_rpc 0) sample_env 5 1 True ''b'' sample_fs = (yfs_OK, 2147483653, y')
     \<and> lookupfile (server_rpc 0) sample_env 1 ''b'' 0 y' = (yfs_EXIST, 2147483653, y'')"
proof -
  obtain ret i y' where c: "createfile (server_rpc 0) sample_env 5 1 True ''b'' sample_fs = (ret, i, y')"
    by (cases "createfile (server_rpc 0) sample_env 5 1 True ''b'' sample_fs")
  have n: "new_inum True 5 = 2147483653" by (simp add: new_inum_def)
  have "is_word ''b''" "c_str ''b'' = ''b''" by (simp_all add: is_word_def is_space_def c_str_def)
  then show ?thesis
    using create_lookup [OF sample_fs_wf sample_fs_rep _ sample_fs_stored(1) _ _ _ c, of sample_env 0] c n
    by (auto simp: sample_entries c_str_def)
qed

theorem unlink_exact_witness:
  "\<exists>y' V T. unlink (server_rpc 0) sample_env 1 ''a'' sample_fs = (yfs_OK, y') \<and> represents stored V T y'
     \<and> V 2147483655 = None \<and> dir_entries (the (V 1)) = []"
proof -
  obtain ret y' where c: "unlink (server_rpc 0) sample_env 1 ''a'' sample_fs = (ret, y')"
    by (cases "unlink (server_rpc 0) sample_env 1 ''a'' sample_fs")
  have "isdir 1" "isfile 2147483655" by (simp_all add: isdir_def isfile_def)
  then show ?thesis
    using unlink_exact [OF sample_fs_wf sample_fs_rep _ _ sample_fs_stored(1) refl c] c
    by (auto simp: sample_entries c_str_def isdir_def)
qed

theorem write_read_witness:
  "\<exists>y' y''. yfs_write (server_rpc 0) sample_env 2147483655 2 5 ''uv'' sample_fs = (yfs_OK, y')
     \<and> yfs_read (server_rpc 0) sample_env 2147483655 2 5 [] y' = (yfs_OK, ''uv'', y'')"
proof -
  obtain ret y' where c: "yfs_write (server_rpc 0) sample_env 2147483655 2 5 ''uv'' sample_fs = (ret, y')"
    by (cases "yfs_write (server_rpc 0) sample_env 2147483655 2 5 ''uv'' sample_fs")
  show ?thesis
    using write_read [OF sample_fs_wf sample_fs_rep _ sample_fs_stored(2) _ c, of sample_env] c by auto
qed

theorem setsize_half_witness:
  "\<exists>y' V. setsize (server_rpc 0) sample_env 2147483655 9 sample_fs = (yfs_OK, y')
     \<and> represents stored V {} y' \<and> V 2147483655 = Some ''xyz   ''"
proof -
  obtain ret y' where c: "setsize (server_rpc 0) sample_env 2147483655 9 sample_fs = (ret, y')"
    by (cases "setsize (server_rpc 0) sample_env 2147483655 9 sample_fs")
  have "ret = yfs_OK \<and> represents stored ((stored (yf_net sample_fs))(2147483655 \<mapsto> ''xyz   '')) {} y'"
    using setsize_half [OF sample_fs_wf sample_fs_rep _ sample_fs_stored(2) c] by (simp add: numeral_3_eq_3)
  then show ?thesis using c by (metis fun_upd_same)
qed

end
