(* ===== verification/Fuse.thy ===== *)
theory Fuse
  imports Yfs
begin

text \<open>
  The FUSE front end (\<^verbatim>\<open>fuse.cc\<close>): the handlers the FUSE library calls for the requests of the kernel, over the operations of
  \<^verbatim>\<open>yfs_client.cc\<close>. The FUSE library is not part of the sources: the bit \<^verbatim>\<open>FUSE_SET_ATTR_SIZE\<close>, \<^verbatim>\<open>fuse_dirent_size\<close> and
  \<^verbatim>\<open>fuse_add_dirent\<close> are parameters, and the replies are recorded. Logging is left out. \<^verbatim>\<open>fuse_ino_t\<close> and \<^verbatim>\<open>size_t\<close>
  have 32 bits, \<^verbatim>\<open>off_t\<close> has 64. The handlers together refine a file system of files and directories.
\<close>

subsection \<open>Replies\<close>

definition E_NOENT :: int where "E_NOENT = 2"
definition E_EXIST :: int where "E_EXIST = 17"
definition E_NOTDIR :: int where "E_NOTDIR = 20"
definition E_NOSYS :: int where "E_NOSYS = 38"

definition S_IFREG :: u32 where "S_IFREG = 0x8000"
definition S_IFDIR :: u32 where "S_IFDIR = 0x4000"

record stat =
  st_ino :: u64
  st_mode :: u32
  st_nlink :: u32
  st_atime :: u32
  st_mtime :: u32
  st_ctime :: u32
  st_size :: u64

definition stat_zero :: stat where
  "stat_zero = \<lparr>st_ino = 0, st_mode = 0, st_nlink = 0, st_atime = 0, st_mtime = 0, st_ctime = 0, st_size = 0\<rparr>"

text \<open>The only timeouts that are ever assigned are \<^verbatim>\<open>0.0\<close>.\<close>

record fuse_entry_param =
  e_ino :: u32
  e_generation :: u32
  e_attr :: stat
  e_attr_timeout :: int
  e_entry_timeout :: int

record statvfs =
  f_namemax :: u32
  f_bsize :: u32

datatype reply = Reply_err int | Reply_attr stat | Reply_buf string | Reply_write u32 | Reply_entry fuse_entry_param
  | Reply_create fuse_entry_param | Reply_open | Reply_statfs statvfs

text \<open>What a handler depends on: the calls to the extent server, the clocks, the result of \<^verbatim>\<open>random()\<close>, the initial value of an
  entry parameter on the stack, and the FUSE library.\<close>

record 'w fuse_env =
  fe_rpc :: "'w extent_rpc"
  fe_env :: env
  fe_random :: u64
  fe_e :: fuse_entry_param
  fe_set_size :: u32
  fe_dirent_size :: "nat \<Rightarrow> nat"
  fe_add_dirent :: "string \<Rightarrow> stat \<Rightarrow> nat \<Rightarrow> string"

record 'w fuse =
  fu_yfs :: "'w yfs"
  fu_replies :: "reply list"

definition fuse_reply :: "reply \<Rightarrow> 'w yfs \<Rightarrow> 'w fuse \<Rightarrow> 'w fuse" where
  "fuse_reply r y f = f\<lparr>fu_yfs := y, fu_replies := fu_replies f @ [r]\<rparr>"

subsection \<open>Attributes\<close>

definition getattr :: "'w fuse_env \<Rightarrow> u64 \<Rightarrow> 'w yfs \<Rightarrow> int \<times> stat \<times> 'w yfs" where
  "getattr x inum y =
     (let st = stat_zero\<lparr>st_ino := inum\<rparr>
      in if isfile inum then
           let (ret, info, y) = getfile (fe_rpc x) (fe_env x) inum \<lparr>fi_size = 0, fi_atime = 0, fi_mtime = 0, fi_ctime = 0\<rparr> y
           in if ret \<noteq> yfs_OK then (ret, st, y)
              else (yfs_OK, st\<lparr>st_mode := or S_IFREG 438, st_nlink := 1, st_atime := fi_atime info, st_mtime := fi_mtime info,
                st_ctime := fi_ctime info, st_size := fi_size info\<rparr>, y)
         else
           let (ret, info, y) = getdir (fe_rpc x) (fe_env x) inum \<lparr>di_atime = 0, di_mtime = 0, di_ctime = 0\<rparr> y
           in if ret \<noteq> yfs_OK then (ret, st, y)
              else (yfs_OK, st\<lparr>st_mode := or S_IFDIR 511, st_nlink := 2, st_atime := di_atime info, st_mtime := di_mtime info,
                st_ctime := di_ctime info\<rparr>, y))"

definition fuseserver_getattr :: "'w fuse_env \<Rightarrow> u32 \<Rightarrow> 'w fuse \<Rightarrow> 'w fuse" where
  "fuseserver_getattr x ino f =
     (let inum = ucast ino; (ret, st, y) = getattr x inum (fu_yfs f)
      in if ret \<noteq> yfs_OK then fuse_reply (Reply_err E_NOENT) y f else fuse_reply (Reply_attr st) y f)"

text \<open>\<open>sz\<close> is \<^verbatim>\<open>attr->st_size\<close>.\<close>

definition fuseserver_setattr :: "'w fuse_env \<Rightarrow> u32 \<Rightarrow> u64 \<Rightarrow> u32 \<Rightarrow> 'w fuse \<Rightarrow> 'w fuse" where
  "fuseserver_setattr x ino sz to_set f =
     (if and (fe_set_size x) to_set \<noteq> 0 then
        let inum = ucast ino; n = ucast sz; (ret, y) = setsize (fe_rpc x) (fe_env x) inum n (fu_yfs f)
        in if ret \<noteq> yfs_OK then fuse_reply (Reply_err E_NOENT) y f
           else let (ret, st, y) = getattr x inum y
             in if ret \<noteq> yfs_OK then fuse_reply (Reply_err E_NOENT) y f else fuse_reply (Reply_attr st) y f
      else fuse_reply (Reply_err E_NOSYS) (fu_yfs f) f)"

subsection \<open>Files\<close>

definition fuseserver_read :: "'w fuse_env \<Rightarrow> u32 \<Rightarrow> u32 \<Rightarrow> nat \<Rightarrow> 'w fuse \<Rightarrow> 'w fuse" where
  "fuseserver_read x ino sz off f =
     (let (ret, buf, y) = yfs_read (fe_rpc x) (fe_env x) (ucast ino) sz off [] (fu_yfs f)
      in if ret \<noteq> yfs_OK then fuse_reply (Reply_err E_NOENT) y f else fuse_reply (Reply_buf buf) y f)"

definition fuseserver_write :: "'w fuse_env \<Rightarrow> u32 \<Rightarrow> string \<Rightarrow> u32 \<Rightarrow> nat \<Rightarrow> 'w fuse \<Rightarrow> 'w fuse" where
  "fuseserver_write x ino buf sz off f =
     (let (ret, y) = yfs_write (fe_rpc x) (fe_env x) (ucast ino) sz off buf (fu_yfs f)
      in if ret \<noteq> yfs_OK then fuse_reply (Reply_write (word_of_int E_NOENT)) y f else fuse_reply (Reply_write sz) y f)"

subsection \<open>Directories\<close>

definition fuseserver_createhelper :: "'w fuse_env \<Rightarrow> u32 \<Rightarrow> string \<Rightarrow> fuse_entry_param \<Rightarrow> 'w yfs \<Rightarrow> int \<times> fuse_entry_param \<times> 'w yfs" where
  "fuseserver_createhelper x parent name e y =
     (let e = e\<lparr>e_attr_timeout := 0, e_entry_timeout := 0, e_generation := 0\<rparr>;
          (ret, inum, y) = createfile (fe_rpc x) (fe_env x) (fe_random x) (ucast parent) True name y
      in if ret \<noteq> yfs_OK then (ret, e, y)
         else let (ret, st, y) = getattr x inum y
           in if ret \<noteq> yfs_OK then (yfs_IOERR, e, y) else (yfs_OK, e\<lparr>e_ino := ucast inum, e_attr := st\<rparr>, y))"

definition fuseserver_createdirhelper :: "'w fuse_env \<Rightarrow> u32 \<Rightarrow> string \<Rightarrow> fuse_entry_param \<Rightarrow> 'w yfs \<Rightarrow> int \<times> fuse_entry_param \<times> 'w yfs" where
  "fuseserver_createdirhelper x parent name e y =
     (let e = e\<lparr>e_attr_timeout := 0, e_entry_timeout := 0, e_generation := 0\<rparr>;
          (ret, inum, y) = createfile (fe_rpc x) (fe_env x) (fe_random x) (ucast parent) False name y
      in if ret \<noteq> yfs_OK then (ret, e, y)
         else let (ret, st, y) = getattr x inum y
           in if ret \<noteq> yfs_OK then (yfs_IOERR, e, y) else (yfs_OK, e\<lparr>e_ino := ucast inum, e_attr := st\<rparr>, y))"

definition fuseserver_create :: "'w fuse_env \<Rightarrow> u32 \<Rightarrow> string \<Rightarrow> 'w fuse \<Rightarrow> 'w fuse" where
  "fuseserver_create x parent name f =
     (let (ret, e, y) = fuseserver_createhelper x parent name (fe_e x) (fu_yfs f)
      in if ret = yfs_OK then fuse_reply (Reply_create e) y f
         else if ret = yfs_EXIST then fuse_reply (Reply_err E_EXIST) y f
         else fuse_reply (Reply_err E_NOENT) y f)"

definition fuseserver_mknod :: "'w fuse_env \<Rightarrow> u32 \<Rightarrow> string \<Rightarrow> 'w fuse \<Rightarrow> 'w fuse" where
  "fuseserver_mknod x parent name f =
     (let (ret, e, y) = fuseserver_createhelper x parent name (fe_e x) (fu_yfs f)
      in if ret = yfs_OK then fuse_reply (Reply_entry e) y f
         else if ret = yfs_EXIST then fuse_reply (Reply_err E_EXIST) y f
         else fuse_reply (Reply_err E_NOENT) y f)"

definition fuseserver_mkdir :: "'w fuse_env \<Rightarrow> u32 \<Rightarrow> string \<Rightarrow> 'w fuse \<Rightarrow> 'w fuse" where
  "fuseserver_mkdir x parent name f =
     (let (ret, e, y) = fuseserver_createdirhelper x parent name (fe_e x) (fu_yfs f)
      in if ret = yfs_OK then fuse_reply (Reply_entry e) y f
         else if ret = yfs_EXIST then fuse_reply (Reply_err E_EXIST) y f
         else fuse_reply (Reply_err E_NOENT) y f)"

text \<open>A name that is found is answered even when its attributes cannot be read; \<^verbatim>\<open>e.ino\<close> and \<^verbatim>\<open>e.attr\<close> are then not
  assigned.\<close>

definition fuseserver_lookup :: "'w fuse_env \<Rightarrow> u32 \<Rightarrow> string \<Rightarrow> 'w fuse \<Rightarrow> 'w fuse" where
  "fuseserver_lookup x parent name f =
     (let e = (fe_e x)\<lparr>e_attr_timeout := 0, e_entry_timeout := 0, e_generation := 0\<rparr>;
          (ret, inum, y) = lookupfile (fe_rpc x) (fe_env x) (ucast parent) name 0 (fu_yfs f)
      in if ret = yfs_EXIST then
           let (ret, st, y) = getattr x inum y; e = (if ret = yfs_OK then e\<lparr>e_ino := ucast inum, e_attr := st\<rparr> else e)
           in fuse_reply (Reply_entry e) y f
         else fuse_reply (Reply_err E_NOENT) y f)"

text \<open>\<open>db_p\<close> is the content of the buffer, which \<^verbatim>\<open>realloc\<close> keeps as it grows.\<close>

record dirbuf =
  db_p :: string
  db_size :: nat

definition dirbuf_add :: "'w fuse_env \<Rightarrow> dirbuf \<Rightarrow> string \<Rightarrow> u32 \<Rightarrow> dirbuf" where
  "dirbuf_add x b name ino =
     (let oldsize = db_size b; newsize = oldsize + fe_dirent_size x (length name)
      in \<lparr>db_p = take oldsize (db_p b) @ fe_add_dirent x name (stat_zero\<lparr>st_ino := ucast ino\<rparr>) newsize, db_size = newsize\<rparr>)"

text \<open>\<^verbatim>\<open>(size_t)off\<close> keeps 32 bits of the offset; an offset that does not fit reads outside of the buffer.\<close>

definition reply_buf_limited :: "string \<Rightarrow> nat \<Rightarrow> nat \<Rightarrow> nat \<Rightarrow> string res" where
  "reply_buf_limited buf bufsize off maxsize =
     (if off mod 2 ^ 32 < bufsize then
        if bufsize < off then Inl Undefined_behaviour
        else Inr (take (if bufsize - off < maxsize then bufsize - off else maxsize) (drop off buf))
      else Inr [])"

function readdir_loop :: "'w fuse_env \<Rightarrow> istream \<Rightarrow> string \<Rightarrow> dirbuf \<Rightarrow> dirbuf" where
  "readdir_loop x ist w b =
     (let (w, ist') = extract_word w ist
      in if \<not> st_ok ist' then b
         else let (finum, fname) = parse_entry w in readdir_loop x ist' w (dirbuf_add x b (c_str fname) (ucast finum)))"
  by pat_completeness auto

termination
  by (relation "measure (\<lambda>(x, ist, _). length (st_rest ist))") (auto dest: extract_word_shrinks [OF sym])

declare readdir_loop.simps [simp del]

definition fuseserver_readdir :: "'w fuse_env \<Rightarrow> u32 \<Rightarrow> u32 \<Rightarrow> nat \<Rightarrow> 'w fuse \<Rightarrow> 'w fuse res" where
  "fuseserver_readdir x ino sz off f =
     (let inum = ucast ino
      in if \<not> isdir inum then Inr (fuse_reply (Reply_err E_NOTDIR) (fu_yfs f) f)
         else let (ret, buf, y) = getcontent (fe_rpc x) (fe_env x) inum [] (fu_yfs f)
           in if ret \<noteq> yfs_OK then Inr (fuse_reply (Reply_err E_NOENT) y f)
              else let b = readdir_loop x (istream_of buf) [] \<lparr>db_p = [], db_size = 0\<rparr>
                in res_bind (reply_buf_limited (db_p b) (db_size b) off (unat sz)) (\<lambda>r. Inr (fuse_reply (Reply_buf r) y f)))"

definition fuseserver_open :: "u32 \<Rightarrow> 'w fuse \<Rightarrow> 'w fuse" where
  "fuseserver_open ino f = fuse_reply Reply_open (fu_yfs f) f"

definition fuseserver_unlink :: "'w fuse_env \<Rightarrow> u32 \<Rightarrow> string \<Rightarrow> 'w fuse \<Rightarrow> 'w fuse" where
  "fuseserver_unlink x parent name f =
     (let (ret, y) = unlink (fe_rpc x) (fe_env x) (ucast parent) name (fu_yfs f)
      in if ret \<noteq> yfs_OK then fuse_reply (Reply_err E_NOENT) y f else fuse_reply (Reply_err 0) y f)"

definition fuseserver_statfs :: "'w fuse \<Rightarrow> 'w fuse" where
  "fuseserver_statfs f = fuse_reply (Reply_statfs \<lparr>f_namemax = 255, f_bsize = 512\<rparr>) (fu_yfs f) f"

subsection \<open>Dispatch\<close>

text \<open>The table \<^verbatim>\<open>fuseserver_oper\<close>\<close>

datatype request = Getattr u32 | Statfs | Readdir u32 u32 nat | Lookup u32 string | Create u32 string | Mknod u32 string | Open u32
  | Read u32 u32 nat | Write u32 string u32 nat | Setattr u32 u64 u32 | Unlink u32 string | Mkdir u32 string

fun fuseserver_oper :: "'w fuse_env \<Rightarrow> request \<Rightarrow> 'w fuse \<Rightarrow> 'w fuse res" where
  "fuseserver_oper x (Getattr ino) f = Inr (fuseserver_getattr x ino f)"
| "fuseserver_oper x Statfs f = Inr (fuseserver_statfs f)"
| "fuseserver_oper x (Readdir ino sz off) f = fuseserver_readdir x ino sz off f"
| "fuseserver_oper x (Lookup parent name) f = Inr (fuseserver_lookup x parent name f)"
| "fuseserver_oper x (Create parent name) f = Inr (fuseserver_create x parent name f)"
| "fuseserver_oper x (Mknod parent name) f = Inr (fuseserver_mknod x parent name f)"
| "fuseserver_oper x (Open ino) f = Inr (fuseserver_open ino f)"
| "fuseserver_oper x (Read ino sz off) f = Inr (fuseserver_read x ino sz off f)"
| "fuseserver_oper x (Write ino buf sz off) f = Inr (fuseserver_write x ino buf sz off f)"
| "fuseserver_oper x (Setattr ino sz to_set) f = Inr (fuseserver_setattr x ino sz to_set f)"
| "fuseserver_oper x (Unlink parent name) f = Inr (fuseserver_unlink x parent name f)"
| "fuseserver_oper x (Mkdir parent name) f = Inr (fuseserver_mkdir x parent name f)"

text \<open>The session loop hands the requests to the handlers one after the other.\<close>

fun fuse_session :: "('w fuse_env \<times> request) list \<Rightarrow> 'w fuse \<Rightarrow> 'w fuse res" where
  "fuse_session [] f = Inr f"
| "fuse_session ((x, r) # rs) f = res_bind (fuseserver_oper x r f) (fuse_session rs)"

subsection \<open>The file system the handlers implement\<close>

text \<open>A file has a content, a directory a list of numbered names.\<close>

datatype fnode = File string | Dir "(u64 \<times> string) list"

type_synonym fs = "u64 \<rightharpoonup> fnode"
type_synonym fattr = "u64 \<times> u32 \<times> u32 \<times> u64"

datatype obs = O_err int | O_attr fattr | O_data string | O_written u32 | O_entry "u32 \<times> fattr \<times> u32 \<times> int \<times> int"
  | O_create "u32 \<times> fattr \<times> u32 \<times> int \<times> int" | O_open | O_statfs

text \<open>What is observed of a reply: everything but the times.\<close>

definition stat_obs :: "stat \<Rightarrow> fattr" where
  "stat_obs st = (st_ino st, st_mode st, st_nlink st, st_size st)"

definition entry_obs :: "fuse_entry_param \<Rightarrow> u32 \<times> fattr \<times> u32 \<times> int \<times> int" where
  "entry_obs e = (e_ino e, stat_obs (e_attr e), e_generation e, e_attr_timeout e, e_entry_timeout e)"

fun observe :: "reply \<Rightarrow> obs" where
  "observe (Reply_err n) = O_err n"
| "observe (Reply_attr st) = O_attr (stat_obs st)"
| "observe (Reply_buf b) = O_data b"
| "observe (Reply_write n) = O_written n"
| "observe (Reply_entry e) = O_entry (entry_obs e)"
| "observe (Reply_create e) = O_create (entry_obs e)"
| "observe Reply_open = O_open"
| "observe (Reply_statfs v) = O_statfs"

fun node_attr :: "u64 \<Rightarrow> fnode \<Rightarrow> fattr" where
  "node_attr i (File b) = (i, or S_IFREG 438, 1, ucast (of_nat (length b) :: u32))"
| "node_attr i (Dir es) = (i, or S_IFDIR 511, 2, 0)"

definition node_entry :: "u64 \<Rightarrow> fnode \<Rightarrow> u32 \<times> fattr \<times> u32 \<times> int \<times> int" where
  "node_entry i n = (ucast i, node_attr i n, 0, 0, 0)"

fun listing :: "'w fuse_env \<Rightarrow> nat \<Rightarrow> (u64 \<times> string) list \<Rightarrow> string" where
  "listing x off [] = []"
| "listing x off ((i, name) # es) =
     (let off' = off + fe_dirent_size x (length name)
      in fe_add_dirent x name (stat_zero\<lparr>st_ino := ucast (ucast i :: u32)\<rparr>) off' @ listing x off' es)"

text \<open>\<open>T\<close> are the numbers of the removed files, which must not be used again before they are created anew.\<close>

definition spec_create :: "bool \<Rightarrow> (u32 \<times> fattr \<times> u32 \<times> int \<times> int \<Rightarrow> obs) \<Rightarrow> u64 \<Rightarrow> u64 \<Rightarrow> string \<Rightarrow> fs \<Rightarrow> u64 set \<Rightarrow> obs \<times> fs \<times> u64 set" where
  "spec_create f mk rnd d name A T =
     (case A d of
        Some (Dir es) \<Rightarrow>
          if name \<in> snd ` set es then (O_err E_EXIST, A, T)
          else let i = new_inum f rnd; n = (if f then File [] else Dir [])
            in (mk (node_entry i n), A(d \<mapsto> Dir (es @ [(i, name)]), i \<mapsto> n), T - {d, i})
      | _ \<Rightarrow> (O_err E_NOENT, A, T))"

definition spec_lookup :: "u64 \<Rightarrow> string \<Rightarrow> fs \<Rightarrow> obs" where
  "spec_lookup d name A =
     (case A d of
        Some (Dir es) \<Rightarrow>
          (case find (\<lambda>e. snd e = name) es of
             None \<Rightarrow> O_err E_NOENT
           | Some e \<Rightarrow> (case A (fst e) of Some n \<Rightarrow> O_entry (node_entry (fst e) n) | None \<Rightarrow> O_err E_NOENT))
      | _ \<Rightarrow> O_err E_NOENT)"

definition spec_unlink :: "u64 \<Rightarrow> string \<Rightarrow> fs \<Rightarrow> u64 set \<Rightarrow> obs \<times> fs \<times> u64 set" where
  "spec_unlink d name A T =
     (case A d of
        Some (Dir es) \<Rightarrow>
          (case find (\<lambda>e. snd e = name \<and> isfile (fst e)) es of
             None \<Rightarrow> (O_err E_NOENT, A, T)
           | Some e \<Rightarrow> (O_err 0, A(fst e := None, d \<mapsto> Dir (filter (\<lambda>e. snd e \<noteq> name \<or> isdir (fst e)) es)), insert (fst e) T - {d}))
      | _ \<Rightarrow> (O_err E_NOENT, A, T))"

fun fs_spec :: "'w fuse_env \<Rightarrow> request \<Rightarrow> fs \<Rightarrow> u64 set \<Rightarrow> obs \<times> fs \<times> u64 set" where
  "fs_spec x (Getattr ino) A T =
     (case A (ucast ino) of None \<Rightarrow> O_err E_NOENT | Some n \<Rightarrow> O_attr (node_attr (ucast ino) n), A, T)"
| "fs_spec x Statfs A T = (O_statfs, A, T)"
| "fs_spec x (Readdir ino sz off) A T =
     (if isfile (ucast ino) then O_err E_NOTDIR
      else (case A (ucast ino) of Some (Dir es) \<Rightarrow> O_data (take (unat sz) (drop off (listing x 0 es))) | _ \<Rightarrow> O_err E_NOENT), A, T)"
| "fs_spec x (Lookup parent name) A T = (spec_lookup (ucast parent) name A, A, T)"
| "fs_spec x (Create parent name) A T = spec_create True O_create (fe_random x) (ucast parent) name A T"
| "fs_spec x (Mknod parent name) A T = spec_create True O_entry (fe_random x) (ucast parent) name A T"
| "fs_spec x (Open ino) A T = (O_open, A, T)"
| "fs_spec x (Read ino sz off) A T =
     (case A (ucast ino) of Some (File b) \<Rightarrow> O_data (take (unat sz) (drop off b)) | _ \<Rightarrow> O_err E_NOENT, A, T)"
| "fs_spec x (Write ino buf sz off) A T =
     (case A (ucast ino) of
        Some (File b) \<Rightarrow> (O_written sz, A(ucast ino \<mapsto> File (splice off buf b)), T)
      | _ \<Rightarrow> (O_written 2, A, T))"
| "fs_spec x (Setattr ino sz to_set) A T =
     (if and (fe_set_size x) to_set = 0 then (O_err E_NOSYS, A, T)
      else (case A (ucast ino) of
          Some (File b) \<Rightarrow> let n = File (resize (unat (ucast sz :: u32)) b) in (O_attr (node_attr (ucast ino) n), A(ucast ino \<mapsto> n), T)
        | _ \<Rightarrow> (O_err E_NOENT, A, T)))"
| "fs_spec x (Unlink parent name) A T = spec_unlink (ucast parent) name A T"
| "fs_spec x (Mkdir parent name) A T = spec_create False O_entry (fe_random x) (ucast parent) name A T"

text \<open>What the kernel and the random numbers provide.\<close>

definition create_ok :: "bool \<Rightarrow> 'w fuse_env \<Rightarrow> u64 \<Rightarrow> string \<Rightarrow> fs \<Rightarrow> u64 set \<Rightarrow> bool" where
  "create_ok f x d name A T \<longleftrightarrow> isdir d \<and> d \<notin> T \<and> is_word name \<and> c_str name = name \<and> fe_random x < 2 ^ 31
     \<and> new_inum f (fe_random x) \<noteq> d \<and> A (new_inum f (fe_random x)) = None"

fun req_ok :: "'w fuse_env \<Rightarrow> request \<Rightarrow> fs \<Rightarrow> u64 set \<Rightarrow> bool" where
  "req_ok x (Getattr ino) A T \<longleftrightarrow> ucast ino \<notin> T"
| "req_ok x Statfs A T \<longleftrightarrow> True"
| "req_ok x (Readdir ino sz off) A T \<longleftrightarrow> ucast ino \<notin> T \<and> off < 2 ^ 32"
| "req_ok x (Lookup parent name) A T \<longleftrightarrow> isdir (ucast parent) \<and> ucast parent \<notin> T"
| "req_ok x (Create parent name) A T \<longleftrightarrow> create_ok True x (ucast parent) name A T"
| "req_ok x (Mknod parent name) A T \<longleftrightarrow> create_ok True x (ucast parent) name A T"
| "req_ok x (Open ino) A T \<longleftrightarrow> True"
| "req_ok x (Read ino sz off) A T \<longleftrightarrow> isfile (ucast ino) \<and> ucast ino \<notin> T"
| "req_ok x (Write ino buf sz off) A T \<longleftrightarrow> isfile (ucast ino) \<and> ucast ino \<notin> T \<and> length buf = unat sz"
| "req_ok x (Setattr ino sz to_set) A T \<longleftrightarrow> isfile (ucast ino) \<and> ucast ino \<notin> T"
| "req_ok x (Unlink parent name) A T \<longleftrightarrow> isdir (ucast parent) \<and> ucast parent \<notin> T"
| "req_ok x (Mkdir parent name) A T \<longleftrightarrow> create_ok False x (ucast parent) name A T"

text \<open>\<^verbatim>\<open>fuse_add_dirent\<close> writes as many bytes as \<^verbatim>\<open>fuse_dirent_size\<close> says.\<close>

definition env_ok :: "u32 \<Rightarrow> extent_server fuse_env \<Rightarrow> bool" where
  "env_ok g x \<longleftrightarrow> fe_rpc x = server_rpc g \<and> (\<forall>name st off. length (fe_add_dirent x name st off) = fe_dirent_size x (length name))"

text \<open>Directories name each file at most once; every name leads to a file or directory whose number fits 32 bits.\<close>

definition fs_wf :: "fs \<Rightarrow> bool" where
  "fs_wf A \<longleftrightarrow> (\<forall>i n. A i = Some n \<longrightarrow> (case n of File b \<Rightarrow> isfile i | Dir es \<Rightarrow> isdir i))
     \<and> (\<forall>d es. A d = Some (Dir es) \<longrightarrow> distinct (map snd es)
          \<and> (\<forall>(i, name) \<in> set es. A i \<noteq> None \<and> i < 2 ^ 32 \<and> c_str name = name))
     \<and> (\<forall>d d' es es' i name name'. A d = Some (Dir es) \<longrightarrow> (i, name) \<in> set es \<longrightarrow> A d' = Some (Dir es') \<longrightarrow> (i, name') \<in> set es' \<longrightarrow>
          d = d' \<and> name = name')"

lemma fs_wfD:
  assumes "fs_wf A" "A d = Some (Dir es)"
  shows "isdir d" "distinct (map snd es)"
    "(i, name) \<in> set es \<Longrightarrow> A i \<noteq> None \<and> i < 2 ^ 32 \<and> c_str name = name"
    "(i, name) \<in> set es \<Longrightarrow> A d' = Some (Dir es') \<Longrightarrow> (i, name') \<in> set es' \<Longrightarrow> d' = d \<and> name' = name"
  using assms unfolding fs_wf_def by fastforce+

lemma fs_wf_file: "fs_wf A \<Longrightarrow> A i = Some (File b) \<Longrightarrow> isfile i"
  unfolding fs_wf_def by fastforce

text \<open>A file changes.\<close>

lemma fs_wf_update:
  assumes "fs_wf A" "A i = Some (File b)"
  shows "fs_wf (A(i \<mapsto> File b'))"
proof -
  have "(A(i \<mapsto> File b')) d = Some (Dir es) \<longleftrightarrow> A d = Some (Dir es)" for d es using assms(2) by auto
  moreover have "(A(i \<mapsto> File b')) d \<noteq> None \<longleftrightarrow> A d \<noteq> None" for d using assms(2) by simp
  moreover have "case n of File b \<Rightarrow> isfile d | Dir es \<Rightarrow> isdir d" if "(A(i \<mapsto> File b')) d = Some n" for d n
    using that fs_wf_file [OF assms] assms(1) by (auto simp: fs_wf_def split: if_splits)
  ultimately show ?thesis using assms(1) unfolding fs_wf_def by presburger
qed

text \<open>A file or directory appears.\<close>

lemma fs_wf_create:
  assumes W: "fs_wf A" and d: "A d = Some (Dir es)" and i: "A i = None" "i < 2 ^ 32" "isfile i = f"
    and name: "name \<notin> snd ` set es" "c_str name = name"
  shows "fs_wf (A(d \<mapsto> Dir (es @ [(i, name)]), i \<mapsto> if f then File [] else Dir []))"
proof -
  let ?A = "A(d \<mapsto> Dir (es @ [(i, name)]), i \<mapsto> if f then File [] else Dir [])"
  have ne: "d \<noteq> i" using d i by auto
  have dir: "e = d \<and> es' = es @ [(i, name)] \<or> e = i \<and> es' = [] \<or> e \<noteq> d \<and> e \<noteq> i \<and> A e = Some (Dir es')" if "?A e = Some (Dir es')" for e es'
    using that by (auto split: if_splits)
  have old: "\<exists>es''. A e = Some (Dir es'') \<and> ((j, nm) \<in> set es'' \<or> e = d \<and> j = i \<and> nm = name)"
    if "?A e = Some (Dir es')" "(j, nm) \<in> set es'" for e es' j nm
    using dir [OF that(1)] that(2) d by auto
  have fresh: "(i, nm) \<notin> set es'" if "A e = Some (Dir es')" for e es' nm
    using fs_wfD(3) [OF W that] i(1) by blast
  show ?thesis unfolding fs_wf_def
  proof (intro conjI allI impI)
    fix e n assume e: "?A e = Some n"
    show "case n of File b \<Rightarrow> isfile e | Dir es \<Rightarrow> isdir e"
      using e W i(3) fs_wfD(1) [OF W d] by (auto simp: fs_wf_def isdir_def split: if_splits)
  next
    fix e es' assume e: "?A e = Some (Dir es')"
    show "distinct (map snd es')" using dir [OF e] fs_wfD(2) [OF W] d name(1) by auto
    show "\<forall>(j, nm) \<in> set es'. ?A j \<noteq> None \<and> j < 2 ^ 32 \<and> c_str nm = nm"
    proof (intro ballI, clarify)
      fix j nm assume j: "(j, nm) \<in> set es'"
      obtain es'' where "A e = Some (Dir es'')" "(j, nm) \<in> set es'' \<or> j = i \<and> nm = name" using old [OF e j] by blast
      then show "?A j \<noteq> None \<and> j < 2 ^ 32 \<and> c_str nm = nm" using fs_wfD(3) [OF W] i(2) name(2) by fastforce
    qed
  next
    fix e e' es1 es2 j n1 n2
    assume a: "?A e = Some (Dir es1)" "(j, n1) \<in> set es1" "?A e' = Some (Dir es2)" "(j, n2) \<in> set es2"
    have "e = e' \<and> n1 = n2" using old [OF a(1,2)] old [OF a(3,4)] fs_wfD(4) [OF W] fresh by metis
    then show "e = e'" "n1 = n2" by simp_all
  qed
qed

text \<open>A file disappears.\<close>

lemma fs_wf_remove:
  assumes W: "fs_wf A" and d: "A d = Some (Dir es)" and e: "(i, name) \<in> set es" "isfile i"
    and es': "es' = filter (\<lambda>e. snd e \<noteq> name \<or> isdir (fst e)) es"
  shows "fs_wf (A(i := None, d \<mapsto> Dir es'))"
proof -
  let ?A = "A(i := None, d \<mapsto> Dir es')"
  have ne: "d \<noteq> i" using fs_wfD(1) [OF W d] e(2) by (auto simp: isdir_def)
  have old: "\<exists>es1. A c = Some (Dir es1) \<and> (j, nm) \<in> set es1 \<and> j \<noteq> i" if a: "?A c = Some (Dir es2)" "(j, nm) \<in> set es2" for c es2 j nm
  proof -
    obtain es1 where es1: "A c = Some (Dir es1)" "(j, nm) \<in> set es1" "c = d \<longrightarrow> nm \<noteq> name \<or> isdir j"
      using a d es' by (auto split: if_splits)
    then have "j \<noteq> i" using fs_wfD(4) [OF W d e(1) es1(1)] e(2) by (auto simp: isdir_def)
    with es1 show ?thesis by blast
  qed
  show ?thesis unfolding fs_wf_def
  proof (intro conjI allI impI)
    fix c n assume c: "?A c = Some n"
    show "case n of File b \<Rightarrow> isfile c | Dir es \<Rightarrow> isdir c"
      using c W fs_wfD(1) [OF W d] by (auto simp: fs_wf_def split: if_splits)
  next
    fix c es2 assume c: "?A c = Some (Dir es2)"
    show "distinct (map snd es2)"
      using c fs_wfD(2) [OF W] d es' by (auto split: if_splits intro: distinct_map_filter)
    show "\<forall>(j, nm) \<in> set es2. ?A j \<noteq> None \<and> j < 2 ^ 32 \<and> c_str nm = nm"
      using old [OF c] fs_wfD(3) [OF W] by fastforce
  next
    fix c c' es1 es2 j n1 n2
    assume a: "?A c = Some (Dir es1)" "(j, n1) \<in> set es1" "?A c' = Some (Dir es2)" "(j, n2) \<in> set es2"
    have "c = c' \<and> n1 = n2" using old [OF a(1,2)] old [OF a(3,4)] fs_wfD(4) [OF W] by metis
    then show "c = c'" "n1 = n2" by simp_all
  qed
qed

lemma new_inum_small: "rnd < 2 ^ 31 \<Longrightarrow> new_inum f rnd < 2 ^ 32"
proof -
  assume "rnd < 2 ^ 31"
  then have "uint rnd < 2 ^ 32" by (simp add: word_less_def)
  then have "or (uint rnd) 0x80000000 < 2 ^ 32" "and (uint rnd) 0x7FFFFFFF < 2 ^ 32"
    using OR_upper [where x = "uint rnd" and n = 32 and y = "0x80000000"] AND_upper2 [where x = "uint rnd" and y = "0x7FFFFFFF"] by simp_all
  then show ?thesis by (auto simp: new_inum_def word_less_def unsigned_or_eq unsigned_and_eq)
qed

lemma isfile_new_inum: "isfile (new_inum f rnd) = f"
proof -
  have "and (or rnd 0x80000000) 0x80000000 = (0x80000000 :: u64)" by (simp add: bit.conj_disj_distrib2)
  then show ?thesis by (simp add: new_inum_def isfile_def and.assoc)
qed

lemma spec_create_wf:
  assumes "fs_wf A" "create_ok f x d name A T" "spec_create f mk (fe_random x) d name A T = (ob, A', T')"
  shows "fs_wf A'"
  using assms fs_wf_create [OF assms(1) _ _ new_inum_small isfile_new_inum, of d _ f "fe_random x" name]
  by (auto simp: spec_create_def create_ok_def Let_def split: option.splits fnode.splits if_splits)

lemma fs_spec_wf:
  assumes "fs_wf A" "req_ok x r A T" "fs_spec x r A T = (ob, A', T')"
  shows "fs_wf A'"
proof (cases r)
  case (Write ino buf sz off)
  then show ?thesis using assms by (auto split: option.splits fnode.splits intro: fs_wf_update)
next
  case (Setattr ino sz to_set)
  then show ?thesis using assms by (auto simp: Let_def split: option.splits fnode.splits if_splits intro: fs_wf_update)
next
  case (Unlink parent name)
  then show ?thesis using assms fs_wf_remove [OF assms(1) _ _ _ refl]
    by (auto simp: spec_unlink_def find_Some_iff split: option.splits fnode.splits)
qed (use assms in \<open>auto intro: spec_create_wf\<close>)

subsection \<open>The handlers implement it\<close>

definition node :: "u64 \<Rightarrow> string \<Rightarrow> fnode" where
  "node i b = (if isfile i then File b else Dir (dir_entries b))"

definition abs_fs :: "(u64 \<rightharpoonup> string) \<Rightarrow> fs" where
  "abs_fs V i = map_option (node i) (V i)"

lemma abs_fs_upd: "abs_fs (V(i \<mapsto> b)) = (abs_fs V)(i \<mapsto> node i b)" "abs_fs (V(i := None)) = (abs_fs V)(i := None)"
  by (simp_all add: abs_fs_def fun_eq_iff)

lemma abs_fs_Some:
  "abs_fs V i = Some (File b) \<longleftrightarrow> isfile i \<and> V i = Some b"
  "abs_fs V i = Some (Dir es) \<longleftrightarrow> isdir i \<and> (\<exists>t. V i = Some t \<and> dir_entries t = es)"
  "abs_fs V i = None \<longleftrightarrow> V i = None"
  by (auto simp: abs_fs_def node_def isdir_def)

text \<open>The state of the front end stands for the file system \<open>A\<close>.\<close>

definition fuse_sim :: "fs \<Rightarrow> u64 set \<Rightarrow> extent_server fuse \<Rightarrow> bool" where
  "fuse_sim A T f \<longleftrightarrow> (\<exists>V. es_wf (yf_net (fu_yfs f)) \<and> represents stored V T (fu_yfs f) \<and> A = abs_fs V)"

text \<open>A handler gives one reply, which is observed as the specification says.\<close>

definition step_ok :: "extent_server fuse \<Rightarrow> extent_server fuse \<Rightarrow> obs \<times> fs \<times> u64 set \<Rightarrow> bool" where
  "step_ok f f' s = (case s of (ob, A, T) \<Rightarrow> fuse_sim A T f' \<and> (\<exists>r. fu_replies f' = fu_replies f @ [r] \<and> observe r = ob))"

lemma step_okI:
  assumes "es_wf (yf_net y)" "represents stored V T y" "A = abs_fs V" "observe r = ob"
  shows "step_ok f (fuse_reply r y f) (ob, A, T)"
  using assms by (auto simp: step_ok_def fuse_sim_def fuse_reply_def)

lemma getattr_rep:
  assumes "es_wf (yf_net y)" "represents stored V T y" "i \<notin> T" "env_ok g x" "getattr x i y = (ret, st, y')"
  shows "es_wf (yf_net y') \<and> represents stored V T y'
     \<and> (case abs_fs V i of Some n \<Rightarrow> ret = yfs_OK \<and> stat_obs st = node_attr i n | None \<Rightarrow> ret \<noteq> yfs_OK)"
proof -
  have g: "fe_rpc x = server_rpc g" using assms(4) by (simp add: env_ok_def)
  show ?thesis
  proof (cases "isfile i")
    case True
    let ?f = "getfile (server_rpc g) (fe_env x) i \<lparr>fi_size = 0, fi_atime = 0, fi_mtime = 0, fi_ctime = 0\<rparr> y"
    obtain r info y1 where f: "?f = (r, info, y1)" by (cases ?f)
    then show ?thesis using getfile_rep [OF assms(1-3) f] True assms(5) g
      by (auto simp: getattr_def abs_fs_def node_def Let_def stat_obs_def stat_zero_def yfs_status split: option.splits if_splits)
  next
    case False
    let ?f = "getdir (server_rpc g) (fe_env x) i \<lparr>di_atime = 0, di_mtime = 0, di_ctime = 0\<rparr> y"
    obtain r info y1 where f: "?f = (r, info, y1)" by (cases ?f)
    then show ?thesis using getdir_rep [OF assms(1-3) f] False assms(5) g
      by (auto simp: getattr_def abs_fs_def node_def Let_def stat_obs_def stat_zero_def yfs_status split: option.splits if_splits)
  qed
qed

text \<open>The buffer of \<^verbatim>\<open>readdir\<close>\<close>

lemma length_listing:
  "env_ok g x \<Longrightarrow> c_str (snd e) = snd e \<Longrightarrow>
   dirbuf_add x \<lparr>db_p = p, db_size = length p\<rparr> (c_str (snd e)) (ucast (fst e))
     = \<lparr>db_p = p @ listing x (length p) [e], db_size = length (p @ listing x (length p) [e])\<rparr>"
  by (cases e) (simp add: dirbuf_add_def env_ok_def Let_def)

lemma listing_Cons: "env_ok g x \<Longrightarrow> listing x off (e # es) = listing x off [e] @ listing x (off + length (listing x off [e])) es"
  by (cases e) (simp add: env_ok_def Let_def)

lemma readdir_loop_words:
  assumes "env_ok g x" "\<forall>e \<in> set (map parse_entry (words t)). c_str (snd e) = snd e"
  shows "readdir_loop x (istream_of t) w \<lparr>db_p = p, db_size = length p\<rparr>
    = \<lparr>db_p = p @ listing x (length p) (map parse_entry (words t)),
       db_size = length (p @ listing x (length p) (map parse_entry (words t)))\<rparr>"
  using assms(2)
proof (induction "words t" arbitrary: t w p)
  case Nil
  then show ?case using extract_word_words [of t w] by (subst readdir_loop.simps) auto
next
  case (Cons v vs)
  obtain u where u: "words t = v # words u" "extract_word w (istream_of t) = (v, istream_of u)"
    using Cons.hyps(2) extract_word_words [of t w] by auto
  have vs: "vs = words u" using Cons.hyps(2) u(1) by simp
  have v: "c_str (snd (parse_entry v)) = snd (parse_entry v)" using Cons.prems u(1) by simp
  let ?p = "p @ listing x (length p) [parse_entry v]"
  have "readdir_loop x (istream_of t) w \<lparr>db_p = p, db_size = length p\<rparr> = readdir_loop x (istream_of u) v \<lparr>db_p = ?p, db_size = length ?p\<rparr>"
    using length_listing [OF assms(1) v, of p] by (subst readdir_loop.simps) (simp add: u split_beta Let_def)
  also have "\<dots> = \<lparr>db_p = ?p @ listing x (length ?p) (map parse_entry (words u)),
       db_size = length (?p @ listing x (length ?p) (map parse_entry (words u)))\<rparr>"
    using Cons.prems u(1) by (intro Cons.hyps(1) [OF vs]) simp
  also have "?p @ listing x (length ?p) (map parse_entry (words u)) = p @ listing x (length p) (map parse_entry (words t))"
    by (simp add: u(1) listing_Cons [OF assms(1), of "length p" "parse_entry v" "map parse_entry (words u)"] del: listing.simps)
  finally show ?case .
qed

lemma env_ok_rpc: "env_ok g x \<Longrightarrow> fe_rpc x = server_rpc g"
  by (simp add: env_ok_def)

lemma fuse_simE:
  assumes "fuse_sim A T f"
  obtains V where "es_wf (yf_net (fu_yfs f))" "represents stored V T (fu_yfs f)" "A = abs_fs V"
  using assms by (auto simp: fuse_sim_def)

lemma sim_getattr:
  assumes "fuse_sim A T f" "env_ok g x" "ucast ino \<notin> T"
  shows "step_ok f (fuseserver_getattr x ino f) (fs_spec x (Getattr ino) A T)"
proof -
  obtain V where V: "es_wf (yf_net (fu_yfs f))" "represents stored V T (fu_yfs f)" "A = abs_fs V"
    using assms(1) by (rule fuse_simE)
  obtain ret st y' where g: "getattr x (ucast ino) (fu_yfs f) = (ret, st, y')" by (cases "getattr x (ucast ino) (fu_yfs f)")
  show ?thesis using getattr_rep [OF V(1,2) assms(3,2) g] g V(3)
    by (auto simp: fuseserver_getattr_def Let_def split: option.splits intro!: step_okI)
qed

lemma sim_setattr:
  assumes "fuse_sim A T f" "env_ok g x" "ucast ino \<notin> T" "isfile (ucast ino)"
  shows "step_ok f (fuseserver_setattr x ino sz to_set f) (fs_spec x (Setattr ino sz to_set) A T)"
proof (cases "and (fe_set_size x) to_set = 0")
  case True
  then show ?thesis using assms(1) by (auto simp: fuseserver_setattr_def elim!: fuse_simE intro!: step_okI)
next
  case False
  obtain V where V: "es_wf (yf_net (fu_yfs f))" "represents stored V T (fu_yfs f)" "A = abs_fs V"
    using assms(1) by (rule fuse_simE)
  let ?i = "ucast ino :: u64"
  obtain ret y1 where p: "setsize (server_rpc g) (fe_env x) ?i (ucast sz) (fu_yfs f) = (ret, y1)"
    by (cases "setsize (server_rpc g) (fe_env x) ?i (ucast sz) (fu_yfs f)")
  note p' = setsize_rep [OF V(1,2) assms(3) p] and rpc = env_ok_rpc [OF assms(2)]
  obtain r2 st y2 where q: "getattr x ?i y1 = (r2, st, y2)" by (cases "getattr x ?i y1")
  show ?thesis
  proof (cases "V ?i")
    case None
    then have "A ?i = None" using V(3) by (simp add: abs_fs_def)
    then show ?thesis using p p' None False V(3) rpc
      by (auto simp: fuseserver_setattr_def Let_def yfs_status intro!: step_okI)
  next
    case (Some b)
    let ?V = "V(?i \<mapsto> resize (unat (ucast sz :: u32)) b)"
    have y1: "ret = yfs_OK" "es_wf (yf_net y1)" "represents stored ?V T y1" using p' Some by simp_all
    have A: "A ?i = Some (File b)" "abs_fs ?V = A(?i \<mapsto> File (resize (unat (ucast sz :: u32)) b))"
      using V(3) Some assms(4) by (simp_all add: abs_fs_upd abs_fs_Some node_def)
    then have "r2 = yfs_OK" "stat_obs st = node_attr ?i (File (resize (unat (ucast sz :: u32)) b))" "es_wf (yf_net y2)" "represents stored ?V T y2"
      using getattr_rep [OF y1(2,3) assms(3,2) q] by simp_all
    then show ?thesis using p q y1(1) A False rpc
      by (auto simp: fuseserver_setattr_def Let_def intro!: step_okI)
  qed
qed

lemma sim_read:
  assumes "fuse_sim A T f" "env_ok g x" "ucast ino \<notin> T" "isfile (ucast ino)"
  shows "step_ok f (fuseserver_read x ino sz off f) (fs_spec x (Read ino sz off) A T)"
proof -
  obtain V where V: "es_wf (yf_net (fu_yfs f))" "represents stored V T (fu_yfs f)" "A = abs_fs V"
    using assms(1) by (rule fuse_simE)
  obtain ret buf y' where g: "yfs_read (server_rpc g) (fe_env x) (ucast ino) sz off [] (fu_yfs f) = (ret, buf, y')"
    by (cases "yfs_read (server_rpc g) (fe_env x) (ucast ino) sz off [] (fu_yfs f)")
  show ?thesis using yfs_read_rep [OF V(1,2) assms(3) g] g V(3) assms(4) env_ok_rpc [OF assms(2)]
    by (auto simp: fuseserver_read_def abs_fs_def node_def yfs_status split: option.splits intro!: step_okI)
qed

lemma sim_write:
  assumes "fuse_sim A T f" "env_ok g x" "ucast ino \<notin> T" "isfile (ucast ino)" "length buf = unat sz"
  shows "step_ok f (fuseserver_write x ino buf sz off f) (fs_spec x (Write ino buf sz off) A T)"
proof -
  obtain V where V: "es_wf (yf_net (fu_yfs f))" "represents stored V T (fu_yfs f)" "A = abs_fs V"
    using assms(1) by (rule fuse_simE)
  obtain ret y' where g: "yfs_write (server_rpc g) (fe_env x) (ucast ino) sz off buf (fu_yfs f) = (ret, y')"
    by (cases "yfs_write (server_rpc g) (fe_env x) (ucast ino) sz off buf (fu_yfs f)")
  note w = yfs_write_rep [OF V(1,2) assms(3,5) g] and rpc = env_ok_rpc [OF assms(2)]
  show ?thesis
  proof (cases "V (ucast ino)")
    case None
    then have "A (ucast ino) = None" using V(3) by (simp add: abs_fs_def)
    then show ?thesis using w g None V(3) rpc by (auto simp: fuseserver_write_def yfs_status E_NOENT_def intro!: step_okI)
  next
    case (Some b)
    then have "A (ucast ino) = Some (File b)" "abs_fs (V(ucast ino \<mapsto> splice off buf b)) = A(ucast ino \<mapsto> File (splice off buf b))"
      using V(3) assms(4) by (simp_all add: abs_fs_upd abs_fs_Some node_def)
    then show ?thesis using w g Some rpc by (auto simp: fuseserver_write_def intro!: step_okI)
  qed
qed

text \<open>Creation: the result of a helper\<close>

definition create_post :: "bool \<Rightarrow> 'w fuse_env \<Rightarrow> u64 \<Rightarrow> string \<Rightarrow> fs \<Rightarrow> u64 set \<Rightarrow> int \<times> fuse_entry_param \<times> extent_server yfs \<Rightarrow> bool" where
  "create_post f x d name A T r = (case r of (ret, e, y) \<Rightarrow> \<forall>mk ob A' T'.
     spec_create f mk (fe_random x) d name A T = (ob, A', T') \<longrightarrow>
       (\<exists>V'. es_wf (yf_net y) \<and> represents stored V' T' y \<and> A' = abs_fs V')
     \<and> ob = (if ret = yfs_OK then mk (entry_obs e) else if ret = yfs_EXIST then O_err E_EXIST else O_err E_NOENT))"

lemma names_c_str:
  assumes "fs_wf (abs_fs V)" "isdir d" "V d = Some t"
  shows "\<forall>e \<in> set (dir_entries t). c_str (snd e) = snd e" "distinct (map snd (dir_entries t))"
proof -
  have d: "abs_fs V d = Some (Dir (dir_entries t))" using assms(2,3) by (simp add: abs_fs_Some)
  show "\<forall>e \<in> set (dir_entries t). c_str (snd e) = snd e" using fs_wfD(3) [OF assms(1) d] by fastforce
  show "distinct (map snd (dir_entries t))" using fs_wfD(2) [OF assms(1) d] .
qed

lemma createfile_post:
  assumes W: "fs_wf (abs_fs V)" and r: "es_wf (yf_net y)" "represents stored V T y" and x: "env_ok g x" and ok: "create_ok f x d name (abs_fs V) T"
    and c: "createfile (server_rpc g) (fe_env x) (fe_random x) d f name y = (ret, i, y1)" and a: "getattr x i y1 = (ret2, st, y2)"
    and e: "e_generation e = 0" "e_attr_timeout e = 0" "e_entry_timeout e = 0"
  shows "create_post f x d name (abs_fs V) T (if ret \<noteq> yfs_OK then (ret, e, y1)
     else if ret2 \<noteq> yfs_OK then (yfs_IOERR, e, y2) else (yfs_OK, e\<lparr>e_ino := ucast i, e_attr := st\<rparr>, y2))"
proof -
  have ok': "isdir d" "d \<notin> T" "is_word name" "new_inum f (fe_random x) \<noteq> d" using ok by (simp_all add: create_ok_def)
  note c = createfile_rep [OF r ok'(2,3) c]
  show ?thesis
  proof (cases "V d")
    case None
    then show ?thesis using c by (auto simp: create_post_def spec_create_def abs_fs_def yfs_status)
  next
    case (Some t)
    then have d: "abs_fs V d = Some (Dir (dir_entries t))" using ok'(1) by (simp add: abs_fs_Some)
    have ex: "(\<exists>e \<in> set (dir_entries t). c_str (snd e) = name) \<longleftrightarrow> name \<in> snd ` set (dir_entries t)"
      using names_c_str(1) [OF W ok'(1) Some] by force
    show ?thesis
    proof (cases "name \<in> snd ` set (dir_entries t)")
      case True
      then show ?thesis using c Some d ex by (auto simp: create_post_def spec_create_def yfs_status)
    next
      case False
      then obtain t' where t: "ret = yfs_OK" "i = new_inum f (fe_random x)" "dir_entries t' = dir_entries t @ [(i, name)]"
        "represents stored (V(d \<mapsto> t', i \<mapsto> [])) (T - {d, i}) y1" "es_wf (yf_net y1)" using c Some ex by auto
      let ?V = "V(d \<mapsto> t', i \<mapsto> [])" and ?n = "if f then File [] else Dir []"
      have f: "isfile i = f" using isfile_new_inum t(2) by simp
      then have A: "abs_fs ?V = (abs_fs V)(d \<mapsto> Dir (dir_entries t @ [(i, name)]), i \<mapsto> ?n)"
        using ok'(1) t(3) by (auto simp: abs_fs_upd node_def isdir_def dir_entries_def)
      have "ret2 = yfs_OK" "stat_obs st = node_attr i ?n" "es_wf (yf_net y2)" "represents stored ?V (T - {d, i}) y2"
        using getattr_rep [OF t(5,4) _ x a] A by simp_all
      then show ?thesis using t(1,2) d False A e by (auto simp: create_post_def spec_create_def node_entry_def entry_obs_def Let_def)
    qed
  qed
qed

lemma createhelper_post:
  assumes "fs_wf (abs_fs V)" "es_wf (yf_net y)" "represents stored V T y" "env_ok g x" "create_ok True x (ucast parent) name (abs_fs V) T"
  shows "create_post True x (ucast parent) name (abs_fs V) T (fuseserver_createhelper x parent name e y)"
proof -
  let ?c = "createfile (server_rpc g) (fe_env x) (fe_random x) (ucast parent) True name y"
  obtain ret i y1 where c: "?c = (ret, i, y1)" by (cases ?c)
  obtain ret2 st y2 where a: "getattr x i y1 = (ret2, st, y2)" by (cases "getattr x i y1")
  show ?thesis using createfile_post [OF assms c a, of "e\<lparr>e_attr_timeout := 0, e_entry_timeout := 0, e_generation := 0\<rparr>"] c a
    by (auto simp: fuseserver_createhelper_def env_ok_rpc [OF assms(4)] Let_def split: if_splits)
qed

lemma createdirhelper_post:
  assumes "fs_wf (abs_fs V)" "es_wf (yf_net y)" "represents stored V T y" "env_ok g x" "create_ok False x (ucast parent) name (abs_fs V) T"
  shows "create_post False x (ucast parent) name (abs_fs V) T (fuseserver_createdirhelper x parent name e y)"
proof -
  let ?c = "createfile (server_rpc g) (fe_env x) (fe_random x) (ucast parent) False name y"
  obtain ret i y1 where c: "?c = (ret, i, y1)" by (cases ?c)
  obtain ret2 st y2 where a: "getattr x i y1 = (ret2, st, y2)" by (cases "getattr x i y1")
  show ?thesis using createfile_post [OF assms c a, of "e\<lparr>e_attr_timeout := 0, e_entry_timeout := 0, e_generation := 0\<rparr>"] c a
    by (auto simp: fuseserver_createdirhelper_def env_ok_rpc [OF assms(4)] Let_def split: if_splits)
qed

lemma create_reply:
  assumes "create_post fl x d name A T (ret, e, y)" "observe (mk e) = mk' (entry_obs e)"
  shows "step_ok f (if ret = yfs_OK then fuse_reply (mk e) y f else if ret = yfs_EXIST then fuse_reply (Reply_err E_EXIST) y f
       else fuse_reply (Reply_err E_NOENT) y f) (spec_create fl mk' (fe_random x) d name A T)"
proof -
  obtain ob A' T' where s: "spec_create fl mk' (fe_random x) d name A T = (ob, A', T')"
    by (cases "spec_create fl mk' (fe_random x) d name A T")
  obtain V' where "es_wf (yf_net y)" "represents stored V' T' y" "A' = abs_fs V'"
    "ob = (if ret = yfs_OK then mk' (entry_obs e) else if ret = yfs_EXIST then O_err E_EXIST else O_err E_NOENT)"
    using assms(1) s unfolding create_post_def by blast
  then show ?thesis using s assms(2) by (auto intro!: step_okI)
qed

lemma sim_create:
  assumes "fuse_sim A T f" "fs_wf A" "env_ok g x" "create_ok True x (ucast parent) name A T"
  shows "step_ok f (fuseserver_create x parent name f) (fs_spec x (Create parent name) A T)"
    "step_ok f (fuseserver_mknod x parent name f) (fs_spec x (Mknod parent name) A T)"
proof -
  obtain V where V: "es_wf (yf_net (fu_yfs f))" "represents stored V T (fu_yfs f)" "A = abs_fs V"
    using assms(1) by (rule fuse_simE)
  obtain ret e y where c: "fuseserver_createhelper x parent name (fe_e x) (fu_yfs f) = (ret, e, y)"
    by (cases "fuseserver_createhelper x parent name (fe_e x) (fu_yfs f)")
  have p: "create_post True x (ucast parent) name A T (ret, e, y)"
    using createhelper_post [OF _ V(1,2) assms(3)] assms(2,4) V(3) c by metis
  show "step_ok f (fuseserver_create x parent name f) (fs_spec x (Create parent name) A T)"
    using create_reply [OF p, of Reply_create O_create f] c by (simp add: fuseserver_create_def)
  show "step_ok f (fuseserver_mknod x parent name f) (fs_spec x (Mknod parent name) A T)"
    using create_reply [OF p, of Reply_entry O_entry f] c by (simp add: fuseserver_mknod_def)
qed

lemma sim_mkdir:
  assumes "fuse_sim A T f" "fs_wf A" "env_ok g x" "create_ok False x (ucast parent) name A T"
  shows "step_ok f (fuseserver_mkdir x parent name f) (fs_spec x (Mkdir parent name) A T)"
proof -
  obtain V where V: "es_wf (yf_net (fu_yfs f))" "represents stored V T (fu_yfs f)" "A = abs_fs V"
    using assms(1) by (rule fuse_simE)
  obtain ret e y where c: "fuseserver_createdirhelper x parent name (fe_e x) (fu_yfs f) = (ret, e, y)"
    by (cases "fuseserver_createdirhelper x parent name (fe_e x) (fu_yfs f)")
  have p: "create_post False x (ucast parent) name A T (ret, e, y)"
    using createdirhelper_post [OF _ V(1,2) assms(3)] assms(2,4) V(3) c by metis
  show ?thesis using create_reply [OF p, of Reply_entry O_entry f] c by (simp add: fuseserver_mkdir_def)
qed

lemma represents_removed: "represents content V T y \<Longrightarrow> e \<in> T \<Longrightarrow> V e = None"
  unfolding represents_def cache_inv_def by (drule spec [of _ e]) (auto split: option.splits)

lemma find_c_str: "\<forall>e \<in> set es. c_str (snd e) = snd e \<Longrightarrow> find (\<lambda>e. c_str (snd e) = name) es = find (\<lambda>e. snd e = name) es"
  by (intro find_cong) auto

lemma sim_lookup:
  assumes "fuse_sim A T f" "fs_wf A" "env_ok g x" "isdir (ucast parent)" "ucast parent \<notin> T"
  shows "step_ok f (fuseserver_lookup x parent name f) (fs_spec x (Lookup parent name) A T)"
proof -
  obtain V where V: "es_wf (yf_net (fu_yfs f))" "represents stored V T (fu_yfs f)" "A = abs_fs V"
    using assms(1) by (rule fuse_simE)
  have W: "fs_wf (abs_fs V)" using assms(2) V(3) by simp
  let ?d = "ucast parent :: u64" and ?l = "lookupfile (server_rpc g) (fe_env x) (ucast parent) name 0 (fu_yfs f)"
  obtain ret i y1 where l: "?l = (ret, i, y1)" by (cases ?l)
  note l' = lookupfile_rep [OF V(1,2) assms(5) l] and rpc = env_ok_rpc [OF assms(3)]
  show ?thesis
  proof (cases "V ?d")
    case None
    then show ?thesis using l l' V(3) rpc
      by (auto simp: fuseserver_lookup_def spec_lookup_def abs_fs_def yfs_status intro!: step_okI)
  next
    case (Some t)
    then have d: "A ?d = Some (Dir (dir_entries t))" using V(3) assms(4) by (simp add: abs_fs_Some)
    have f: "find (\<lambda>e. c_str (snd e) = name) (dir_entries t) = find (\<lambda>e. snd e = name) (dir_entries t)"
      using names_c_str(1) [OF W assms(4) Some] by (intro find_c_str) simp
    show ?thesis
    proof (cases "find (\<lambda>e. snd e = name) (dir_entries t)")
      case None
      then show ?thesis using l l' f d Some V(3) rpc
        by (auto simp: fuseserver_lookup_def spec_lookup_def yfs_status intro!: step_okI)
    next
      case e: (Some e)
      then have "e \<in> set (dir_entries t)" by (auto simp: find_Some_iff)
      then obtain n where n: "A (fst e) = Some n" using fs_wfD(3) [OF assms(2) d, of "fst e" "snd e"] by auto
      then have "fst e \<notin> T" using represents_removed [OF V(2)] V(3) by (auto simp: abs_fs_def)
      moreover have r: "ret = yfs_EXIST" "i = fst e" "es_wf (yf_net y1)" "represents stored V T y1" using l' Some f e by simp_all
      moreover obtain r2 st y2 where a: "getattr x i y1 = (r2, st, y2)" by (cases "getattr x i y1")
      ultimately have "r2 = yfs_OK" "stat_obs st = node_attr i n" "es_wf (yf_net y2)" "represents stored V T y2"
        using getattr_rep [OF r(3,4) _ assms(3) a] n V(3) by simp_all
      then show ?thesis using l r(1,2) a d e n V(3) rpc
        by (auto simp: fuseserver_lookup_def spec_lookup_def node_entry_def entry_obs_def intro!: step_okI)
    qed
  qed
qed

lemma sim_readdir:
  assumes "fuse_sim A T f" "fs_wf A" "env_ok g x" "ucast ino \<notin> T" "off < 2 ^ 32"
  shows "\<exists>f'. fuseserver_readdir x ino sz off f = Inr f' \<and> step_ok f f' (fs_spec x (Readdir ino sz off) A T)"
proof -
  obtain V where V: "es_wf (yf_net (fu_yfs f))" "represents stored V T (fu_yfs f)" "A = abs_fs V"
    using assms(1) by (rule fuse_simE)
  have W: "fs_wf (abs_fs V)" using assms(2) V(3) by simp
  let ?d = "ucast ino :: u64" and ?l = "getcontent (server_rpc g) (fe_env x) (ucast ino) [] (fu_yfs f)"
  obtain ret buf y1 where l: "?l = (ret, buf, y1)" by (cases ?l)
  note l' = getcontent_rep [OF V(1,2) assms(4) l] and rpc = env_ok_rpc [OF assms(3)]
  have NF: "yfs_NOENT \<noteq> yfs_OK" by (simp add: yfs_status)
  show ?thesis
  proof (cases "isfile ?d")
    case True
    then show ?thesis using V by (auto simp: fuseserver_readdir_def isdir_def intro!: step_okI)
  next
    case False
    then have d: "isdir ?d" by (simp add: isdir_def)
    show ?thesis
    proof (cases "V ?d")
      case None
      then show ?thesis using l l' V(3) rpc d False NF by (auto simp: fuseserver_readdir_def abs_fs_def intro!: step_okI)
    next
      case (Some t)
      then have A: "A ?d = Some (Dir (dir_entries t))" using V(3) d by (simp add: abs_fs_Some)
      have "\<forall>e \<in> set (map parse_entry (words t)). c_str (snd e) = snd e"
        using names_c_str(1) [OF W d Some] by (simp add: dir_entries_def)
      note b = readdir_loop_words [OF assms(3) this, of "[]" "[]", simplified, folded dir_entries_def]
      have "reply_buf_limited p (length p) off m = Inr (take m (drop off p))" for p m
        using assms(5) by (simp add: reply_buf_limited_def)
      then show ?thesis using l l' Some b d False A V(3) rpc
        by (auto simp: fuseserver_readdir_def intro!: step_okI)
    qed
  qed
qed

lemma filter_unique:
  assumes "distinct (map snd es)"
  shows "filter (\<lambda>e. snd e = name \<and> P e) es = (case find (\<lambda>e. snd e = name \<and> P e) es of None \<Rightarrow> [] | Some e \<Rightarrow> [e])"
  using assms
proof (induction es)
  case (Cons e es)
  have "filter (\<lambda>e. snd e = name \<and> P e) es = []" if "snd e = name"
    using Cons.prems that by (auto simp: filter_empty_conv image_iff)
  then show ?case using Cons by auto
qed simp

lemma sim_unlink:
  assumes "fuse_sim A T f" "fs_wf A" "env_ok g x" "isdir (ucast parent)" "ucast parent \<notin> T"
  shows "step_ok f (fuseserver_unlink x parent name f) (fs_spec x (Unlink parent name) A T)"
proof -
  obtain V where V: "es_wf (yf_net (fu_yfs f))" "represents stored V T (fu_yfs f)" "A = abs_fs V"
    using assms(1) by (rule fuse_simE)
  have W: "fs_wf (abs_fs V)" using assms(2) V(3) by simp
  let ?d = "ucast parent :: u64" and ?l = "unlink (server_rpc g) (fe_env x) (ucast parent) name (fu_yfs f)"
  obtain ret y1 where l: "?l = (ret, y1)" by (cases ?l)
  note l' = unlink_rep [OF V(1,2) assms(4,5) l] and rpc = env_ok_rpc [OF assms(3)]
  have NF: "yfs_NOENT \<noteq> yfs_OK" by (simp add: yfs_status)
  show ?thesis
  proof (cases "V ?d")
    case None
    then show ?thesis using l l' V(3) rpc NF by (auto simp: fuseserver_unlink_def spec_unlink_def abs_fs_def intro!: step_okI)
  next
    case (Some t)
    let ?es = "dir_entries t"
    have d: "A ?d = Some (Dir ?es)" using V(3) assms(4) Some by (simp add: abs_fs_Some)
    note nm = names_c_str [OF W assms(4) Some]
    have "filter (\<lambda>e. c_str (snd e) = name \<and> isfile (fst e)) ?es = filter (\<lambda>e. snd e = name \<and> isfile (fst e)) ?es"
      using nm(1) by (intro filter_cong) auto
    note gone = this [unfolded filter_unique [OF nm(2)]]
    have keep: "filter (\<lambda>e. c_str (snd e) \<noteq> name \<or> isdir (fst e)) ?es = filter (\<lambda>e. snd e \<noteq> name \<or> isdir (fst e)) ?es"
      using nm(1) by (intro filter_cong) auto
    show ?thesis
    proof (cases "find (\<lambda>e. snd e = name \<and> isfile (fst e)) ?es")
      case None
      then show ?thesis using l l' gone Some d V(3) rpc NF
        by (auto simp: fuseserver_unlink_def spec_unlink_def intro!: step_okI)
    next
      case e: (Some e)
      obtain t' where t: "ret = yfs_OK" "es_wf (yf_net y1)" "dir_entries t' = filter (\<lambda>e. snd e \<noteq> name \<or> isdir (fst e)) ?es"
        "represents stored (V(fst e := None, ?d \<mapsto> t')) (insert (fst e) T - {?d}) y1"
        using l' gone [unfolded e option.case] Some keep by (auto simp: Let_def)
      have "abs_fs (V(fst e := None, ?d \<mapsto> t')) = A(fst e := None, ?d \<mapsto> Dir (filter (\<lambda>e. snd e \<noteq> name \<or> isdir (fst e)) ?es))"
        using V(3) assms(4) t(3) by (simp add: abs_fs_upd node_def isdir_def)
      then show ?thesis using l t e d rpc by (auto simp: fuseserver_unlink_def spec_unlink_def intro!: step_okI)
    qed
  qed
qed

lemma fuseserver_oper_sim:
  assumes "fuse_sim A T f" "fs_wf A" "env_ok g x" "req_ok x r A T"
  shows "\<exists>f'. fuseserver_oper x r f = Inr f' \<and> step_ok f f' (fs_spec x r A T)"
proof -
  have idle: "step_ok f (fuse_reply r (fu_yfs f) f) (observe r, A, T)" for r
    using assms(1) by (auto elim!: fuse_simE intro!: step_okI)
  show ?thesis
    using assms(4) sim_getattr [OF assms(1,3)] sim_setattr [OF assms(1,3)] sim_read [OF assms(1,3)] sim_write [OF assms(1,3)]
      sim_create [OF assms(1-3)] sim_mkdir [OF assms(1-3)] sim_lookup [OF assms(1-3)] sim_readdir [OF assms(1-3)]
      sim_unlink [OF assms(1-3)] idle [of "Reply_statfs \<lparr>f_namemax = 255, f_bsize = 512\<rparr>"] idle [of Reply_open]
    by (cases r) (simp_all add: fuseserver_open_def fuseserver_statfs_def del: fs_spec.simps(1,3-6,8-12))
qed

subsection \<open>Properties\<close>

fun spec_session :: "('w fuse_env \<times> request) list \<Rightarrow> fs \<Rightarrow> u64 set \<Rightarrow> obs list \<times> fs \<times> u64 set" where
  "spec_session [] A T = ([], A, T)"
| "spec_session ((x, r) # rs) A T = (let (ob, A, T) = fs_spec x r A T; (obs, s) = spec_session rs A T in (ob # obs, s))"

fun session_ok :: "u32 \<Rightarrow> (extent_server fuse_env \<times> request) list \<Rightarrow> fs \<Rightarrow> u64 set \<Rightarrow> bool" where
  "session_ok g [] A T = True"
| "session_ok g ((x, r) # rs) A T \<longleftrightarrow> env_ok g x \<and> req_ok x r A T \<and> (case fs_spec x r A T of (_, A, T) \<Rightarrow> session_ok g rs A T)"

lemma session_sim:
  assumes "fuse_sim A T f" "fs_wf A" "session_ok g rs A T" "spec_session rs A T = (obs, A', T')"
  shows "\<exists>f' ps. fuse_session rs f = Inr f' \<and> fu_replies f' = fu_replies f @ ps \<and> map observe ps = obs \<and> fuse_sim A' T' f' \<and> fs_wf A'"
  using assms
proof (induction rs arbitrary: A T f obs)
  case (Cons e rs)
  obtain x r where e: "e = (x, r)" by fastforce
  obtain ob A1 T1 where s: "fs_spec x r A T = (ob, A1, T1)" by (cases "fs_spec x r A T")
  have ok: "env_ok g x" "req_ok x r A T" "session_ok g rs A1 T1" using Cons.prems(3) e s by simp_all
  obtain obs1 where o: "spec_session rs A1 T1 = (obs1, A', T')" "obs = ob # obs1"
    using Cons.prems(4) e s by (auto simp: split: prod.splits)
  obtain f1 p where f1: "fuseserver_oper x r f = Inr f1" "fuse_sim A1 T1 f1" "fu_replies f1 = fu_replies f @ [p]" "observe p = ob"
    using fuseserver_oper_sim [OF Cons.prems(1,2) ok(1,2)] s by (auto simp: step_ok_def)
  obtain f' ps where "fuse_session rs f1 = Inr f'" "fu_replies f' = fu_replies f1 @ ps" "map observe ps = obs1" "fuse_sim A' T' f'" "fs_wf A'"
    using Cons.IH [OF f1(2) fs_spec_wf [OF Cons.prems(2) ok(2) s] ok(3) o(1)] by blast
  then show ?case using e f1 o(2) by (intro exI [of _ f'] exI [of _ "p # ps"]) simp
qed auto


text \<open>A new file system: the constructors of the extent server and of the extent client\<close>

definition fuse_new :: "extent_server fuse" where
  "fuse_new = \<lparr>fu_yfs = \<lparr>yf_ec = ec_new, yf_net = es_new, yf_trace = []\<rparr>, fu_replies = []\<rparr>"

definition fs_new :: fs where
  "fs_new = [1 \<mapsto> Dir []]"

lemma fuse_sim_new: "fuse_sim fs_new {} fuse_new"
proof -
  have "represents stored (stored es_new) {} (fu_yfs fuse_new)"
    using represents_empty_cache [of "fu_yfs fuse_new" stored] by (simp add: fuse_new_def)
  moreover have "fs_new = abs_fs (stored es_new)"
    by (auto simp: fs_new_def abs_fs_def es_new_def node_def isfile_def dir_entries_def fun_eq_iff)
  ultimately show ?thesis using es_wf_new by (auto simp: fuse_sim_def fuse_new_def)
qed

lemma fs_wf_new: "fs_wf fs_new"
  by (auto simp: fs_wf_def fs_new_def isdir_def isfile_def split: if_splits)

definition sample_fuse_env :: "extent_server fuse_env" where
  "sample_fuse_env = \<lparr>fe_rpc = server_rpc 0, fe_env = sample_env, fe_random = 5,
     fe_e = \<lparr>e_ino = 9, e_generation = 9, e_attr = stat_zero, e_attr_timeout = 9, e_entry_timeout = 9\<rparr>, fe_set_size = 8,
     fe_dirent_size = \<lambda>n. n, fe_add_dirent = \<lambda>name st off. name\<rparr>"

definition sample_requests :: "(extent_server fuse_env \<times> request) list" where
  "sample_requests = map (Pair sample_fuse_env) [Mknod 1 ''a'', Write 2147483653 ''hi'' 2 1, Read 2147483653 9 0, Readdir 1 9 0,
     Unlink 1 ''a'', Lookup 1 ''a'']"

lemma sample_new_inum: "new_inum True 5 = 2147483653" by (simp add: new_inum_def)

lemma sample_requests_ok: "session_ok 0 sample_requests fs_new {}"
  by (simp add: sample_requests_def sample_fuse_env_def env_ok_def fs_new_def create_ok_def isdir_def isfile_def is_word_def is_space_def
    c_str_def sample_new_inum spec_create_def Let_def spec_unlink_def)

lemma sample_requests_spec:
  "spec_session sample_requests fs_new {} = ([O_entry (2147483653, (2147483653, or S_IFREG 438, 1, 0), 0, 0, 0), O_written 2,
     O_data [CHR 0x00, CHR ''h'', CHR ''i''], O_data ''a'', O_err 0, O_err E_NOENT], fs_new, {2147483653})"
  by (simp add: sample_requests_def sample_fuse_env_def fs_new_def sample_new_inum spec_create_def spec_unlink_def spec_lookup_def
    node_entry_def splice_def isfile_def isdir_def fun_upd_twist)


text \<open>(C14) The tree of directories stays well-formed: after any such sequence of requests to a new file system, no directory has two entries
  with one name, every entry leads to an extent that exists, its number survives the passage through the 32-bit numbers of FUSE,
  and no number is named twice.\<close>

theorem directories_well_formed:
  assumes "session_ok g rs fs_new {}"
  shows "\<exists>f' V T. fuse_session rs fuse_new = Inr f' \<and> represents stored V T (fu_yfs f') \<and>
     (\<forall>d t. isdir d \<longrightarrow> V d = Some t \<longrightarrow> distinct (map snd (dir_entries t)) \<and>
        (\<forall>(i, name) \<in> set (dir_entries t). V i \<noteq> None \<and> ucast (ucast i :: u32) = i \<and>
           (\<forall>d' t' name'. isdir d' \<longrightarrow> V d' = Some t' \<longrightarrow> (i, name') \<in> set (dir_entries t') \<longrightarrow> d' = d \<and> name' = name)))"
proof -
  obtain obs A T where s: "spec_session rs fs_new {} = (obs, A, T)" by (cases "spec_session rs fs_new {}")
  obtain f' where f': "fuse_session rs fuse_new = Inr f'" "fuse_sim A T f'" "fs_wf A"
    using session_sim [OF fuse_sim_new fs_wf_new assms s] by blast
  obtain V where V: "represents stored V T (fu_yfs f')" "A = abs_fs V" using f'(2) by (rule fuse_simE)
  have small: "ucast (ucast i :: u32) = i" if "i < 2 ^ 32" for i :: u64
    using that by (intro word_uint_eqI) (simp add: unsigned_ucast_eq unsigned_take_bit_eq take_bit_int_eq_self word_less_def)
  have dir: "A d = Some (Dir (dir_entries t))" if "isdir d" "V d = Some t" for d t using that V(2) by (simp add: abs_fs_Some)
  have "distinct (map snd (dir_entries t))" if "isdir d" "V d = Some t" for d t using fs_wfD(2) [OF f'(3) dir [OF that]] .
  moreover have "V i \<noteq> None \<and> ucast (ucast i :: u32) = i" if "isdir d" "V d = Some t" "(i, name) \<in> set (dir_entries t)" for d t i name
    using fs_wfD(3) [OF f'(3) dir [OF that(1,2)] that(3)] V(2) small by (auto simp: abs_fs_def)
  moreover have unique: "d' = d \<and> name' = name" if "isdir d" "V d = Some t" "(i, name) \<in> set (dir_entries t)" "isdir d'" "V d' = Some t'"
    "(i, name') \<in> set (dir_entries t')" for d t i name d' t' name'
    using fs_wfD(4) [OF f'(3) dir [OF that(1,2)] that(3) dir [OF that(4,5)] that(6)] .
  ultimately have "distinct (map snd (dir_entries t)) \<and>
        (\<forall>(i, name) \<in> set (dir_entries t). V i \<noteq> None \<and> ucast (ucast i :: u32) = i \<and>
           (\<forall>d' t' name'. isdir d' \<longrightarrow> V d' = Some t' \<longrightarrow> (i, name') \<in> set (dir_entries t') \<longrightarrow> d' = d \<and> name' = name))"
    if "isdir d" "V d = Some t" for d t using that by blast
  then show ?thesis using f'(1) V(1) by blast
qed

theorem directories_well_formed_witness:
  "\<exists>f' V T. fuse_session sample_requests fuse_new = Inr f' \<and> represents stored V T (fu_yfs f') \<and>
     (\<forall>d t. isdir d \<longrightarrow> V d = Some t \<longrightarrow> distinct (map snd (dir_entries t)))"
  using directories_well_formed [OF sample_requests_ok] by blast

text \<open>(C39) A write to a file that does not exist is reported as a success: the handler answers with a count of two bytes written (the
  value of \<^verbatim>\<open>ENOENT\<close>, passed to \<^verbatim>\<open>fuse_reply_write\<close>), although nothing is written.\<close>

theorem failed_write_counted:
  assumes "es_wf (yf_net (fu_yfs f))" "represents stored V T (fu_yfs f)" "ucast ino \<notin> T" "V (ucast ino) = None"
    and "fe_rpc x = server_rpc g" "length buf = unat sz"
  shows "fu_replies (fuseserver_write x ino buf sz off f) = fu_replies f @ [Reply_write 2]
     \<and> represents stored V T (fu_yfs (fuseserver_write x ino buf sz off f))"
proof -
  obtain ret y' where g: "yfs_write (server_rpc g) (fe_env x) (ucast ino) sz off buf (fu_yfs f) = (ret, y')"
    by (cases "yfs_write (server_rpc g) (fe_env x) (ucast ino) sz off buf (fu_yfs f)")
  then show ?thesis using yfs_write_rep [OF assms(1-3,6) g] assms(4,5)
    by (simp add: fuseserver_write_def yfs_status fuse_reply_def E_NOENT_def)
qed

theorem failed_write_counted_witness:
  "fu_replies (fuseserver_write sample_fuse_env 2147483653 ''hi!'' 3 0 fuse_new) = [Reply_write 2]"
proof -
  have "represents stored (stored es_new) {} (fu_yfs fuse_new)"
    using represents_empty_cache [of "fu_yfs fuse_new" stored] by (simp add: fuse_new_def)
  then show ?thesis
    using failed_write_counted [of fuse_new "stored es_new" "{}" 2147483653 sample_fuse_env 0 "''hi!''" 3 0] es_wf_new
    by (simp add: fuse_new_def es_new_def sample_fuse_env_def)
qed

text \<open>A name whose file is gone is answered with an entry nobody has filled in: if the directory has the name but the attributes of the
  file cannot be read (the lock of the directory has been given up, and another client may have removed the file), the
  reply is an entry whose number and attributes are what was on the stack.\<close>

theorem lookup_uninitialized:
  assumes "es_wf (yf_net (fu_yfs f))" "represents stored V T (fu_yfs f)" "ucast parent \<notin> T" "V (ucast parent) = Some t"
    and "find (\<lambda>e. c_str (snd e) = name) (dir_entries t) = Some (i, nm)" "V i = None" "i \<notin> T" "env_ok g x"
  shows "\<exists>e. fu_replies (fuseserver_lookup x parent name f) = fu_replies f @ [Reply_entry e] \<and> e_ino e = e_ino (fe_e x) \<and> e_attr e = e_attr (fe_e x)"
proof -
  let ?l = "lookupfile (server_rpc g) (fe_env x) (ucast parent) name 0 (fu_yfs f)"
  obtain ret j y1 where l: "?l = (ret, j, y1)" by (cases ?l)
  have r: "ret = yfs_EXIST" "j = i" "es_wf (yf_net y1)" "represents stored V T y1"
    using lookupfile_rep [OF assms(1-3) l] assms(4,5) by simp_all
  obtain r2 st y2 where a: "getattr x i y1 = (r2, st, y2)" by (cases "getattr x i y1")
  have "r2 \<noteq> yfs_OK" using getattr_rep [OF r(3,4) assms(7,8) a] assms(6) by (simp add: abs_fs_def)
  then show ?thesis using l r(1,2) a env_ok_rpc [OF assms(8)] by (simp add: fuseserver_lookup_def fuse_reply_def)
qed

end
