(* ===== verification/Coherence.thy ===== *)
theory Coherence
  imports Fuse
begin

text \<open>
  Several clients of the extent server (\<^verbatim>\<open>extent_client.cc\<close>, \<^verbatim>\<open>extent_server.cc\<close>). If a client works on an extent only while it holds its
  lock and flushes the extent before it gives the lock up, all clients see one store. The file system does not flush: the calls in
  \<^verbatim>\<open>yfs_lock.h\<close> and \<^verbatim>\<open>lock_client_cache.h\<close> are commented out, and what a client writes never leaves it.
\<close>

subsection \<open>Clients that flush\<close>

text \<open>The shared contents \<open>V\<close> as all clients should see them, the extents removed and not flushed, those used since their lock was taken,
  the holders of the locks, the caches and the server.\<close>

record ext_sys =
  x_V :: "u64 \<rightharpoonup> string"
  x_removed :: "u64 \<Rightarrow> bool"
  x_used :: "u64 \<Rightarrow> bool"
  x_owner :: "u64 \<Rightarrow> nat option"
  x_cache :: "nat \<Rightarrow> extent_client"
  x_server :: extent_server

inductive ext_system :: "u32 \<Rightarrow> ext_sys \<Rightarrow> bool" for g where
  xs_start: "es_wf s \<Longrightarrow> ext_system g \<lparr>x_V = stored s, x_removed = \<lambda>_. False, x_used = \<lambda>_. False, x_owner = \<lambda>_. None,
      x_cache = \<lambda>_. ec_new, x_server = s\<rparr>"
| xs_take: "ext_system g y \<Longrightarrow> x_owner y e = None \<Longrightarrow> ext_system g (y\<lparr>x_owner := (x_owner y)(e \<mapsto> i), x_used := (x_used y)(e := False)\<rparr>)"
| xs_op: "ext_system g y \<Longrightarrow> x_owner y e = Some i \<Longrightarrow> reads_ok (x_removed y e) [op] \<Longrightarrow>
    ec_step (server_rpc g) e (t, op) (x_cache y i, x_server y) = (r, c, s) \<Longrightarrow>
    ext_system g (y\<lparr>x_V := (x_V y)(e := snd (spec_step op (x_V y e))), x_removed := (x_removed y)(e := removed_after (x_removed y e) op),
      x_used := (x_used y)(e := True), x_cache := (x_cache y)(i := c), x_server := s\<rparr>)"
| xs_give: "ext_system g y \<Longrightarrow> x_owner y e = Some i \<Longrightarrow> x_used y e \<Longrightarrow>
    ec_flush (server_rpc g) snow e (x_cache y i, x_server y) = (ret, c, s) \<Longrightarrow>
    ext_system g (y\<lparr>x_removed := (x_removed y)(e := False), x_owner := (x_owner y)(e := None), x_cache := (x_cache y)(i := c), x_server := s\<rparr>)"

definition uncached :: "u64 \<Rightarrow> extent_client \<Rightarrow> bool" where
  "uncached e c \<longleftrightarrow> map_of (ec_contents c) e = None \<and> map_of (ec_attributes c) e = None"

definition ext_inv :: "u64 \<Rightarrow> ext_sys \<Rightarrow> bool" where
  "ext_inv e y \<longleftrightarrow> (\<forall>j. x_owner y e \<noteq> Some j \<longrightarrow> uncached e (x_cache y j)) \<and>
     (case x_owner y e of
        None \<Rightarrow> stored (x_server y) e = x_V y e \<and> \<not> x_removed y e
      | Some i \<Rightarrow> cache_inv stored e (x_removed y e) (x_V y e) (x_cache y i) (x_server y)
          \<and> (x_used y e \<longrightarrow> touched e (x_removed y e) (x_V y e) (x_cache y i)))"

text \<open>What happens to one extent does not touch the others.\<close>

definition same_at :: "u64 \<Rightarrow> extent_client \<Rightarrow> extent_client \<Rightarrow> bool" where
  "same_at e c c' \<longleftrightarrow> map_of (ec_contents c') e = map_of (ec_contents c) e \<and> map_of (ec_attributes c') e = map_of (ec_attributes c) e"

lemma ec_step_frame:
  assumes "ec_step rpc e (x, op) (c, w) = (r, c', w')" "e' \<noteq> e"
  shows "same_at e' c c'"
proof -
  obtain a0 now snow where x: "x = (a0, now, snow)" by (cases x)
  show ?thesis
  proof (cases op)
    case Ext_get
    then obtain ret b where "ec_get rpc a0 now snow e [] (c, w) = (ret, b, c', w')" using assms(1) x by (auto split: prod.splits)
    from ec_get_frame [OF this assms(2)] show ?thesis by (simp add: same_at_def)
  next
    case Ext_getattr
    then obtain ret b where "ec_getattr rpc snow e a0 (c, w) = (ret, b, c', w')" using assms(1) x by (auto split: prod.splits)
    from ec_getattr_frame [OF this assms(2)] show ?thesis by (simp add: same_at_def)
  next
    case (Ext_put b)
    then show ?thesis using assms x by (auto simp: same_at_def ec_put_def Let_def)
  next
    case Ext_remove
    then show ?thesis using assms x by (auto simp: same_at_def ec_remove_def ec_erase_def)
  qed
qed

lemma ec_flush_frame: "ec_flush rpc snow e (c, w) = (ret, c', w') \<Longrightarrow> e' \<noteq> e \<Longrightarrow> same_at e' c c'"
  by (auto simp: ec_flush_def same_at_def ec_erase_def split: prod.splits)

lemma ext_inv_frame:
  assumes "ext_inv e' y" "x_V y' e' = x_V y e'" "x_removed y' e' = x_removed y e'" "x_used y' e' = x_used y e'" "x_owner y' e' = x_owner y e'"
    "\<And>j. same_at e' (x_cache y j) (x_cache y' j)" "stored (x_server y') e' = stored (x_server y) e'"
  shows "ext_inv e' y'"
proof -
  have k: "map_of (ec_contents (x_cache y' j)) e' = map_of (ec_contents (x_cache y j)) e'"
    "map_of (ec_attributes (x_cache y' j)) e' = map_of (ec_attributes (x_cache y j)) e'" for j
    using assms(6) [of j] by (simp_all add: same_at_def)
  show ?thesis using assms(1) unfolding ext_inv_def uncached_def cache_inv_def touched_def assms(2-5,7) k .
qed

lemma ext_invD:
  "ext_inv e y \<Longrightarrow> x_owner y e \<noteq> Some j \<Longrightarrow> uncached e (x_cache y j)"
  "ext_inv e y \<Longrightarrow> x_owner y e = None \<Longrightarrow> stored (x_server y) e = x_V y e \<and> \<not> x_removed y e"
  "ext_inv e y \<Longrightarrow> x_owner y e = Some i \<Longrightarrow> cache_inv stored e (x_removed y e) (x_V y e) (x_cache y i) (x_server y)"
  "ext_inv e y \<Longrightarrow> x_owner y e = Some i \<Longrightarrow> x_used y e \<Longrightarrow> touched e (x_removed y e) (x_V y e) (x_cache y i)"
  by (simp_all add: ext_inv_def)

lemma ext_inv_take:
  assumes I: "ext_inv e y" "ext_inv e' y" and o: "x_owner y e = None"
  shows "ext_inv e' (y\<lparr>x_owner := (x_owner y)(e \<mapsto> i), x_used := (x_used y)(e := False)\<rparr>)"
proof (cases "e' = e")
  case True
  have "uncached e (x_cache y j)" for j using ext_invD(1) [OF I(1)] o by simp
  then show ?thesis using True ext_invD(2) [OF I(1) o] by (simp add: ext_inv_def cache_inv_def uncached_def)
next
  case False
  then show ?thesis by - (rule ext_inv_frame [of e' y], use I(2) in \<open>simp_all add: same_at_def\<close>)
qed

lemma ext_inv_op:
  assumes w: "es_wf (x_server y)" and I: "ext_inv e y" "ext_inv e' y" and o: "x_owner y e = Some i" "reads_ok (x_removed y e) [op]"
    and st: "ec_step (server_rpc g) e (t, op) (x_cache y i, x_server y) = (r, c, s)"
  shows "es_wf s" "ext_inv e' (y\<lparr>x_V := (x_V y)(e := snd (spec_step op (x_V y e))), x_removed := (x_removed y)(e := removed_after (x_removed y e) op),
      x_used := (x_used y)(e := True), x_cache := (x_cache y)(i := c), x_server := s\<rparr>)"
proof -
  obtain v where v: "spec_step op (x_V y e) = (r, v)" "cache_inv stored e (removed_after (x_removed y e) op) v c s"
    "touched e (removed_after (x_removed y e) op) v c" "es_wf s" "stored s = stored (x_server y)"
    using srv.step_correct [OF w ext_invD(3) [OF I(1) o(1)] _ st] o(2) by auto
  show "es_wf s" by (rule v(4))
  show "ext_inv e' (y\<lparr>x_V := (x_V y)(e := snd (spec_step op (x_V y e))), x_removed := (x_removed y)(e := removed_after (x_removed y e) op),
      x_used := (x_used y)(e := True), x_cache := (x_cache y)(i := c), x_server := s\<rparr>)"
  proof (cases "e' = e")
    case True
    then show ?thesis using o(1) ext_invD(1) [OF I(1)] v by (simp add: ext_inv_def)
  next
    case False
    then show ?thesis by - (rule ext_inv_frame [of e' y], use I(2) v(5) ec_step_frame [OF st] in \<open>simp_all add: same_at_def\<close>)
  qed
qed

lemma ext_inv_give:
  assumes w: "es_wf (x_server y)" and I: "ext_inv e y" "ext_inv e' y" and o: "x_owner y e = Some i" "x_used y e"
    and st: "ec_flush (server_rpc g) snow e (x_cache y i, x_server y) = (ret, c, s)"
  shows "es_wf s" "ext_inv e' (y\<lparr>x_removed := (x_removed y)(e := False), x_owner := (x_owner y)(e := None), x_cache := (x_cache y)(i := c), x_server := s\<rparr>)"
proof -
  have f: "es_wf s" "stored s = (stored (x_server y))(e := x_V y e)" "c = ec_erase e (x_cache y i)"
    using srv.flush_correct [OF w ext_invD(3) [OF I(1) o(1)] ext_invD(4) [OF I(1) o] st] by simp_all
  show "es_wf s" by (rule f(1))
  show "ext_inv e' (y\<lparr>x_removed := (x_removed y)(e := False), x_owner := (x_owner y)(e := None), x_cache := (x_cache y)(i := c), x_server := s\<rparr>)"
  proof (cases "e' = e")
    case True
    then show ?thesis using o(1) ext_invD(1) [OF I(1)] f by (auto simp: ext_inv_def uncached_def ec_erase_def)
  next
    case False
    then show ?thesis by - (rule ext_inv_frame [of e' y], use I(2) f(2) ec_flush_frame [OF st] in \<open>simp_all add: same_at_def\<close>)
  qed
qed

lemma ext_system_inv: "ext_system g y \<Longrightarrow> es_wf (x_server y) \<and> (\<forall>e. ext_inv e y)"
proof (induction rule: ext_system.induct)
  case (xs_start s)
  then show ?case by (simp add: ext_inv_def uncached_def ec_new_def)
next
  case (xs_take y e i)
  then show ?case using ext_inv_take [OF _ _ xs_take.hyps(2)] by simp
next
  case (xs_op y e i op t r c s)
  then show ?case using ext_inv_op [OF _ _ _ xs_op.hyps(2-4)] by simp
next
  case (xs_give y e i snow ret c s)
  then show ?case using ext_inv_give [OF _ _ _ xs_give.hyps(2-4)] by simp
qed


definition sample_ext_sys :: ext_sys where
  "sample_ext_sys = \<lparr>x_V = stored es_new, x_removed = \<lambda>_. False, x_used = \<lambda>_. False, x_owner = \<lambda>_. None, x_cache = \<lambda>_. ec_new,
     x_server = es_new\<rparr>"


subsection \<open>The file system does not flush\<close>

text \<open>The contents at the server stay as they are.\<close>

definition kept :: "extent_server yfs \<Rightarrow> extent_server yfs \<Rightarrow> bool" where
  "kept y y' \<longleftrightarrow> es_wf (yf_net y) \<longrightarrow> es_wf (yf_net y') \<and> stored (yf_net y') = stored (yf_net y)"

lemma kept_refl [simp]: "kept y y"
  by (simp add: kept_def)

lemma kept_trans: "kept y y1 \<Longrightarrow> kept y1 y2 \<Longrightarrow> kept y y2"
  by (simp add: kept_def)

lemma kept_trans3: "kept y y1 \<Longrightarrow> kept y1 y2 \<Longrightarrow> kept y2 y3 \<Longrightarrow> kept y y3"
  by (simp add: kept_def)

lemma kept_lock [simp]:
  "kept y (yfs_lock i y') = kept y y'" "kept y (yfs_unlock i y') = kept y y'" "kept (yfs_lock i y) y' = kept y y'"
  by (simp_all add: kept_def)

lemma es_get_kept:
  assumes "es_wf s" "es_get now e b s = (r, b', s')"
  shows "es_wf s' \<and> stored s' = stored s"
proof (cases "stored s e")
  case None
  then show ?thesis using assms by (simp add: es_get_def smap_has_def)
next
  case (Some t)
  then obtain a where "map_of (es_attributes s) e = Some a" "at_size a = of_nat (length t)" using es_wf_at [OF assms(1), of e] by auto
  then show ?thesis using assms Some by (auto simp: es_get_def es_wf_def smap_has_def smap_val_def)
qed

lemma es_getattr_kept: "es_getattr e a s = (r, a', s') \<Longrightarrow> s' = s"
  by (auto simp: es_getattr_def split: if_splits)

lemma kept_get: "yfs_get (server_rpc g) env e b y = (r, b', y') \<Longrightarrow> kept y y'"
  by (auto simp: kept_def yfs_get_def ec_get_def server_rpc_def Let_def split: prod.splits if_splits dest!: es_getattr_kept dest: es_get_kept)

lemma kept_getattr: "yfs_getattr (server_rpc g) env e y = (r, a, y') \<Longrightarrow> kept y y'"
  by (auto simp: kept_def yfs_getattr_def ec_getattr_def server_rpc_def Let_def split: prod.splits if_splits dest!: es_getattr_kept)

lemma kept_put: "yfs_put env e b y = (r, y') \<Longrightarrow> kept y y'"
  by (auto simp: kept_def yfs_put_def Let_def split: prod.splits if_splits)

lemma kept_remove: "yfs_remove e y = (r, y') \<Longrightarrow> kept y y'"
  by (auto simp: kept_def yfs_remove_def Let_def split: prod.splits if_splits)

lemmas kept_prims = kept_get kept_getattr kept_put kept_remove

lemma kept_getfile: "getfile (server_rpc g) env i fin y = (r, fin', y') \<Longrightarrow> kept y y'"
  by (auto simp: getfile_def Let_def split: prod.splits if_splits dest!: kept_getattr)

lemma kept_getdir: "getdir (server_rpc g) env i din y = (r, din', y') \<Longrightarrow> kept y y'"
  by (auto simp: getdir_def Let_def split: prod.splits if_splits dest!: kept_getattr)

lemma kept_lookupfile: "lookupfile (server_rpc g) env d name i y = (r, j, y') \<Longrightarrow> kept y y'"
  by (auto simp: lookupfile_def Let_def split: prod.splits if_splits dest!: kept_get)

lemma kept_getcontent: "getcontent (server_rpc g) env i b y = (r, b', y') \<Longrightarrow> kept y y'"
  by (auto simp: getcontent_def split: prod.splits dest!: kept_get)

lemma kept_read: "yfs_read (server_rpc g) env i n off b y = (r, b', y') \<Longrightarrow> kept y y'"
  by (auto simp: yfs_read_def Let_def split: prod.splits if_splits dest!: kept_get)

lemma kept_write: "yfs_write (server_rpc g) env i n off b y = (r, y') \<Longrightarrow> kept y y'"
  by (auto simp: yfs_write_def Let_def split: prod.splits if_splits dest!: kept_get kept_put intro: kept_trans)

lemma kept_setsize: "setsize (server_rpc g) env i n y = (r, y') \<Longrightarrow> kept y y'"
  by (auto simp: setsize_def Let_def split: prod.splits if_splits dest!: kept_get kept_put intro: kept_trans)

lemma kept_createfile: "createfile (server_rpc g) env rnd d f name y = (r, i, y') \<Longrightarrow> kept y y'"
  by (auto simp: createfile_def Let_def split: prod.splits if_splits dest!: kept_get kept_put intro: kept_trans kept_trans3)

lemma kept_unlink: "unlink (server_rpc g) env d name y = (r, y') \<Longrightarrow> kept y y'"
  by (auto simp: unlink_def Let_def split: prod.splits if_splits dest!: kept_get kept_put kept_remove intro: kept_trans kept_trans3)

lemmas kept_ops = kept_lookupfile kept_getcontent kept_read kept_write kept_setsize kept_createfile kept_unlink

lemma kept_fuse_getattr: "fe_rpc x = server_rpc g \<Longrightarrow> getattr x i y = (r, st, y') \<Longrightarrow> kept y y'"
  by (auto simp: getattr_def Let_def split: prod.splits if_splits dest!: kept_getfile kept_getdir)

lemma fu_yfs_reply [simp]: "fu_yfs (fuse_reply r y f) = y"
  by (simp add: fuse_reply_def)

lemmas kept_fuse = kept_ops kept_fuse_getattr

lemma kept_createhelper:
  "fe_rpc x = server_rpc g \<Longrightarrow> fuseserver_createhelper x d name e y = (r, e', y') \<Longrightarrow> kept y y'"
  "fe_rpc x = server_rpc g \<Longrightarrow> fuseserver_createdirhelper x d name e y = (r, e', y') \<Longrightarrow> kept y y'"
  by (auto simp: fuseserver_createhelper_def fuseserver_createdirhelper_def Let_def split: prod.splits if_splits
    dest!: kept_fuse intro: kept_trans)

lemma kept_handlers:
  assumes g: "fe_rpc x = server_rpc g"
  shows "kept (fu_yfs f) (fu_yfs (fuseserver_getattr x ino f))" "kept (fu_yfs f) (fu_yfs (fuseserver_setattr x ino sz ts f))"
    "kept (fu_yfs f) (fu_yfs (fuseserver_read x ino n off f))" "kept (fu_yfs f) (fu_yfs (fuseserver_write x ino buf n off f))"
    "kept (fu_yfs f) (fu_yfs (fuseserver_lookup x d name f))" "kept (fu_yfs f) (fu_yfs (fuseserver_unlink x d name f))"
    "kept (fu_yfs f) (fu_yfs (fuseserver_create x d name f))" "kept (fu_yfs f) (fu_yfs (fuseserver_mknod x d name f))"
    "kept (fu_yfs f) (fu_yfs (fuseserver_mkdir x d name f))"
    "fuseserver_readdir x ino n off f = Inr f' \<Longrightarrow> kept (fu_yfs f) (fu_yfs f')"
  subgoal by (auto simp: fuseserver_getattr_def Let_def split: prod.splits dest!: kept_fuse_getattr [OF g])
  subgoal by (auto simp: fuseserver_setattr_def g Let_def split: prod.splits dest!: kept_setsize kept_fuse_getattr [OF g] intro: kept_trans)
  subgoal by (auto simp: fuseserver_read_def g split: prod.splits dest!: kept_read)
  subgoal by (auto simp: fuseserver_write_def g split: prod.splits dest!: kept_write)
  subgoal by (auto simp: fuseserver_lookup_def g Let_def split: prod.splits dest!: kept_lookupfile kept_fuse_getattr [OF g] intro: kept_trans)
  subgoal by (auto simp: fuseserver_unlink_def g split: prod.splits dest!: kept_unlink)
  subgoal by (auto simp: fuseserver_create_def split: prod.splits dest!: kept_createhelper(1) [OF g])
  subgoal by (auto simp: fuseserver_mknod_def split: prod.splits dest!: kept_createhelper(1) [OF g])
  subgoal by (auto simp: fuseserver_mkdir_def split: prod.splits dest!: kept_createhelper(2) [OF g])
  subgoal by (auto simp: fuseserver_readdir_def g Let_def res_bind_Inr split: prod.splits if_splits dest!: kept_getcontent)
  done

lemma kept_oper: "fe_rpc x = server_rpc g \<Longrightarrow> fuseserver_oper x r f = Inr f' \<Longrightarrow> kept (fu_yfs f) (fu_yfs f')"
  by (cases r) (auto simp: fuseserver_open_def fuseserver_statfs_def intro: kept_handlers)

lemma kept_session:
  "\<forall>(x, r) \<in> set rs. fe_rpc x = server_rpc g \<Longrightarrow> fuse_session rs f = Inr f' \<Longrightarrow> kept (fu_yfs f) (fu_yfs f')"
proof (induction rs f rule: fuse_session.induct)
  case (2 x r rs f)
  obtain f1 where f1: "fuseserver_oper x r f = Inr f1" "fuse_session rs f1 = Inr f'" using "2.prems"(2) by (auto simp: res_bind_Inr)
  have "kept (fu_yfs f) (fu_yfs f1)" using kept_oper [OF _ f1(1)] "2.prems"(1) by simp
  moreover have "kept (fu_yfs f1) (fu_yfs f')" using "2.IH" [OF _ f1(2)] "2.prems"(1) by simp
  ultimately show ?case by (rule kept_trans)
qed simp

text \<open>(C35) What a file system client writes never leaves it: whatever sequence of requests the front end of a client handles, however many
  files it creates, writes and removes, the contents at the extent server stay what they were. Nothing in the program calls
  \<^verbatim>\<open>flush\<close>: the calls in \<^verbatim>\<open>YFSLock\<close> and in \<^verbatim>\<open>dorelease\<close> are commented out. So no other client sees any update, and all are
  lost with the process.\<close>

theorem updates_never_leave:
  assumes "\<forall>(x, r) \<in> set rs. fe_rpc x = server_rpc g" "es_wf (yf_net (fu_yfs f))" "fuse_session rs f = Inr f'"
  shows "stored (yf_net (fu_yfs f')) = stored (yf_net (fu_yfs f))"
  using kept_session [OF assms(1,3)] assms(2) by (simp add: kept_def)

text \<open>A client creates and writes a file and reads it back; the server still holds an empty root directory.\<close>

theorem updates_never_leave_witness:
  "\<exists>f'. fuse_session (take 3 sample_requests) fuse_new = Inr f' \<and> stored (yf_net (fu_yfs f')) = [1 \<mapsto> []]"
proof -
  have ok: "session_ok 0 (take 3 sample_requests) fs_new {}" using sample_requests_ok by (auto simp: sample_requests_def split: prod.splits)
  obtain obs A T where s: "spec_session (take 3 sample_requests) fs_new {} = (obs, A, T)" by (cases "spec_session (take 3 sample_requests) fs_new {}")
  obtain f' where f': "fuse_session (take 3 sample_requests) fuse_new = Inr f'"
    using session_sim [OF fuse_sim_new fs_wf_new ok s] by blast
  have "stored (yf_net (fu_yfs f')) = stored (yf_net (fu_yfs fuse_new))"
    by (rule updates_never_leave [OF _ _ f', of 0])
      (auto simp: sample_requests_def sample_fuse_env_def fuse_new_def es_wf_new)
  then show ?thesis using f' by (simp add: fuse_new_def es_new_def)
qed

end
