(* ===== verification/Spec2Isabelle.thy ===== *)
theory Spec2Isabelle
  imports Text_IO Rpc_Client Paxos_Safety Lock_Client Lock_Server_Old Lock_Service Pool Handle Poll Rpc_Call Coherence
begin

text \<open>
  A verification library for the YFS distributed file system laboratory: an RPC library with
  at-most-once semantics, Paxos, a replicated state machine, a lock service and a file system.
\<close>

end
